(* ===== verification/KCR_Prelude.thy ===== *)
theory KCR_Prelude
  imports Main "HOL-Library.Word" "HOL-Library.AList"
begin

text \<open>
  Shared vocabulary of the KCR development: the machine integer types of the C sources, the
  kernel faults an operation can run into, the fault-or-value result type with its sequencing
  operator \<open>rbind\<close>, the little-endian layout of integers in memory, and the word and list lemmas
  that several components use.
\<close>

section \<open>Machine integers and pointers\<close>

type_synonym u8 = "8 word"
type_synonym u16 = "16 word"
type_synonym u32 = "32 word"
type_synonym u64 = "64 word"

text \<open>A pointer is its 64-bit value; \<open>NULL\<close> is 0.\<close>

type_synonym ptr = "64 word"

abbreviation NULL :: ptr where
  "NULL \<equiv> 0"

section \<open>Faults and results\<close>

text \<open>
  What the C code does when it leaves defined behaviour. A fault is a value, so that every such
  path is a branch of the model.
\<close>

datatype fault =
    NullDeref       \<comment> \<open>access through a NULL pointer\<close>
  | UseAfterFree    \<comment> \<open>access to an object that is not allocated\<close>
  | PoisonAccess    \<comment> \<open>write through \<open>LIST_POISON2\<close>, left by \<open>hlist_del_rcu\<close>\<close>
  | OutOfBounds     \<comment> \<open>array index or buffer read outside the object\<close>
  | DoubleFree      \<comment> \<open>freeing an object that is not allocated\<close>
  | Deadlock        \<comment> \<open>taking a spinlock this CPU already holds\<close>
  | EndlessLoop     \<comment> \<open>a list traversal that never reaches the end\<close>

type_synonym 'a res = "fault + 'a"

fun rbind :: "'a res \<Rightarrow> ('a \<Rightarrow> 'b res) \<Rightarrow> 'b res" where
  "rbind (Inl f) k = Inl f"
| "rbind (Inr x) k = k x"

named_theorems res_simps \<open>rules that take apart a sequence of fallible steps\<close>

lemma rbind_Inr_iff [res_simps]:
  "rbind m k = Inr y \<longleftrightarrow> (\<exists>x. m = Inr x \<and> k x = Inr y)"
  by (cases m) auto

lemma rbind_Inl_iff [res_simps]:
  "rbind m k = Inl f \<longleftrightarrow> m = Inl f \<or> (\<exists>x. m = Inr x \<and> k x = Inl f)"
  by (cases m) auto

lemma rbind_assoc: "rbind (rbind m k) l = rbind m (\<lambda>x. rbind (k x) l)"
  by (cases m) auto

lemma rbind_cong [fundef_cong]:
  "m = m' \<Longrightarrow> (\<And>x. m' = Inr x \<Longrightarrow> k x = k' x) \<Longrightarrow> rbind m k = rbind m' k'"
  by (cases m') auto

text \<open>Reading the error codes the C functions return: \<open>-EINVAL\<close> and so on.\<close>

abbreviation EINVAL :: int where "EINVAL \<equiv> 22"
abbreviation ENOMEM :: int where "ENOMEM \<equiv> 12"
abbreviation ENODEV :: int where "ENODEV \<equiv> 19"
abbreviation ENOSYS :: int where "ENOSYS \<equiv> 38"

section \<open>Loops over a list of indices\<close>

text \<open>A C \<open>for\<close> loop whose body may fault: it stops at the first fault.\<close>

fun rfold :: "('i \<Rightarrow> 's \<Rightarrow> 's res) \<Rightarrow> 'i list \<Rightarrow> 's \<Rightarrow> 's res" where
  "rfold f [] s = Inr s"
| "rfold f (i # is) s = rbind (f i s) (rfold f is)"

lemma rfold_append: "rfold f (xs @ ys) s = rbind (rfold f xs s) (rfold f ys)"
proof (induction xs arbitrary: s)
  case Nil
  then show ?case by simp
next
  case (Cons x xs)
  then show ?case by (cases "f x s") simp_all
qed

lemma rfold_invariant:
  assumes "rfold f is s = Inr t" and "I s"
    and "\<And>i s t. i \<in> set is \<Longrightarrow> I s \<Longrightarrow> f i s = Inr t \<Longrightarrow> I t"
  shows "I t"
  using assms
proof (induction "is" arbitrary: s)
  case Nil
  then show ?case by simp
next
  case (Cons i "is")
  then obtain u where u: "f i s = Inr u" "rfold f is u = Inr t"
    by (auto simp: res_simps)
  with Cons.prems have "I u" by auto
  with u Cons show ?case by auto
qed

lemma rfold_no_change:
  "(\<And>i. i \<in> set is \<Longrightarrow> f i s = Inr s) \<Longrightarrow> rfold f is s = Inr s"
  by (induction "is") auto

lemma rfold_total:
  assumes "\<And>i s. i \<in> set is \<Longrightarrow> I s \<Longrightarrow> \<exists>t. f i s = Inr t \<and> I t" and "I s"
  shows "\<exists>t. rfold f is s = Inr t \<and> I t"
  using assms
proof (induction "is" arbitrary: s)
  case Nil
  then show ?case by simp
next
  case (Cons i "is")
  obtain u where u: "f i s = Inr u" "I u"
    using Cons.prems(1) [OF _ Cons.prems(2), of i] by auto
  have "\<exists>t. rfold f is u = Inr t \<and> I t"
    using Cons.prems(1) u(2) by (intro Cons.IH) auto
  with u show ?case by simp
qed

section \<open>Little-endian layout\<close>

text \<open>The \<open>k\<close> bytes of a number, least significant first, as x86-64 stores them.\<close>

primrec le_bytes :: "nat \<Rightarrow> nat \<Rightarrow> u8 list" where
  "le_bytes 0 n = []"
| "le_bytes (Suc k) n = word_of_nat n # le_bytes k (n div 256)"

primrec le_value :: "u8 list \<Rightarrow> nat" where
  "le_value [] = 0"
| "le_value (b # bs) = unat b + 256 * le_value bs"

lemma length_le_bytes [simp]: "length (le_bytes k n) = k"
  by (induction k arbitrary: n) auto

lemma unat_byte [simp]: "unat (word_of_nat n :: u8) = n mod 256"
  by (simp add: unat_of_nat)

lemma le_value_bytes: "le_value (le_bytes k n) = n mod 256 ^ k"
proof (induction k arbitrary: n)
  case 0
  then show ?case by simp
next
  case (Suc k)
  have "n mod (256 * 256 ^ k) = 256 * (n div 256 mod 256 ^ k) + n mod 256"
    by (rule mod_mult2_eq)
  with Suc show ?case by simp
qed

lemma base_digits:
  fixes a b c d :: nat
  assumes "256 * a + b = 256 * c + d" and "b < 256" and "d < 256"
  shows "b = d \<and> a = c"
proof -
  have "(256 * a + b) mod 256 = b" and "(256 * a + b) div 256 = a"
    and "(256 * c + d) mod 256 = d" and "(256 * c + d) div 256 = c"
    using assms(2,3) by simp_all
  with assms(1) show ?thesis by metis
qed

lemma le_bytes_inject:
  "le_bytes k m = le_bytes k n \<longleftrightarrow> m mod 256 ^ k = n mod 256 ^ k"
proof
  assume "le_bytes k m = le_bytes k n"
  then have "le_value (le_bytes k m) = le_value (le_bytes k n)" by simp
  then show "m mod 256 ^ k = n mod 256 ^ k" by (simp add: le_value_bytes)
next
  show "m mod 256 ^ k = n mod 256 ^ k \<Longrightarrow> le_bytes k m = le_bytes k n"
  proof (induction k arbitrary: m n)
    case 0
    then show ?case by simp
  next
    case (Suc k)
    have m: "m mod (256 * 256 ^ k) = 256 * (m div 256 mod 256 ^ k) + m mod 256"
      and n: "n mod (256 * 256 ^ k) = 256 * (n div 256 mod 256 ^ k) + n mod 256"
      by (rule mod_mult2_eq)+
    have same: "256 * (m div 256 mod 256 ^ k) + m mod 256 = 256 * (n div 256 mod 256 ^ k) + n mod 256"
      using Suc.prems unfolding power_Suc m n .
    have lt: "m mod 256 < 256" "n mod 256 < 256" by simp_all
    note digits = base_digits [OF same lt]
    have lo: "m mod 256 = n mod 256" and hi: "m div 256 mod 256 ^ k = n div 256 mod 256 ^ k"
      using digits by simp_all
    have "(word_of_nat m :: u8) = word_of_nat n"
      by (rule word_unat_eq_iff [THEN iffD2]) (simp add: lo)
    with Suc.IH [OF hi] show ?case by simp
  qed
qed

lemma le_bytes_zero: "le_bytes k 0 = replicate k 0"
  by (induction k) auto

lemma le_value_zero [simp]: "le_value (replicate k 0) = 0"
  by (induction k) auto

text \<open>The 64-bit and 32-bit values stored at byte offset \<open>off\<close> of a memory block.\<close>

definition rd64 :: "u8 list \<Rightarrow> nat \<Rightarrow> u64" where
  "rd64 bs off = word_of_nat (le_value (take 8 (drop off bs)))"

definition rd32 :: "u8 list \<Rightarrow> nat \<Rightarrow> u32" where
  "rd32 bs off = word_of_nat (le_value (take 4 (drop off bs)))"

text \<open>Overwriting the bytes at offset \<open>off\<close> (an assignment to a field of a C object).\<close>

definition wr_bytes :: "u8 list \<Rightarrow> nat \<Rightarrow> u8 list \<Rightarrow> u8 list" where
  "wr_bytes bs off vs = take off bs @ vs @ drop (off + length vs) bs"

lemma length_wr_bytes [simp]:
  "off + length vs \<le> length bs \<Longrightarrow> length (wr_bytes bs off vs) = length bs"
  by (simp add: wr_bytes_def)

lemma rd64_wr64:
  assumes "off + 8 \<le> length bs"
  shows "rd64 (wr_bytes bs off (le_bytes 8 (unat w))) off = w"
proof -
  have "unat w < 2 ^ 64" using unsigned_less [of w] by simp
  then have "unat w mod 256 ^ 8 = unat w" by simp
  moreover have "min (length bs) off = off" using assms by simp
  ultimately show ?thesis
    using assms by (simp add: rd64_def wr_bytes_def le_value_bytes)
qed

lemma rd32_wr32:
  assumes "off + 4 \<le> length bs"
  shows "rd32 (wr_bytes bs off (le_bytes 4 (unat w))) off = w"
proof -
  have "unat w < 2 ^ 32" using unsigned_less [of w] by simp
  then have "unat w mod 256 ^ 4 = unat w" by simp
  moreover have "min (length bs) off = off" using assms by simp
  ultimately show ?thesis
    using assms by (simp add: rd32_def wr_bytes_def le_value_bytes)
qed

text \<open>A read outside the overwritten bytes is not affected.\<close>

lemma rd64_wr_before:
  assumes "i + 8 \<le> off" and "off \<le> length bs"
  shows "rd64 (wr_bytes bs off vs) i = rd64 bs i"
proof -
  have "take 8 (drop i (take off bs)) = take 8 (drop i bs)"
    using assms by (simp add: drop_take min_def)
  moreover have "take 8 (drop i (wr_bytes bs off vs)) = take 8 (drop i (take off bs))"
    using assms by (simp add: wr_bytes_def)
  ultimately show ?thesis by (simp add: rd64_def)
qed

lemma rd64_wr_after:
  assumes "off + length vs \<le> i" and "off + length vs \<le> length bs"
  shows "rd64 (wr_bytes bs off vs) i = rd64 bs i"
proof -
  have "off \<le> length bs" using assms(2) by simp
  then have "drop i (wr_bytes bs off vs) = drop i bs"
    using assms by (simp add: wr_bytes_def)
  then show ?thesis by (simp add: rd64_def)
qed

section \<open>Finite maps as association lists\<close>

lemma length_update_present:
  "k \<in> fst ` set al \<Longrightarrow> length (AList.update k v al) = length al"
  by (induction al) auto

lemma card_dom_map_of: "card (dom (map_of al)) \<le> length al"
proof -
  have "card (fst ` set al) \<le> length al"
    by (meson card_image_le card_length finite_set le_trans)
  then show ?thesis by (simp add: dom_map_of_conv_image_fst)
qed

lemma map_of_delete_other: "p \<noteq> q \<Longrightarrow> map_of (AList.delete p al) q = map_of al q"
  by (simp add: delete_conv')

lemma delete_fresh: "map_of al p = None \<Longrightarrow> AList.delete p al = al"
  by (induction al) (auto split: if_splits)

lemma delete_update_fresh:
  "map_of al p = None \<Longrightarrow> AList.delete p (AList.update p v al) = al"
  by (induction al) (auto split: if_splits simp: delete_fresh)

end
