(* ===== verification/Kernel_Lib.thy ===== *)
theory Kernel_Lib
  imports KCR_Prelude
begin

text \<open>
  The few macros of the kernel headers that the KCR sources use as if they were part of the
  language: the wrapping comparison of jiffies, the bit tests on flag words, page rounding and
  the decimal conversions of \<open>seq_printf\<close>. The list macros (\<open>hlist\<close>), which work on the heap, are in
  \<open>KCR_Heap\<close>.
\<close>

unbundle bit_operations_syntax

section \<open>Jiffies\<close>

text \<open>
  \<open>time_after(a, b)\<close> is \<open>((long)((b) - (a)) < 0)\<close>: the difference is taken modulo \<open>2^64\<close> and read as
  a signed number, so that the comparison survives a wrap-around of the counter.
\<close>

definition time_after :: "u64 \<Rightarrow> u64 \<Rightarrow> bool" where
  "time_after a b \<longleftrightarrow> sint (b - a) < 0"

definition time_before :: "u64 \<Rightarrow> u64 \<Rightarrow> bool" where
  "time_before a b \<longleftrightarrow> time_after b a"

lemma sint_neg_iff: "sint (w :: u64) < 0 \<longleftrightarrow> 2 ^ 63 \<le> unat w"
proof -
  have "sint w = signed_take_bit 63 (uint w)"
    by (simp add: sint_uint)
  also have "\<dots> < 0 \<longleftrightarrow> bit (uint w) 63"
    by (rule signed_take_bit_negative_iff)
  also have "\<dots> \<longleftrightarrow> 2 ^ 63 \<le> uint w"
  proof -
    have lt: "uint w < 2 * 2 ^ 63" using uint_lt2p [of w] by simp
    have nn: "0 \<le> uint w" by simp
    have "bit (uint w) 63 \<longleftrightarrow> odd (uint w div 2 ^ 63)"
      by (rule bit_iff_odd)
    also have "\<dots> \<longleftrightarrow> 2 ^ 63 \<le> uint w"
    proof (cases "2 ^ 63 \<le> uint w")
      case True
      then have "uint w div 2 ^ 63 = 1"
        using lt by (simp add: int_div_pos_eq [where r = "uint w - 2 ^ 63"])
      with True show ?thesis by simp
    next
      case False
      then have "uint w div 2 ^ 63 = 0" using nn by simp
      with False show ?thesis by simp
    qed
    finally show ?thesis .
  qed
  also have "\<dots> \<longleftrightarrow> 2 ^ 63 \<le> unat w"
  proof -
    have "uint w = int (unat w)" by simp
    then have "2 ^ 63 \<le> uint w \<longleftrightarrow> int (2 ^ 63) \<le> int (unat w)" by simp
    then show ?thesis by (simp only: of_nat_le_iff)
  qed
  finally show ?thesis .
qed

lemma time_before_irrefl [simp]: "\<not> time_before a a"
  by (simp add: time_before_def time_after_def)

lemma time_after_iff: "time_after a b \<longleftrightarrow> 2 ^ 63 \<le> unat (b - a)"
  by (simp add: time_after_def sint_neg_iff)

lemma time_before_iff: "time_before a b \<longleftrightarrow> 2 ^ 63 \<le> unat (a - b)"
  by (simp add: time_before_def time_after_iff)

lemma unat_uminus: "(w :: u64) \<noteq> 0 \<Longrightarrow> unat (- w) = 2 ^ 64 - unat w"
  using unat_sub_if' [of 0 w] by (simp add: unat_gt_0)

text \<open>
  Both comparisons hold at once only for two values exactly half the counter's range apart.
\<close>

lemma time_before_not_after:
  assumes "time_before a b" and "a - b \<noteq> 2 ^ 63"
  shows "\<not> time_after a b"
proof -
  have ge: "2 ^ 63 \<le> unat (a - b)" using assms(1) by (simp only: time_before_iff)
  have "unat (a - b) \<noteq> 2 ^ 63"
  proof
    assume "unat (a - b) = 2 ^ 63"
    also have "\<dots> = unat (2 ^ 63 :: u64)" by simp
    finally show False using assms(2) by (simp only: word_unat_eq_iff [symmetric])
  qed
  with ge have gt: "2 ^ 63 < unat (a - b)" by simp
  then have "a - b \<noteq> 0" by (metis not_less_zero unat_0)
  then have "unat (- (a - b)) = 2 ^ 64 - unat (a - b)" by (rule unat_uminus)
  then have "unat (b - a) = 2 ^ 64 - unat (a - b)" by simp
  with gt show ?thesis unfolding time_after_iff by simp
qed

text \<open>An expiry set less than half the counter's range ahead has not been reached yet.\<close>

lemma time_before_add:
  assumes "0 < d" and "unat d < 2 ^ 63"
  shows "time_before j (j + d)"
proof -
  have "j - (j + d) = - d" by simp
  moreover have "unat (- d) = 2 ^ 64 - unat d"
    using assms(1) by (intro unat_uminus) auto
  ultimately show ?thesis unfolding time_before_iff using assms(2) by simp
qed

text \<open>Once the expiry is reached, and for half the counter's range after it, it stays reached.\<close>

lemma not_time_before_add: "unat d < 2 ^ 63 \<Longrightarrow> \<not> time_before (e + d) e"
  unfolding time_before_iff by simp

end
