(* ===== verification/KCR_Types.thy ===== *)
theory KCR_Types
  imports Kernel_Lib
begin

text \<open>
  The constants and structures of \<open>include/linux/kcr.h\<close>, \<open>kcr_flags.h\<close> and \<open>kcr_task.h\<close>. A C struct
  is a record with the fields of the source; padding, RCU heads (which only link an object into
  the callback queue) and alignment attributes have no field.
\<close>

section \<open>Constants\<close>

definition KCR_REGION_SIZE :: nat where "KCR_REGION_SIZE = 16 * 1024 * 1024"
definition KCR_METADATA_OFFSET :: nat where "KCR_METADATA_OFFSET = 0"
definition KCR_METADATA_SIZE :: nat where "KCR_METADATA_SIZE = 4096"
definition KCR_L2_OFFSET :: nat where "KCR_L2_OFFSET = 4096"
definition KCR_L2_SIZE :: nat where "KCR_L2_SIZE = 512 * 64"
definition KCR_L3_OFFSET :: nat where "KCR_L3_OFFSET = 4096 + 32768"
definition KCR_L3_SIZE :: nat where "KCR_L3_SIZE = 4096 * 64"

definition KCR_L2_ENTRIES :: nat where "KCR_L2_ENTRIES = 64"
definition KCR_L3_ENTRIES :: nat where "KCR_L3_ENTRIES = 512"
definition KCR_RESULT_SIZE_MAX :: nat where "KCR_RESULT_SIZE_MAX = 64"
definition KCR_FINGERPRINT_BITS :: nat where "KCR_FINGERPRINT_BITS = 64"
definition KCR_EXT_SLOTS :: nat where "KCR_EXT_SLOTS = 256"
definition KCR_EXT_SLOT_SIZE :: nat where "KCR_EXT_SLOT_SIZE = 4 * 1024"

definition KCR_SEED_BASE :: u64 where "KCR_SEED_BASE = 0x123456789ABCDEF0"
definition KCR_SEED_CRYPTO :: u64 where "KCR_SEED_CRYPTO = 0xFEDCBA9876543210"

definition KCR_MASK_RAX :: u8 where "KCR_MASK_RAX = push_bit 0 1"
definition KCR_MASK_RBX :: u8 where "KCR_MASK_RBX = push_bit 1 1"
definition KCR_MASK_RCX :: u8 where "KCR_MASK_RCX = push_bit 2 1"
definition KCR_MASK_RDX :: u8 where "KCR_MASK_RDX = push_bit 3 1"
definition KCR_MASK_RSI :: u8 where "KCR_MASK_RSI = push_bit 4 1"
definition KCR_MASK_RDI :: u8 where "KCR_MASK_RDI = push_bit 5 1"
definition KCR_MASK_RBP :: u8 where "KCR_MASK_RBP = push_bit 6 1"
definition KCR_MASK_RSP :: u8 where "KCR_MASK_RSP = push_bit 7 1"

definition KCR_FLAG_VALID :: u8 where "KCR_FLAG_VALID = push_bit 0 1"
definition KCR_FLAG_ENCRYPTED :: u8 where "KCR_FLAG_ENCRYPTED = push_bit 1 1"
definition KCR_FLAG_DMA_SAFE :: u8 where "KCR_FLAG_DMA_SAFE = push_bit 2 1"

definition VM_KCR :: u64 where "VM_KCR = 0x01000000"

lemmas size_defs =
  KCR_L2_ENTRIES_def KCR_L3_ENTRIES_def KCR_RESULT_SIZE_MAX_def KCR_EXT_SLOTS_def

lemmas mask_defs =
  KCR_MASK_RAX_def KCR_MASK_RBX_def KCR_MASK_RCX_def KCR_MASK_RDX_def
  KCR_MASK_RSI_def KCR_MASK_RDI_def KCR_MASK_RBP_def KCR_MASK_RSP_def

text \<open>The three areas of the shared region do not overlap and fit into it.\<close>

lemma region_layout:
  "KCR_METADATA_OFFSET + KCR_METADATA_SIZE \<le> KCR_L2_OFFSET
   \<and> KCR_L2_OFFSET + KCR_L2_SIZE \<le> KCR_L3_OFFSET
   \<and> KCR_L3_OFFSET + KCR_L3_SIZE \<le> KCR_REGION_SIZE"
  by (simp add: KCR_METADATA_OFFSET_def KCR_METADATA_SIZE_def KCR_L2_OFFSET_def KCR_L2_SIZE_def
      KCR_L3_OFFSET_def KCR_L3_SIZE_def KCR_REGION_SIZE_def)

section \<open>List heads and links\<close>

text \<open>
  The address of a \<open>struct hlist_head\<close>: the head of bucket \<open>b\<close> in the L2 cache of CPU \<open>c\<close>, or of
  bucket \<open>b\<close> in the L3 table of socket \<open>i\<close>.
\<close>

datatype hhead = L2Head nat nat | L3Head nat nat

text \<open>
  The contents of an \<open>hlist_node.pprev\<close> field: the address of the pointer that points to the
  node. It is the \<open>first\<close> field of a head, the \<open>next\<close> field of the node inside another entry,
  NULL in a zeroed entry, or \<open>LIST_POISON2\<close> in a deleted one. A node is identified with the entry
  that embeds it (\<open>container_of\<close> is the inverse of taking the field's address).
\<close>

datatype hlink = LNull | LPoison2 | LFirst hhead | LNext ptr

section \<open>Structures\<close>

text \<open>
  \<open>struct kcr_entry\<close>. The anonymous union of \<open>result[8]\<close> with \<open>ext_data\<close>, \<open>ext_size\<close> and
  \<open>reserved\<close> is its 64 bytes of storage, so that a write through one member shows in the other.
\<close>

record kcr_entry =
  fingerprint :: u64
  result_union :: "u8 list"
  expiry_jiffies :: u64
  fragment_length :: u16
  register_mask :: u8
  eflags :: u8
  hit_count :: u32
  mm :: ptr
  mm_generation :: u64
  pid :: "32 word"
  pid_ns :: ptr
  node_next :: ptr
  node_pprev :: hlink

text \<open>The members of the union: \<open>ext_data\<close> at offset 0, \<open>ext_size\<close> at offset 8, \<open>result[i]\<close> at \<open>8 * i\<close>.\<close>

definition ext_data :: "kcr_entry \<Rightarrow> ptr" where
  "ext_data e = rd64 (result_union e) 0"

definition ext_size :: "kcr_entry \<Rightarrow> u32" where
  "ext_size e = rd32 (result_union e) 8"

definition result :: "kcr_entry \<Rightarrow> nat \<Rightarrow> u64" where
  "result e i = rd64 (result_union e) (8 * i)"

definition set_ext_data :: "ptr \<Rightarrow> kcr_entry \<Rightarrow> kcr_entry" where
  "set_ext_data p e = e\<lparr>result_union := wr_bytes (result_union e) 0 (le_bytes 8 (unat p))\<rparr>"

definition set_ext_size :: "u32 \<Rightarrow> kcr_entry \<Rightarrow> kcr_entry" where
  "set_ext_size n e = e\<lparr>result_union := wr_bytes (result_union e) 8 (le_bytes 4 (unat n))\<rparr>"

text \<open>What \<open>kzalloc(sizeof(struct kcr_entry))\<close> returns.\<close>

definition zero_entry :: kcr_entry where
  "zero_entry = \<lparr>fingerprint = 0, result_union = replicate 64 0, expiry_jiffies = 0,
     fragment_length = 0, register_mask = 0, eflags = 0, hit_count = 0, mm = NULL,
     mm_generation = 0, pid = 0, pid_ns = NULL, node_next = NULL, node_pprev = LNull\<rparr>"

text \<open>
  \<open>struct l2_bucket\<close>, \<open>struct cpu_cache\<close> and \<open>struct l3_table\<close>. An array of the C source is a
  function of the index; every index the code uses is taken modulo the length or comes from a
  loop below it.
\<close>

record l2_bucket =
  head :: ptr
  lock :: bool

record cpu_stats =
  l2_hits :: u64
  l3_hits :: u64
  misses :: u64
  invalidations :: u64
  cycles_saved :: u64

record cpu_cache =
  l2 :: "nat \<Rightarrow> l2_bucket"
  stats :: cpu_stats

record l3_table =
  buckets :: "nat \<Rightarrow> l2_bucket"
  ext_slots :: "nat \<Rightarrow> ptr"
  ext_slot_size :: "nat \<Rightarrow> u32"
  ext_lock :: bool
  socket_id :: u32

record kcr_metadata =
  generation :: u64
  last_flush :: u64
  entry_count :: u32
  mflags :: u32
  mstats :: "u64 list"

record kcr_task_struct =
  kcr_process_key :: "u8 list"
  kcr_enabled :: bool
  kcr_seed :: u64

lemma ext_data_set [simp]:
  "length (result_union e) = 64 \<Longrightarrow> ext_data (set_ext_data p e) = p"
  using rd64_wr64 [of 0 "result_union e" p] by (simp add: ext_data_def set_ext_data_def)

lemma ext_size_set [simp]:
  "length (result_union e) = 64 \<Longrightarrow> ext_size (set_ext_size n e) = n"
  using rd32_wr32 [of 8 "result_union e" n] by (simp add: ext_size_def set_ext_size_def)

lemma ext_data_set_size [simp]:
  "length (result_union e) = 64 \<Longrightarrow> ext_data (set_ext_size n e) = ext_data e"
  by (simp add: ext_data_def set_ext_size_def rd64_wr_before)

lemma length_set_ext [simp]:
  "length (result_union e) = 64 \<Longrightarrow> length (result_union (set_ext_data p e)) = 64"
  "length (result_union e) = 64 \<Longrightarrow> length (result_union (set_ext_size n e)) = 64"
  by (simp_all add: set_ext_data_def set_ext_size_def)

text \<open>The union members share storage: \<open>ext_data\<close> is \<open>result[0]\<close>.\<close>

lemma result_0_is_ext_data: "result e 0 = ext_data e"
  by (simp add: result_def ext_data_def)

lemma set_ext_frame [simp]:
  "fingerprint (set_ext_data p e) = fingerprint e" "fingerprint (set_ext_size n e) = fingerprint e"
  "mm (set_ext_data p e) = mm e" "mm (set_ext_size n e) = mm e"
  "expiry_jiffies (set_ext_data p e) = expiry_jiffies e"
  "expiry_jiffies (set_ext_size n e) = expiry_jiffies e"
  "mm_generation (set_ext_data p e) = mm_generation e"
  "mm_generation (set_ext_size n e) = mm_generation e"
  "register_mask (set_ext_data p e) = register_mask e"
  "register_mask (set_ext_size n e) = register_mask e"
  "fragment_length (set_ext_data p e) = fragment_length e"
  "fragment_length (set_ext_size n e) = fragment_length e"
  by (simp_all add: set_ext_data_def set_ext_size_def)

end
