(* ===== verification/KCR_Mem.thy ===== *)
theory KCR_Mem
  imports KCR_Types
begin

text \<open>
  \<open>drivers/kcr/kcr_mem.c\<close>: the shared memory region and its reference count. The contract the module
  code relies on is the locale \<open>region_provider\<close>: a failed allocation changes nothing, and
  releasing the only reference undoes a successful one.
\<close>

section \<open>State\<close>

record shared_region =
  memfd_file :: ptr
  kernel_vaddr :: ptr
  region_size :: u64
  phys_addr :: u64
  region_refcount :: "32 word"

text \<open>
  The descriptors and the \<open>vmalloc\<close> areas that are allocated; an area is its length and contents.
\<close>

record mem_state =
  regions :: "(ptr \<times> shared_region) list"
  vareas :: "(ptr \<times> nat \<times> (nat \<Rightarrow> u8)) list"

text \<open>
  What the allocators return to one call: 0 for a failure; \<open>vmalloc\<close> memory is not cleared.
\<close>

record mem_env =
  kzalloc_region :: ptr
  vmalloc_ret :: ptr
  vmalloc_bytes :: "nat \<Rightarrow> u8"

definition zero_region :: shared_region where
  "zero_region = \<lparr>memfd_file = NULL, kernel_vaddr = NULL, region_size = 0, phys_addr = 0,
     region_refcount = 0\<rparr>"

definition kfree_region :: "ptr \<Rightarrow> mem_state \<Rightarrow> mem_state res" where
  "kfree_region r s =
     (if r = NULL then Inr s
      else if map_of (regions s) r = None then Inl DoubleFree
      else Inr (s\<lparr>regions := AList.delete r (regions s)\<rparr>))"

definition vfree :: "ptr \<Rightarrow> mem_state \<Rightarrow> mem_state res" where
  "vfree a s =
     (if a = NULL then Inr s
      else if map_of (vareas s) a = None then Inl DoubleFree
      else Inr (s\<lparr>vareas := AList.delete a (vareas s)\<rparr>))"

text \<open>\<open>memset(a, 0, n)\<close> on a \<open>vmalloc\<close> area.\<close>

definition memset_zero :: "ptr \<Rightarrow> nat \<Rightarrow> mem_state \<Rightarrow> mem_state res" where
  "memset_zero a n s =
     (case map_of (vareas s) a of
        None \<Rightarrow> Inl UseAfterFree
      | Some (len, bytes) \<Rightarrow>
          if n \<le> len
          then Inr (s\<lparr>vareas := AList.update a (len, \<lambda>i. if i < n then 0 else bytes i) (vareas s)\<rparr>)
          else Inl OutOfBounds)"

section \<open>Operations\<close>

definition kcr_alloc_region :: "mem_env \<Rightarrow> mem_state \<Rightarrow> (ptr \<times> mem_state) res" where
  "kcr_alloc_region v s =
     (let region = kzalloc_region v in
      if region = NULL then Inr (NULL, s)
      else
        let s = s\<lparr>regions := (region, zero_region) # regions s\<rparr>;
            vaddr = vmalloc_ret v
        in if vaddr = NULL
           then rbind (kfree_region region s) (\<lambda>s. Inr (NULL, s))
           else
             let s = s\<lparr>vareas := (vaddr, KCR_REGION_SIZE, vmalloc_bytes v) # vareas s,
                       regions := AList.update region
                         \<lparr>memfd_file = NULL, kernel_vaddr = vaddr,
                          region_size = word_of_nat KCR_REGION_SIZE, phys_addr = 0,
                          region_refcount = 1\<rparr> (regions s)\<rparr>
             in rbind (memset_zero vaddr KCR_REGION_SIZE s) (\<lambda>s. Inr (region, s)))"

definition kcr_free_region :: "ptr \<Rightarrow> mem_state \<Rightarrow> mem_state res" where
  "kcr_free_region region s =
     (if region = NULL then Inr s
      else case map_of (regions s) region of
        None \<Rightarrow> Inl UseAfterFree
      | Some r \<Rightarrow>
          let r = r\<lparr>region_refcount := region_refcount r - 1\<rparr>;
              s = s\<lparr>regions := AList.update region r (regions s)\<rparr>
          in if region_refcount r \<noteq> 0 then Inr s
             else rbind (if kernel_vaddr r \<noteq> NULL
                         then rbind (vfree (kernel_vaddr r) s) (\<lambda>s.
                              Inr (s\<lparr>regions := AList.update region (r\<lparr>kernel_vaddr := NULL\<rparr>) (regions s)\<rparr>))
                         else Inr s) (kfree_region region))"

definition kcr_map_to_user :: "ptr \<Rightarrow> ptr \<Rightarrow> int" where
  "kcr_map_to_user region task = (if region = NULL \<or> task = NULL then - EINVAL else - ENOSYS)"

section \<open>The contract\<close>

text \<open>
  \<open>fresh_for v s\<close>: the allocators return memory that is not in use. The client of the region is the
  module's start and stop code, in particular its error path: allocate, fail at a later step,
  release.
\<close>

locale region_provider =
  fixes alloc :: "'e \<Rightarrow> 's \<Rightarrow> (ptr \<times> 's) res" and release :: "ptr \<Rightarrow> 's \<Rightarrow> 's res"
    and fresh_for :: "'e \<Rightarrow> 's \<Rightarrow> bool" and holds :: "'s \<Rightarrow> ptr \<Rightarrow> bool"
  assumes alloc_total: "fresh_for v s \<Longrightarrow> \<exists>p t. alloc v s = Inr (p, t)"
    and alloc_failed: "fresh_for v s \<Longrightarrow> alloc v s = Inr (NULL, t) \<Longrightarrow> t = s"
    and alloc_holds: "fresh_for v s \<Longrightarrow> alloc v s = Inr (p, t) \<Longrightarrow> p \<noteq> NULL \<Longrightarrow> holds t p"
    and alloc_release: "fresh_for v s \<Longrightarrow> alloc v s = Inr (p, t) \<Longrightarrow> p \<noteq> NULL \<Longrightarrow> release p t = Inr s"
    and release_null: "release NULL s = Inr s"
begin

text \<open>Allocation and release in sequence, with NULL handled, always give the old state back.\<close>

lemma alloc_then_release:
  assumes "fresh_for v s"
  shows "rbind (alloc v s) (\<lambda>(p, t). release p t) = Inr s"
proof -
  from alloc_total [OF assms] obtain p t where a: "alloc v s = Inr (p, t)" by blast
  show ?thesis
    using alloc_failed [OF assms, of t] alloc_release [OF assms a] release_null a
    by (cases "p = NULL") auto
qed

lemma alloc_cases:
  assumes "fresh_for v s"
  obtains (failed) "alloc v s = Inr (NULL, s)"
  | (ok) p t where "alloc v s = Inr (p, t)" "p \<noteq> NULL" "holds t p" "release p t = Inr s"
proof -
  from alloc_total [OF assms] obtain p t where a: "alloc v s = Inr (p, t)" by blast
  show thesis
    using that alloc_failed [OF assms, of t] alloc_holds [OF assms a] alloc_release [OF assms a] a
    by (cases "p = NULL") auto
qed

end

definition region_fresh :: "mem_env \<Rightarrow> mem_state \<Rightarrow> bool" where
  "region_fresh v s \<longleftrightarrow> map_of (regions s) (kzalloc_region v) = None
     \<and> map_of (vareas s) (vmalloc_ret v) = None"

text \<open>The state holds a region of full size, cleared, with one reference.\<close>

definition holds_region :: "mem_state \<Rightarrow> ptr \<Rightarrow> bool" where
  "holds_region s p \<longleftrightarrow> (\<exists>r. map_of (regions s) p = Some r \<and> region_refcount r = 1
     \<and> region_size r = word_of_nat KCR_REGION_SIZE
     \<and> (\<exists>bytes. map_of (vareas s) (kernel_vaddr r) = Some (KCR_REGION_SIZE, bytes)
          \<and> (\<forall>i<KCR_REGION_SIZE. bytes i = 0)))"

text \<open>The two failures and the success of the allocation, spelled out.\<close>

lemma kcr_alloc_region_eq:
  assumes "region_fresh v s"
  shows "kcr_alloc_region v s =
    (if kzalloc_region v = NULL \<or> vmalloc_ret v = NULL then Inr (NULL, s)
     else Inr (kzalloc_region v,
       s\<lparr>regions := (kzalloc_region v,
            \<lparr>memfd_file = NULL, kernel_vaddr = vmalloc_ret v, region_size = word_of_nat KCR_REGION_SIZE,
             phys_addr = 0, region_refcount = 1\<rparr>) # regions s,
          vareas := (vmalloc_ret v, KCR_REGION_SIZE,
            \<lambda>i. if i < KCR_REGION_SIZE then 0 else vmalloc_bytes v i) # vareas s\<rparr>))"
proof -
  have "AList.delete (kzalloc_region v) (regions s) = regions s"
    "AList.delete (vmalloc_ret v) (vareas s) = vareas s"
    using assms by (simp_all add: region_fresh_def delete_id map_of_eq_None_iff)
  then show ?thesis
    by (auto simp: kcr_alloc_region_def kfree_region_def memset_zero_def Let_def)
qed

interpretation region: region_provider kcr_alloc_region kcr_free_region region_fresh holds_region
proof
  fix v s p t
  assume f: "region_fresh v s" and a: "kcr_alloc_region v s = Inr (p, t)" and p: "p \<noteq> NULL"
  have d: "AList.delete (kzalloc_region v) (regions s) = regions s"
    "AList.delete (vmalloc_ret v) (vareas s) = vareas s"
    using f by (simp_all add: region_fresh_def delete_id map_of_eq_None_iff)
  show "holds_region t p"
    using a p by (auto simp: kcr_alloc_region_eq [OF f] holds_region_def split: if_splits)
  show "kcr_free_region p t = Inr s"
    using a p d
    by (auto simp: kcr_alloc_region_eq [OF f] kcr_free_region_def vfree_def kfree_region_def
        Let_def split: if_splits)
qed (auto simp: kcr_alloc_region_eq kcr_free_region_def split: if_splits)

section \<open>Properties\<close>

text \<open>
  C36. Allocating the shared region either fails, and then the memory is as before, or returns the
  descriptor of a region of 16 MB, all zero, with one reference; and releasing what it returned,
  NULL included, restores the memory exactly: no leak on any path.
\<close>

theorem region_alloc_free:
  assumes "region_fresh v s"
  shows "\<exists>p t. kcr_alloc_region v s = Inr (p, t)
    \<and> (if kzalloc_region v = NULL \<or> vmalloc_ret v = NULL then p = NULL \<and> t = s
       else p = kzalloc_region v \<and> holds_region t p)
    \<and> kcr_free_region p t = Inr s"
  using assms
proof (cases rule: region.alloc_cases)
  case failed
  then show ?thesis
    by (auto simp: kcr_alloc_region_eq [OF assms] region.release_null split: if_splits)
next
  case (ok p t)
  then show ?thesis by (auto simp: kcr_alloc_region_eq [OF assms] split: if_splits)
qed

theorem region_alloc_free_witness:
  "\<exists>p t. kcr_alloc_region \<lparr>kzalloc_region = 64, vmalloc_ret = 4096, vmalloc_bytes = \<lambda>i. 170\<rparr>
       \<lparr>regions = [], vareas = []\<rparr> = Inr (p, t)
     \<and> p = 64 \<and> holds_region t p \<and> kcr_free_region p t = Inr \<lparr>regions = [], vareas = []\<rparr>"
proof -
  let ?v = "\<lparr>kzalloc_region = 64, vmalloc_ret = 4096, vmalloc_bytes = \<lambda>i. 170\<rparr>"
  have "region_fresh ?v \<lparr>regions = [], vareas = []\<rparr>" by (simp add: region_fresh_def)
  from region_alloc_free [OF this] show ?thesis by simp
qed

text \<open>
  The reference count protects the region: releasing one of several references only decrements
  the count and leaves the memory behind it alone; the release of the last one frees the
  descriptor, and a release after that is a use after free.
\<close>

lemma region_refcount_protects:
  assumes "map_of (regions s) p = Some r" and "p \<noteq> NULL"
    and "map_of (vareas s) (kernel_vaddr r) \<noteq> None" and "kernel_vaddr r \<noteq> NULL"
  shows "if region_refcount r = 1
    then \<exists>t. kcr_free_region p s = Inr t \<and> map_of (regions t) p = None
      \<and> map_of (vareas t) (kernel_vaddr r) = None \<and> kcr_free_region p t = Inl UseAfterFree
    else kcr_free_region p s =
      Inr (s\<lparr>regions := AList.update p (r\<lparr>region_refcount := region_refcount r - 1\<rparr>) (regions s)\<rparr>)"
  using assms
  by (auto simp: kcr_free_region_def vfree_def kfree_region_def Let_def update_conv' delete_conv')

end
