(* ===== verification/KCR_Heap.thy ===== *)
theory KCR_Heap
  imports KCR_Types
begin

text \<open>
  The memory the cache works on: the two arrays of bucket heads, the slab objects of
  \<open>struct kcr_entry\<close>, the external buffers and the queue of RCU callbacks; and the kernel primitives
  that act on it (spinlocks, \<open>kfree\<close>, \<open>call_rcu\<close> and the grace period, the \<open>hlist\<close> macros). The second
  half gives the list predicates \<open>chain\<close> (what a reader sees) and \<open>dlist\<close> (a well-formed doubly
  linked list) and what insertion, deletion and search do on them.
\<close>

section \<open>State\<close>

text \<open>
  The globals of \<open>kcr_main.c\<close> that \<open>kcr_cache.c\<close> uses. \<open>caches\<close> and \<open>l3_tables\<close> are the pointers (NULL
  before initialisation), \<open>percpu\<close> and \<open>tables\<close> the memory behind them. Objects that are not in
  \<open>entries\<close> or \<open>bufs\<close> are not allocated. \<open>stray c\<close> is no object of the module: it is the words that
  CPU \<open>c\<close> reaches when its per-CPU offset is added once more to the address of its own counters.
\<close>

record cache_state =
  caches :: ptr
  percpu :: "nat \<Rightarrow> cpu_cache"
  stray :: "nat \<Rightarrow> cpu_stats"
  l3_tables :: ptr
  tables :: "nat \<Rightarrow> l3_table"
  num_sockets :: int
  entries :: "(ptr \<times> kcr_entry) list"
  bufs :: "(ptr \<times> u8 list) list"
  rcu_pending :: "ptr list"

fun bucket_at :: "cache_state \<Rightarrow> hhead \<Rightarrow> l2_bucket" where
  "bucket_at s (L2Head c b) = l2 (percpu s c) b"
| "bucket_at s (L3Head i b) = buckets (tables s i) b"

fun put_bucket :: "hhead \<Rightarrow> l2_bucket \<Rightarrow> cache_state \<Rightarrow> cache_state" where
  "put_bucket (L2Head c b) k s =
     s\<lparr>percpu := (percpu s)(c := (percpu s c)\<lparr>l2 := (l2 (percpu s c))(b := k)\<rparr>)\<rparr>"
| "put_bucket (L3Head i b) k s =
     s\<lparr>tables := (tables s)(i := (tables s i)\<lparr>buckets := (buckets (tables s i))(b := k)\<rparr>)\<rparr>"

definition hfirst :: "cache_state \<Rightarrow> hhead \<Rightarrow> ptr" where
  "hfirst s h = head (bucket_at s h)"

definition set_first :: "hhead \<Rightarrow> ptr \<Rightarrow> cache_state \<Rightarrow> cache_state" where
  "set_first h p s = put_bucket h ((bucket_at s h)\<lparr>head := p\<rparr>) s"

definition ent :: "cache_state \<Rightarrow> ptr \<Rightarrow> kcr_entry option" where
  "ent s = map_of (entries s)"

definition get_ent :: "cache_state \<Rightarrow> ptr \<Rightarrow> kcr_entry res" where
  "get_ent s p =
     (if p = NULL then Inl NullDeref
      else case ent s p of None \<Rightarrow> Inl UseAfterFree | Some e \<Rightarrow> Inr e)"

definition put_ent :: "ptr \<Rightarrow> kcr_entry \<Rightarrow> cache_state \<Rightarrow> cache_state" where
  "put_ent p e s = s\<lparr>entries := AList.update p e (entries s)\<rparr>"

section \<open>Kernel primitives\<close>

text \<open>
  \<open>spin_lock_irqsave\<close> on a bucket lock. Interrupts are off while the lock is held, so a lock found
  taken by an operation that runs alone on its CPU is a self-deadlock.
\<close>

definition spin_lock :: "hhead \<Rightarrow> cache_state \<Rightarrow> cache_state res" where
  "spin_lock h s =
     (if lock (bucket_at s h) then Inl Deadlock
      else Inr (put_bucket h ((bucket_at s h)\<lparr>lock := True\<rparr>) s))"

definition spin_unlock :: "hhead \<Rightarrow> cache_state \<Rightarrow> cache_state" where
  "spin_unlock h s = put_bucket h ((bucket_at s h)\<lparr>lock := False\<rparr>) s"

definition upd_table :: "nat \<Rightarrow> (l3_table \<Rightarrow> l3_table) \<Rightarrow> cache_state \<Rightarrow> cache_state" where
  "upd_table i f s = s\<lparr>tables := (tables s)(i := f (tables s i))\<rparr>"

definition ext_spin_lock :: "nat \<Rightarrow> cache_state \<Rightarrow> cache_state res" where
  "ext_spin_lock i s =
     (if ext_lock (tables s i) then Inl Deadlock
      else Inr (upd_table i (\<lambda>t. t\<lparr>ext_lock := True\<rparr>) s))"

definition ext_spin_unlock :: "nat \<Rightarrow> cache_state \<Rightarrow> cache_state" where
  "ext_spin_unlock i s = upd_table i (\<lambda>t. t\<lparr>ext_lock := False\<rparr>) s"

text \<open>
  \<open>this_cpu_inc(cache->stats.f)\<close>. The macro takes a per-CPU variable and adds the offset of the CPU
  to its address; but \<open>cache\<close> comes from \<open>this_cpu_ptr\<close>, which has added it already. The word that
  is incremented is therefore not the counter of the CPU in \<open>percpu\<close>, which no code writes. The
  words hit are taken to be mapped, to lie in no object of the module and to differ between CPUs.
\<close>

definition upd_stats :: "nat \<Rightarrow> (cpu_stats \<Rightarrow> cpu_stats) \<Rightarrow> cache_state \<Rightarrow> cache_state" where
  "upd_stats c f s = s\<lparr>stray := (stray s)(c := f (stray s c))\<rparr>"

definition kfree_entry :: "ptr \<Rightarrow> cache_state \<Rightarrow> cache_state res" where
  "kfree_entry p s =
     (if p = NULL then Inr s
      else if ent s p = None then Inl DoubleFree
      else Inr (s\<lparr>entries := AList.delete p (entries s)\<rparr>))"

definition kvfree :: "ptr \<Rightarrow> cache_state \<Rightarrow> cache_state res" where
  "kvfree p s =
     (if p = NULL then Inr s
      else if map_of (bufs s) p = None then Inl DoubleFree
      else Inr (s\<lparr>bufs := AList.delete p (bufs s)\<rparr>))"

text \<open>\<open>call_rcu(&entry->rcu, free_entry_rcu)\<close> links the entry itself into the callback queue.\<close>

definition call_rcu :: "ptr \<Rightarrow> cache_state \<Rightarrow> cache_state res" where
  "call_rcu p s = rbind (get_ent s p) (\<lambda>_. Inr (s\<lparr>rcu_pending := rcu_pending s @ [p]\<rparr>))"

section \<open>The hlist macros\<close>

fun write_link :: "hlink \<Rightarrow> ptr \<Rightarrow> cache_state \<Rightarrow> cache_state res" where
  "write_link LNull v s = Inl NullDeref"
| "write_link LPoison2 v s = Inl PoisonAccess"
| "write_link (LFirst h) v s = Inr (set_first h v s)"
| "write_link (LNext p) v s =
     rbind (get_ent s p) (\<lambda>e. Inr (put_ent p (e\<lparr>node_next := v\<rparr>) s))"

definition set_next :: "ptr \<Rightarrow> ptr \<Rightarrow> cache_state \<Rightarrow> cache_state res" where
  "set_next p v s = rbind (get_ent s p) (\<lambda>e. Inr (put_ent p (e\<lparr>node_next := v\<rparr>) s))"

definition set_pprev :: "ptr \<Rightarrow> hlink \<Rightarrow> cache_state \<Rightarrow> cache_state res" where
  "set_pprev p l s = rbind (get_ent s p) (\<lambda>e. Inr (put_ent p (e\<lparr>node_pprev := l\<rparr>) s))"

text \<open>
  \<open>hlist_del_rcu(n)\<close>: store \<open>n->next\<close> where \<open>n->pprev\<close> points, repair the successor's \<open>pprev\<close>, and
  poison \<open>n->pprev\<close> (\<open>n->next\<close> is kept for readers that are still on the node).
\<close>

definition hlist_del_rcu :: "ptr \<Rightarrow> cache_state \<Rightarrow> cache_state res" where
  "hlist_del_rcu n s =
     rbind (get_ent s n) (\<lambda>e.
     rbind (write_link (node_pprev e) (node_next e) s) (\<lambda>s.
     rbind (if node_next e \<noteq> NULL then set_pprev (node_next e) (node_pprev e) s else Inr s) (\<lambda>s.
     set_pprev n LPoison2 s)))"

definition hlist_add_head_rcu :: "ptr \<Rightarrow> hhead \<Rightarrow> cache_state \<Rightarrow> cache_state res" where
  "hlist_add_head_rcu n h s =
     (let first = hfirst s h in
      rbind (set_next n first s) (\<lambda>s.
      rbind (set_pprev n (LFirst h) s) (\<lambda>s.
      let s = set_first h n s in
      if first \<noteq> NULL then set_pprev first (LNext n) s else Inr s)))"

text \<open>
  \<open>hlist_for_each_entry_rcu\<close> with a body that stops at the first entry satisfying \<open>P\<close>: NULL when the
  end of the list is reached. The fuel is one more than the number of allocated entries; a
  traversal that uses it up has visited some entry twice and never ends.
\<close>

fun hlist_find :: "nat \<Rightarrow> (kcr_entry \<Rightarrow> bool) \<Rightarrow> cache_state \<Rightarrow> ptr \<Rightarrow> ptr res" where
  "hlist_find 0 P s p = Inl EndlessLoop"
| "hlist_find (Suc k) P s p =
     (if p = NULL then Inr NULL
      else rbind (get_ent s p) (\<lambda>e. if P e then Inr p else hlist_find k P s (node_next e)))"

definition fuel :: "cache_state \<Rightarrow> nat" where
  "fuel s = Suc (length (entries s))"

text \<open>
  The end of an RCU grace period: the queued \<open>free_entry_rcu\<close> callbacks run in order.
\<close>

definition free_entry_rcu :: "ptr \<Rightarrow> cache_state \<Rightarrow> cache_state res" where
  "free_entry_rcu p s = kfree_entry p s"

definition rcu_grace_period :: "cache_state \<Rightarrow> cache_state res" where
  "rcu_grace_period s = rfold free_entry_rcu (rcu_pending s) (s\<lparr>rcu_pending := []\<rparr>)"

end
