(* ===== verification/KCR_Debugfs.thy ===== *)
theory KCR_Debugfs
  imports KCR_Heap
begin

text \<open>
  \<open>drivers/kcr/kcr_debugfs.c\<close>: the two text files and their registration. The output of \<open>seq_printf\<close>
  is modelled as the list of the lines written, every format directive written out. The debugfs
  core is not under \<open>src/\<close>: its return value is an argument, and the calls made to it are logged.
\<close>

section \<open>Number formatting\<close>

fun dec :: "nat \<Rightarrow> string" where
  "dec n = (if n < 10 then [char_of (48 + n)] else dec (n div 10) @ [char_of (48 + n mod 10)])"

declare dec.simps [simp del]

definition dec_int :: "int \<Rightarrow> string" where
  "dec_int i = (if i < 0 then ''-'' @ dec (nat (- i)) else dec (nat i))"

section \<open>Reading the file back\<close>

text \<open>
  A reader of the file, written without reference to what prints it: it looks for a label, skips
  blanks, and takes the digits that follow.
\<close>

definition undec :: "string \<Rightarrow> nat" where
  "undec cs = foldl (\<lambda>n c. 10 * n + (of_char c - 48)) 0 cs"

definition digit :: "char \<Rightarrow> bool" where
  "digit c \<longleftrightarrow> 48 \<le> (of_char c :: nat) \<and> (of_char c :: nat) < 58"

definition number :: "string \<Rightarrow> nat option" where
  "number cs = (let ds = takeWhile digit (dropWhile (\<lambda>c. c = CHR '' '') cs) in
     if ds = [] then None else Some (undec ds))"

definition signed_number :: "string \<Rightarrow> int option" where
  "signed_number cs = (case dropWhile (\<lambda>c. c = CHR '' '') cs of
     CHR ''-'' # ds \<Rightarrow> map_option (\<lambda>n. - int n) (number ds)
   | ds \<Rightarrow> map_option int (number ds))"

text \<open>What follows a label at the start of a line, or its first occurrence in a line.\<close>

fun strip :: "string \<Rightarrow> string \<Rightarrow> string option" where
  "strip [] cs = Some cs"
| "strip (l # ls) [] = None"
| "strip (l # ls) (c # cs) = (if l = c then strip ls cs else None)"

fun after :: "string \<Rightarrow> string \<Rightarrow> string option" where
  "after l [] = strip l []"
| "after l (c # cs) = (case strip l (c # cs) of Some r \<Rightarrow> Some r | None \<Rightarrow> after l cs)"

fun field :: "string \<Rightarrow> string list \<Rightarrow> string option" where
  "field l [] = None"
| "field l (x # xs) = (case strip l x of Some r \<Rightarrow> Some r | None \<Rightarrow> field l xs)"

text \<open>The lines of the CPUs: the numbers of the CPUs, and the rest of the line of one of them.\<close>

definition cpu_rows :: "string list \<Rightarrow> (nat \<times> string) list" where
  "cpu_rows xs = List.map_filter (\<lambda>x. Option.bind (strip ''  CPU '' x) (\<lambda>r. map_option (\<lambda>c. (c, r)) (number r))) xs"

definition read_total :: "string \<Rightarrow> string list \<Rightarrow> nat option" where
  "read_total l xs = Option.bind (field l xs) number"

definition read_cpu :: "string \<Rightarrow> nat \<Rightarrow> string list \<Rightarrow> nat option" where
  "read_cpu l c xs = Option.bind (map_of (cpu_rows xs) c) (\<lambda>r. Option.bind (after l r) number)"

lemma of_char_digit: "d < 10 \<Longrightarrow> of_char (char_of (48 + d) :: char) = (48 + d :: nat)"
  by simp

lemma undec_dec [simp]: "undec (dec n) = n"
proof (induction n rule: dec.induct)
  case (1 n)
  show ?case
  proof (cases "n < 10")
    case True
    then show ?thesis by (subst dec.simps) (simp add: undec_def of_char_digit)
  next
    case False
    then have ih: "foldl (\<lambda>n c. 10 * n + (of_char c - 48)) 0 (dec (n div 10)) = n div 10"
      using 1 by (simp add: undec_def)
    have "n mod 10 < 10" by simp
    with False ih show ?thesis
      by (subst dec.simps) (simp add: undec_def of_char_digit del: of_char_of char_of_eq_iff)
  qed
qed

lemma dec_digits: "c \<in> set (dec n) \<Longrightarrow> digit c"
proof (induction n rule: dec.induct)
  case (1 n)
  have "digit (char_of (48 + n mod 10))" by (simp add: digit_def)
  with 1 show ?case by (subst (asm) (2) dec.simps) (auto simp: digit_def split: if_splits)
qed

lemma dec_nonempty [simp]: "dec n \<noteq> []"
  by (subst dec.simps) simp

lemma takeWhile_dec: "takeWhile digit (dec n @ cs) = dec n @ takeWhile digit cs"
  by (rule takeWhile_append2) (simp add: dec_digits)

lemma dropWhile_dec: "dropWhile (\<lambda>c. c = CHR '' '') (dec n @ cs) = dec n @ cs"
proof -
  obtain d ds where d: "dec n = d # ds" by (cases "dec n") simp_all
  have "digit d" using dec_digits [of d n] d by simp
  then have "d \<noteq> CHR '' ''" by (auto simp: digit_def)
  with d show ?thesis by simp
qed

lemma number_dec:
  "number (dec n @ c # cs) = Some n" if "\<not> digit c" for c
  using that by (simp add: number_def dropWhile_dec takeWhile_dec Let_def)

lemma number_dec_only: "number (dec n) = Some n"
proof -
  have "takeWhile digit (dec n) = dec n" using takeWhile_dec [of n "[]"] by (simp only: append_Nil2 takeWhile.simps)
  moreover have "dropWhile (\<lambda>c. c = CHR '' '') (dec n) = dec n"
    using dropWhile_dec [of n "[]"] by (simp only: append_Nil2)
  ultimately show ?thesis unfolding number_def Let_def by (simp only: dec_nonempty undec_dec if_False)
qed

lemma number_blank: "number (CHR '' '' # cs) = number cs"
  by (simp add: number_def)

lemma signed_number_dec: "signed_number (CHR '' '' # dec_int i) = Some i"
proof (cases "i < 0")
  case True
  then show ?thesis by (simp add: signed_number_def dec_int_def number_dec_only)
next
  case False
  obtain d ds where d: "dec (nat i) = d # ds" by (cases "dec (nat i)") simp_all
  have "digit d" using dec_digits [of d "nat i"] d by simp
  then have "d \<noteq> CHR ''-''" "d \<noteq> CHR '' ''" by (auto simp: digit_def)
  then have "signed_number (CHR '' '' # dec_int i) = map_option int (number (dec (nat i)))"
    using False by (simp add: signed_number_def dec_int_def d split: char.splits bool.splits)
  with False show ?thesis by (simp add: number_dec_only)
qed

text \<open>The digits of a number hide no label.\<close>

lemma after_dec: "\<not> digit l \<Longrightarrow> after (l # ls) (dec n @ cs) = after (l # ls) cs"
proof -
  assume l: "\<not> digit l"
  have "after (l # ls) (ds @ cs) = after (l # ls) cs" if "\<And>d. d \<in> set ds \<Longrightarrow> digit d" for ds
    using that l by (induction ds) auto
  then show ?thesis using dec_digits by blast
qed

lemma strip_append [simp]: "strip l (l @ cs) = Some cs"
  by (induction l) simp_all

section \<open>Statistics\<close>

text \<open>The accumulation loop over the possible CPUs, in 64 bits.\<close>

definition total_of :: "(cpu_stats \<Rightarrow> u64) \<Rightarrow> nat list \<Rightarrow> cache_state \<Rightarrow> u64" where
  "total_of f cpus s = foldl (\<lambda>t c. t + f (stats (percpu s c))) 0 cpus"

text \<open>Lines 75 to 77: all in 64 bits, then truncated to 32.\<close>

definition hit_rate :: "u64 \<Rightarrow> u64 \<Rightarrow> u64 \<Rightarrow> u32 option" where
  "hit_rate l2h l3h miss =
     (if 0 < l2h + l3h + miss
      then let total = l2h + l3h + miss in Some (ucast ((l2h + l3h) * 100 div total))
      else None)"

definition cpu_line :: "nat \<Rightarrow> cpu_stats \<Rightarrow> string" where
  "cpu_line c st = ''  CPU '' @ dec c @ '': L2='' @ dec (unat (l2_hits st))
     @ '' L3='' @ dec (unat (l3_hits st)) @ '' Miss='' @ dec (unat (misses st))
     @ '' Inv='' @ dec (unat (invalidations st))"

text \<open>
  \<open>show_stats\<close>: its return value and the lines. \<open>per_cpu_ptr\<close> of a NULL \<open>caches\<close> is not a valid
  pointer.
\<close>

definition show_stats ::
    "bool \<Rightarrow> ptr \<Rightarrow> nat list \<Rightarrow> cache_state \<Rightarrow> (int \<times> string list) res" where
  "show_stats kcr_enable kcr_region cpus s =
     (if cpus \<noteq> [] \<and> caches s = NULL then Inl NullDeref
      else
        let total_l2_hits = total_of l2_hits cpus s;
            total_l3_hits = total_of l3_hits cpus s;
            total_misses = total_of misses cpus s;
            total_invalidations = total_of invalidations cpus s;
            total_cycles_saved = total_of cycles_saved cpus s
        in Inr (0,
          [''KCR Statistics'', ''=============='', '''',
           ''Enabled: '' @ (if kcr_enable then ''yes'' else ''no''),
           ''Shared Region: '' @ (if kcr_region \<noteq> NULL then ''allocated'' else ''not allocated''),
           ''Sockets: '' @ dec_int (num_sockets s), '''',
           ''Global Statistics:'',
           ''  L2 Hits:          '' @ dec (unat total_l2_hits),
           ''  L3 Hits:          '' @ dec (unat total_l3_hits),
           ''  Misses:           '' @ dec (unat total_misses),
           ''  Invalidations:    '' @ dec (unat total_invalidations),
           ''  Cycles Saved:     '' @ dec (unat total_cycles_saved)]
          @ (case hit_rate total_l2_hits total_l3_hits total_misses of
               None \<Rightarrow> [] | Some r \<Rightarrow> [''  Hit Rate:         '' @ dec (unat r) @ ''%''])
          @ ['''', ''Per-CPU Statistics:'']
          @ map (\<lambda>c. cpu_line c (stats (percpu s c))) cpus))"

definition show_config :: "int \<times> string list" where
  "show_config = (0,
     [''KCR Configuration'', ''================='', '''', ''CONFIG_KCR: y'',
      ''Region Size: '' @ dec (KCR_REGION_SIZE div (1024 * 1024)) @ '' MB'',
      ''L2 Entries: '' @ dec KCR_L2_ENTRIES @ '' (per-CPU)'',
      ''L3 Entries: '' @ dec KCR_L3_ENTRIES @ '' (per-socket)'',
      ''Max Result Size: '' @ dec KCR_RESULT_SIZE_MAX @ '' bytes''])"

section \<open>Registration\<close>

text \<open>
  \<open>kcr_debugfs_root\<close> holds a \<open>dentry\<close> pointer or an \<open>ERR_PTR\<close>. A file's operations are named by its
  show function.
\<close>

datatype show_fn = Show_stats | Show_config

datatype debugfs_call =
    Create_dir string
  | Create_file string nat "int + ptr" show_fn
  | Remove_recursive "int + ptr"

record debugfs_state =
  kcr_debugfs_root :: "int + ptr"
  calls :: "debugfs_call list"

text \<open>\<open>stats_open\<close> and \<open>config_open\<close> hand the show function to \<open>single_open\<close>, here \<open>open_single\<close>.\<close>

definition stats_open :: "(show_fn \<Rightarrow> int) \<Rightarrow> int" where
  "stats_open open_single = open_single Show_stats"

definition config_open :: "(show_fn \<Rightarrow> int) \<Rightarrow> int" where
  "config_open open_single = open_single Show_config"

definition kcr_debugfs_init :: "int + ptr \<Rightarrow> debugfs_state \<Rightarrow> int \<times> debugfs_state" where
  "kcr_debugfs_init dir d =
     (let d = d\<lparr>kcr_debugfs_root := dir, calls := calls d @ [Create_dir ''kcr'']\<rparr> in
      case dir of
        Inl err \<Rightarrow> (err, d)
      | Inr _ \<Rightarrow> (0, d\<lparr>calls := calls d @ [Create_file ''stats'' 292 dir Show_stats,
                                        Create_file ''config'' 292 dir Show_config]\<rparr>))"

definition kcr_debugfs_exit :: "debugfs_state \<Rightarrow> debugfs_state" where
  "kcr_debugfs_exit d =
     d\<lparr>calls := calls d @ [Remove_recursive (kcr_debugfs_root d)], kcr_debugfs_root := Inr NULL\<rparr>"

section \<open>Properties\<close>

lemma unat_plus_nowrap:
  "unat (a :: 64 word) + unat b < 2 ^ 64 \<Longrightarrow> unat (a + b) = unat a + unat b"
  by (simp add: unat_word_ariths)

definition counter_sum :: "(cpu_stats \<Rightarrow> u64) \<Rightarrow> nat list \<Rightarrow> cache_state \<Rightarrow> nat" where
  "counter_sum f cpus s = (\<Sum>c\<leftarrow>cpus. unat (f (stats (percpu s c)))) mod 2 ^ 64"

lemma total_of_sum: "unat (total_of f cpus s) = counter_sum f cpus s"
proof -
  have "unat (foldl (\<lambda>t c. t + f (stats (percpu s c))) a cpus)
      = (unat a + (\<Sum>c\<leftarrow>cpus. unat (f (stats (percpu s c))))) mod 2 ^ 64" for a
  proof (induction cpus arbitrary: a)
    case Nil
    have "unat a < 2 ^ 64" using unsigned_less [of a] by simp
    then show ?case by simp
  next
    case (Cons c cpus)
    show ?case unfolding foldl_Cons Cons.IH
      by (simp add: unat_word_ariths mod_simps add.assoc)
  qed
  from this [of 0] show ?thesis by (simp add: total_of_def counter_sum_def)
qed

lemma cpu_line_row:
  "Option.bind (strip ''  CPU '' (cpu_line c st)) (\<lambda>r. map_option (\<lambda>c. (c, r)) (number r))
    = Some (c, drop 6 (cpu_line c st))"
  by (simp add: cpu_line_def number_dec digit_def)

lemma cpu_line_numbers:
  "Option.bind (after ''L2='' (drop 6 (cpu_line c st))) number = Some (unat (l2_hits st))"
  "Option.bind (after ''L3='' (drop 6 (cpu_line c st))) number = Some (unat (l3_hits st))"
  "Option.bind (after ''Miss='' (drop 6 (cpu_line c st))) number = Some (unat (misses st))"
  "Option.bind (after ''Inv='' (drop 6 (cpu_line c st))) number = Some (unat (invalidations st))"
  by (simp_all add: cpu_line_def after_dec number_dec number_dec_only digit_def)

lemma cpu_rows_append: "cpu_rows (xs @ ys) = cpu_rows xs @ cpu_rows ys"
  by (simp add: cpu_rows_def List.map_filter_def)

lemma cpu_rows_lines:
  "cpu_rows (map (\<lambda>c. cpu_line c (f c)) cpus) = map (\<lambda>c. (c, drop 6 (cpu_line c (f c)))) cpus"
  by (induction cpus) (simp_all add: cpu_rows_def List.map_filter_def cpu_line_row)

lemma lookup_rows: "map_of (map (\<lambda>c. (c, g c)) cpus) c = (if c \<in> set cpus then Some (g c) else None)"
  by (induction cpus) auto

text \<open>The rate as natural numbers: all sums and the product are computed in 64 bits.\<close>

definition rate_shown :: "nat \<Rightarrow> nat \<Rightarrow> nat \<Rightarrow> nat option" where
  "rate_shown l2h l3h miss = (let hits = (l2h + l3h) mod 2 ^ 64; total = (hits + miss) mod 2 ^ 64 in
     if total = 0 then None else Some (hits * 100 mod 2 ^ 64 div total mod 2 ^ 32))"

lemma hit_rate_shown: "map_option unat (hit_rate a b c) = rate_shown (unat a) (unat b) (unat c)"
proof -
  have t: "unat (a + b + c) = (unat (a + b) + unat c) mod 2 ^ 64" and h: "unat (a + b) = (unat a + unat b) mod 2 ^ 64"
    and m: "unat ((a + b) * 100) = unat (a + b) * 100 mod 2 ^ 64"
    by (simp_all only: unat_word_ariths) simp_all
  have u: "unat (ucast x :: u32) = unat x mod 2 ^ 32" for x :: u64
    by (simp add: unsigned_ucast_eq take_bit_eq_mod)
  have r: "unat (ucast ((a + b) * 100 div (a + b + c)) :: u32)
      = unat (a + b) * 100 mod 2 ^ 64 div unat (a + b + c) mod 2 ^ 32"
    by (simp only: u unat_div_distrib m)
  have "0 < a + b + c \<longleftrightarrow> unat (a + b + c) \<noteq> 0" by (simp add: word_gt_0 unat_gt_0)
  then show ?thesis
    unfolding hit_rate_def rate_shown_def Let_def h [symmetric] t [symmetric] by (simp only: r option.map split: if_split) simp
qed

text \<open>The lines before the rate.\<close>

lemma show_stats_lines:
  assumes "caches s \<noteq> NULL"
  shows "\<exists>ls. show_stats en reg cpus s = Inr (0, ls)
    \<and> field ''Enabled:'' ls = Some (if en then '' yes'' else '' no'')
    \<and> field ''Shared Region:'' ls = Some (if reg \<noteq> NULL then '' allocated'' else '' not allocated'')
    \<and> Option.bind (field ''Sockets:'' ls) signed_number = Some (num_sockets s)
    \<and> read_total ''  L2 Hits:'' ls = Some (unat (total_of l2_hits cpus s))
    \<and> read_total ''  L3 Hits:'' ls = Some (unat (total_of l3_hits cpus s))
    \<and> read_total ''  Misses:'' ls = Some (unat (total_of misses cpus s))
    \<and> read_total ''  Invalidations:'' ls = Some (unat (total_of invalidations cpus s))
    \<and> read_total ''  Cycles Saved:'' ls = Some (unat (total_of cycles_saved cpus s))"
  using assms
  by (simp add: show_stats_def Let_def signed_number_dec read_total_def number_blank number_dec_only)

text \<open>Which lines the labels find.\<close>

lemma field_append: "field l (xs @ ys) = (case field l xs of None \<Rightarrow> field l ys | Some r \<Rightarrow> Some r)"
  by (induction xs) (auto split: option.splits)

lemma field_cpu_lines: "field ''  Hit Rate:'' (map (\<lambda>c. cpu_line c (f c)) cpus) = None"
  by (induction cpus) (simp_all add: cpu_line_def)

lemma show_stats_readable:
  assumes "caches s \<noteq> NULL"
  shows "\<exists>ls. show_stats en reg cpus s = Inr (0, ls)
    \<and> field ''Enabled:'' ls = Some (if en then '' yes'' else '' no'')
    \<and> field ''Shared Region:'' ls = Some (if reg \<noteq> NULL then '' allocated'' else '' not allocated'')
    \<and> Option.bind (field ''Sockets:'' ls) signed_number = Some (num_sockets s)
    \<and> read_total ''  L2 Hits:'' ls = Some (counter_sum l2_hits cpus s)
    \<and> read_total ''  L3 Hits:'' ls = Some (counter_sum l3_hits cpus s)
    \<and> read_total ''  Misses:'' ls = Some (counter_sum misses cpus s)
    \<and> read_total ''  Invalidations:'' ls = Some (counter_sum invalidations cpus s)
    \<and> read_total ''  Cycles Saved:'' ls = Some (counter_sum cycles_saved cpus s)
    \<and> read_total ''  Hit Rate:'' ls = rate_shown (counter_sum l2_hits cpus s) (counter_sum l3_hits cpus s) (counter_sum misses cpus s)
    \<and> map fst (cpu_rows ls) = cpus
    \<and> (\<forall>c\<in>set cpus. read_cpu ''L2='' c ls = Some (unat (l2_hits (stats (percpu s c))))
        \<and> read_cpu ''L3='' c ls = Some (unat (l3_hits (stats (percpu s c))))
        \<and> read_cpu ''Miss='' c ls = Some (unat (misses (stats (percpu s c))))
        \<and> read_cpu ''Inv='' c ls = Some (unat (invalidations (stats (percpu s c)))))"
proof -
  let ?cpus = "map (\<lambda>c. cpu_line c (stats (percpu s c))) cpus"
  let ?rate = "hit_rate (total_of l2_hits cpus s) (total_of l3_hits cpus s) (total_of misses cpus s)"
  from show_stats_lines [OF assms, of en reg cpus] obtain ls where
    ls: "show_stats en reg cpus s = Inr (0, ls)" and front:
    "field ''Enabled:'' ls = Some (if en then '' yes'' else '' no'')"
    "field ''Shared Region:'' ls = Some (if reg \<noteq> NULL then '' allocated'' else '' not allocated'')"
    "Option.bind (field ''Sockets:'' ls) signed_number = Some (num_sockets s)"
    "read_total ''  L2 Hits:'' ls = Some (counter_sum l2_hits cpus s)"
    "read_total ''  L3 Hits:'' ls = Some (counter_sum l3_hits cpus s)"
    "read_total ''  Misses:'' ls = Some (counter_sum misses cpus s)"
    "read_total ''  Invalidations:'' ls = Some (counter_sum invalidations cpus s)"
    "read_total ''  Cycles Saved:'' ls = Some (counter_sum cycles_saved cpus s)"
    unfolding total_of_sum by blast
  have rate: "read_total ''  Hit Rate:'' ls = map_option unat ?rate"
    using ls assms by (auto simp: show_stats_def Let_def read_total_def field_cpu_lines number_blank
        number_dec digit_def split: option.splits)
  have rows: "cpu_rows ls = map (\<lambda>c. (c, drop 6 (cpu_line c (stats (percpu s c))))) cpus"
    using ls assms cpu_rows_lines [of "\<lambda>c. stats (percpu s c)" cpus]
    by (auto simp: show_stats_def Let_def cpu_rows_def List.map_filter_def split: option.splits)
  have "rate_shown (counter_sum l2_hits cpus s) (counter_sum l3_hits cpus s) (counter_sum misses cpus s) = map_option unat ?rate"
    by (simp only: hit_rate_shown total_of_sum)
  with ls front rate show ?thesis
    by (simp add: rows comp_def read_cpu_def lookup_rows cpu_line_numbers)
qed

text \<open>
  C39. The statistics file can be read back in full: with the per-CPU area allocated \<open>show_stats\<close>
  returns 0, and a reader finds in the lines whether the module is enabled and the region allocated,
  the number of sockets, for each of the five counters the sum over the CPUs modulo \<open>2^64\<close>, the hit rate
  of these sums (no rate if there was no lookup), and exactly one line for each CPU, in order, with the
  four counters of that CPU.
\<close>

theorem show_stats_reports_counters:
  assumes "caches s \<noteq> NULL"
  shows "\<exists>ls. show_stats en reg cpus s = Inr (0, ls)
    \<and> field ''Enabled:'' ls = Some (if en then '' yes'' else '' no'')
    \<and> field ''Shared Region:'' ls = Some (if reg \<noteq> NULL then '' allocated'' else '' not allocated'')
    \<and> Option.bind (field ''Sockets:'' ls) signed_number = Some (num_sockets s)
    \<and> read_total ''  L2 Hits:'' ls = Some (counter_sum l2_hits cpus s)
    \<and> read_total ''  L3 Hits:'' ls = Some (counter_sum l3_hits cpus s)
    \<and> read_total ''  Misses:'' ls = Some (counter_sum misses cpus s)
    \<and> read_total ''  Invalidations:'' ls = Some (counter_sum invalidations cpus s)
    \<and> read_total ''  Cycles Saved:'' ls = Some (counter_sum cycles_saved cpus s)
    \<and> read_total ''  Hit Rate:'' ls = rate_shown (counter_sum l2_hits cpus s) (counter_sum l3_hits cpus s) (counter_sum misses cpus s)
    \<and> map fst (cpu_rows ls) = cpus
    \<and> (\<forall>c\<in>set cpus. read_cpu ''L2='' c ls = Some (unat (l2_hits (stats (percpu s c))))
        \<and> read_cpu ''L3='' c ls = Some (unat (l3_hits (stats (percpu s c))))
        \<and> read_cpu ''Miss='' c ls = Some (unat (misses (stats (percpu s c))))
        \<and> read_cpu ''Inv='' c ls = Some (unat (invalidations (stats (percpu s c)))))"
  by (rule show_stats_readable [OF assms])

text \<open>A file of two CPUs: 41 hits of 55 lookups, 74 percent.\<close>

definition demo_table :: l3_table where
  "demo_table = \<lparr>buckets = (\<lambda>_. \<lparr>head = NULL, lock = False\<rparr>), ext_slots = (\<lambda>_. NULL),
     ext_slot_size = (\<lambda>_. 0), ext_lock = False, socket_id = 0\<rparr>"

definition demo_counters :: cache_state where
  "demo_counters = \<lparr>caches = 16,
     percpu = (\<lambda>c. \<lparr>l2 = (\<lambda>_. \<lparr>head = NULL, lock = False\<rparr>),
       stats = \<lparr>l2_hits = 20 + of_nat c, l3_hits = 0, misses = 7, invalidations = 3, cycles_saved = 0\<rparr>\<rparr>),
     stray = (\<lambda>_. \<lparr>l2_hits = 0, l3_hits = 0, misses = 0, invalidations = 0, cycles_saved = 0\<rparr>),
     l3_tables = 32, tables = (\<lambda>_. demo_table), num_sockets = 1, entries = [], bufs = [],
     rcu_pending = []\<rparr>"

theorem show_stats_reports_counters_witness:
  "\<exists>ls. show_stats True 64 [0, 1] demo_counters = Inr (0, ls)
    \<and> field ''Enabled:'' ls = Some '' yes'' \<and> read_total ''  L2 Hits:'' ls = Some 41
    \<and> read_total ''  Invalidations:'' ls = Some 6 \<and> read_total ''  Hit Rate:'' ls = Some 74
    \<and> read_cpu ''L2='' 1 ls = Some 21 \<and> read_cpu ''Inv='' 1 ls = Some 3"
proof -
  have c: "caches demo_counters \<noteq> NULL" by (simp add: demo_counters_def)
  show ?thesis
    using show_stats_reports_counters [OF c, of True 64 "[0, 1]"]
    by (auto simp: demo_counters_def rate_shown_def counter_sum_def)
qed

lemma percentage_le: "a \<le> t \<Longrightarrow> a * 100 div t \<le> (100 :: nat)"
  using div_less_iff_less_mult [of t "a * 100" 101] by (cases "t = 0") auto

text \<open>
  The hit rate: as long as a hundred times the number of lookups fits in 64 bits, the rate
  shown is the floor of the percentage, at most 100, and it is shown unless no lookup was made.
\<close>

lemma hit_rate_percentage:
  assumes "(unat l2h + unat l3h + unat miss) * 100 < 2 ^ 64"
  shows "hit_rate l2h l3h miss =
    (if unat l2h + unat l3h + unat miss = 0 then None
     else Some (word_of_nat ((unat l2h + unat l3h) * 100 div (unat l2h + unat l3h + unat miss))))
    \<and> (\<forall>r. hit_rate l2h l3h miss = Some r \<longrightarrow> r \<le> 100)"
proof -
  let ?h = "unat l2h + unat l3h" and ?t = "unat l2h + unat l3h + unat miss"
  have h: "unat (l2h + l3h) = ?h" using assms by (intro unat_plus_nowrap) simp
  have t: "unat (l2h + l3h + miss) = ?t"
    using assms unat_plus_nowrap [of "l2h + l3h" miss] h by simp
  have m: "unat ((l2h + l3h) * 100) = ?h * 100"
    using assms h by (simp add: unat_word_ariths)
  have pos: "0 < l2h + l3h + miss \<longleftrightarrow> ?t \<noteq> 0"
    using t by (metis unat_gt_0 word_gt_0 neq0_conv)
  have "unat ((l2h + l3h) * 100 div (l2h + l3h + miss)) = ?h * 100 div ?t"
    by (simp only: unat_div_distrib m t)
  then have r: "ucast ((l2h + l3h) * 100 div (l2h + l3h + miss)) = (word_of_nat (?h * 100 div ?t) :: u32)"
    by (metis of_nat_unat)
  have le: "?h * 100 div ?t \<le> 100" by (rule percentage_le) simp
  have b: "word_of_nat (?h * 100 div ?t) \<le> (100 :: u32)"
  proof -
    have "take_bit 32 (?h * 100 div ?t) = ?h * 100 div ?t"
      by (rule take_bit_nat_eq_self) (use le in simp)
    then show ?thesis using le by (simp add: word_le_nat_alt unsigned_of_nat)
  qed
  show ?thesis using pos r b by (auto simp: hit_rate_def Let_def)
qed

text \<open>
  The bound on the number of lookups is needed: the product wraps before the division, so that
  with \<open>2^62\<close> hits and no miss the rate shown is 0 percent.
\<close>

lemma hit_rate_wraps: "hit_rate (2 ^ 62) 0 0 = Some 0"
  by code_simp

end
