(* ===== verification/Hlist.thy ===== *)
theory Hlist
  imports KCR_Heap
begin

text \<open>
  What the \<open>hlist\<close> macros do. \<open>chain\<close> is the list of nodes a reader visits from a pointer, \<open>dlist\<close>
  adds that every \<open>pprev\<close> points back at the cell that holds the node's address. Insertion at the
  head, deletion and search are specified on these predicates; \<open>links_only\<close> says that an
  operation changed nothing but list links.
\<close>

named_theorems frame_simps \<open>what the elementary state updates leave unchanged\<close>

section \<open>Reading after writing\<close>

lemma bucket_at_put [simp]:
  "bucket_at (put_bucket h k s) h' = (if h' = h then k else bucket_at s h')"
  by (cases h; cases h') auto

lemma put_bucket_frame [frame_simps]:
  "caches (put_bucket h k s) = caches s" "l3_tables (put_bucket h k s) = l3_tables s"
  "num_sockets (put_bucket h k s) = num_sockets s" "entries (put_bucket h k s) = entries s"
  "bufs (put_bucket h k s) = bufs s" "rcu_pending (put_bucket h k s) = rcu_pending s"
  "stats (percpu (put_bucket h k s) c) = stats (percpu s c)" "stray (put_bucket h k s) = stray s"
  "ext_slots (tables (put_bucket h k s) i) = ext_slots (tables s i)"
  "ext_slot_size (tables (put_bucket h k s) i) = ext_slot_size (tables s i)"
  "ext_lock (tables (put_bucket h k s) i) = ext_lock (tables s i)"
  "socket_id (tables (put_bucket h k s) i) = socket_id (tables s i)"
  by (cases h; simp)+

lemma set_first_frame [frame_simps]:
  "caches (set_first h p s) = caches s" "l3_tables (set_first h p s) = l3_tables s"
  "num_sockets (set_first h p s) = num_sockets s" "entries (set_first h p s) = entries s"
  "bufs (set_first h p s) = bufs s" "rcu_pending (set_first h p s) = rcu_pending s"
  "stats (percpu (set_first h p s) c) = stats (percpu s c)" "stray (set_first h p s) = stray s"
  "ext_slots (tables (set_first h p s) i) = ext_slots (tables s i)"
  "ext_slot_size (tables (set_first h p s) i) = ext_slot_size (tables s i)"
  "ext_lock (tables (set_first h p s) i) = ext_lock (tables s i)"
  "socket_id (tables (set_first h p s) i) = socket_id (tables s i)"
  "ent (set_first h p s) = ent s"
  by (simp_all add: set_first_def frame_simps ent_def)

lemma hfirst_set_first [simp]: "hfirst (set_first h p s) = (hfirst s)(h := p)"
  by (auto simp: hfirst_def set_first_def)

lemma lock_set_first [simp]: "lock (bucket_at (set_first h p s) h') = lock (bucket_at s h')"
  by (simp add: set_first_def)

lemma ent_put_ent [simp]: "ent (put_ent p e s) = (ent s)(p \<mapsto> e)"
  by (simp add: ent_def put_ent_def update_conv')

lemma put_ent_frame [frame_simps]:
  "caches (put_ent p e s) = caches s" "percpu (put_ent p e s) = percpu s"
  "l3_tables (put_ent p e s) = l3_tables s" "tables (put_ent p e s) = tables s"
  "num_sockets (put_ent p e s) = num_sockets s" "bufs (put_ent p e s) = bufs s"
  "rcu_pending (put_ent p e s) = rcu_pending s" "stray (put_ent p e s) = stray s"
  by (simp_all add: put_ent_def)

lemma bucket_at_put_ent [simp]: "bucket_at (put_ent p e s) h = bucket_at s h"
  by (cases h) (simp_all add: frame_simps)

lemma hfirst_put_ent [simp]: "hfirst (put_ent p e s) = hfirst s"
  by (simp add: hfirst_def fun_eq_iff)

lemma length_entries_put_ent:
  "ent s p \<noteq> None \<Longrightarrow> length (entries (put_ent p e s)) = length (entries s)"
  by (simp add: put_ent_def ent_def length_update_present map_of_eq_None_iff)

lemma get_ent_Inr [res_simps]: "get_ent s p = Inr e \<longleftrightarrow> p \<noteq> NULL \<and> ent s p = Some e"
  by (auto simp: get_ent_def split: option.splits)

lemma get_ent_Some [simp]: "p \<noteq> NULL \<Longrightarrow> ent s p = Some e \<Longrightarrow> get_ent s p = Inr e"
  by (simp add: get_ent_def)

section \<open>Operations that only change links\<close>

definition payload :: "kcr_entry \<Rightarrow> kcr_entry" where
  "payload e = e\<lparr>node_next := NULL, node_pprev := LNull\<rparr>"

definition links_only :: "cache_state \<Rightarrow> cache_state \<Rightarrow> bool" where
  "links_only s t \<longleftrightarrow>
     caches t = caches s \<and> l3_tables t = l3_tables s \<and> num_sockets t = num_sockets s
     \<and> bufs t = bufs s \<and> rcu_pending t = rcu_pending s
     \<and> stray t = stray s \<and> (\<forall>c. stats (percpu t c) = stats (percpu s c))
     \<and> (\<forall>i. ext_slots (tables t i) = ext_slots (tables s i)
            \<and> ext_slot_size (tables t i) = ext_slot_size (tables s i)
            \<and> ext_lock (tables t i) = ext_lock (tables s i)
            \<and> socket_id (tables t i) = socket_id (tables s i))
     \<and> (\<forall>h. lock (bucket_at t h) = lock (bucket_at s h))
     \<and> length (entries t) = length (entries s)
     \<and> (\<forall>p. map_option payload (ent t p) = map_option payload (ent s p))"

text \<open>The same, for operations that also count or queue entries for freeing.\<close>

definition cache_frame :: "cache_state \<Rightarrow> cache_state \<Rightarrow> bool" where
  "cache_frame s t \<longleftrightarrow>
     caches t = caches s \<and> l3_tables t = l3_tables s \<and> num_sockets t = num_sockets s
     \<and> bufs t = bufs s \<and> (\<forall>c. stats (percpu t c) = stats (percpu s c))
     \<and> (\<forall>i. ext_slots (tables t i) = ext_slots (tables s i)
            \<and> ext_slot_size (tables t i) = ext_slot_size (tables s i)
            \<and> ext_lock (tables t i) = ext_lock (tables s i)
            \<and> socket_id (tables t i) = socket_id (tables s i))
     \<and> (\<forall>h. lock (bucket_at t h) = lock (bucket_at s h))
     \<and> length (entries t) = length (entries s)
     \<and> (\<forall>p. map_option payload (ent t p) = map_option payload (ent s p))"

lemma links_only_cache_frame: "links_only s t \<Longrightarrow> cache_frame s t"
  by (simp add: links_only_def cache_frame_def)

lemma cache_frame_refl [simp]: "cache_frame s s"
  by (simp add: cache_frame_def)

lemma cache_frame_trans [trans]: "cache_frame s t \<Longrightarrow> cache_frame t u \<Longrightarrow> cache_frame s u"
  by (simp add: cache_frame_def)

lemma cache_frame_ent:
  assumes "cache_frame s t" and "ent s p = Some e"
  obtains e' where "ent t p = Some e'" and "payload e' = payload e"
proof -
  have "map_option payload (ent t p) = Some (payload e)"
    using assms by (simp add: cache_frame_def)
  then show thesis using that by auto
qed

lemma cache_frame_dom: "cache_frame s t \<Longrightarrow> ent t p = None \<longleftrightarrow> ent s p = None"
  by (metis cache_frame_def option.map_disc_iff)

lemma payload_link [simp]:
  "payload (e\<lparr>node_next := v\<rparr>) = payload e" "payload (e\<lparr>node_pprev := l\<rparr>) = payload e"
  by (simp_all add: payload_def)

lemma payload_eqD:
  assumes "payload e = payload e'"
  shows "fingerprint e = fingerprint e'" "mm e = mm e'" "expiry_jiffies e = expiry_jiffies e'"
    "mm_generation e = mm_generation e'" "result_union e = result_union e'"
    "register_mask e = register_mask e'" "eflags e = eflags e'" "hit_count e = hit_count e'"
    "fragment_length e = fragment_length e'"
proof -
  from assms show "fingerprint e = fingerprint e'" "mm e = mm e'"
    "expiry_jiffies e = expiry_jiffies e'" "mm_generation e = mm_generation e'"
    "result_union e = result_union e'" "register_mask e = register_mask e'" "eflags e = eflags e'"
    "hit_count e = hit_count e'" "fragment_length e = fragment_length e'"
    by (cases e; cases e'; simp add: payload_def)+
qed

lemma links_only_refl [simp]: "links_only s s"
  by (simp add: links_only_def)

lemma links_only_trans: "links_only s t \<Longrightarrow> links_only t u \<Longrightarrow> links_only s u"
  by (simp add: links_only_def)

lemma links_only_set_first [simp]: "links_only s (set_first h p s)"
  by (simp add: links_only_def frame_simps)

lemma links_only_put_ent:
  "ent s p = Some e0 \<Longrightarrow> payload e = payload e0 \<Longrightarrow> links_only s (put_ent p e s)"
  by (simp add: links_only_def frame_simps length_entries_put_ent)

lemma links_only_ent:
  assumes "links_only s t" and "ent s p = Some e"
  obtains e' where "ent t p = Some e'" and "payload e' = payload e"
proof -
  have "map_option payload (ent t p) = Some (payload e)"
    using assms by (simp add: links_only_def)
  then show thesis using that by auto
qed

lemma links_only_dom: "links_only s t \<Longrightarrow> ent t p = None \<longleftrightarrow> ent s p = None"
  by (metis links_only_def option.map_disc_iff)

lemma write_link_links_only: "write_link l v s = Inr t \<Longrightarrow> links_only s t"
  by (cases l) (auto simp: res_simps intro: links_only_put_ent)

lemma set_pprev_links_only: "set_pprev p l s = Inr t \<Longrightarrow> links_only s t"
  by (auto simp: set_pprev_def res_simps intro: links_only_put_ent)

lemma set_next_links_only: "set_next p v s = Inr t \<Longrightarrow> links_only s t"
  by (auto simp: set_next_def res_simps intro: links_only_put_ent)

lemma hlist_del_links_only: "hlist_del_rcu n s = Inr t \<Longrightarrow> links_only s t"
  by (auto simp: hlist_del_rcu_def res_simps split: if_splits
      intro: links_only_trans dest!: write_link_links_only set_pprev_links_only)

lemma hlist_add_links_only: "hlist_add_head_rcu n h s = Inr t \<Longrightarrow> links_only s t"
  by (auto simp: hlist_add_head_rcu_def Let_def res_simps split: if_splits
      dest!: set_next_links_only set_pprev_links_only)
    (meson links_only_trans links_only_set_first)+

section \<open>Locks, counters and callbacks do not touch the lists\<close>

lemma spin_lock_Inr [res_simps]:
  "spin_lock h s = Inr t \<longleftrightarrow>
     \<not> lock (bucket_at s h) \<and> t = put_bucket h ((bucket_at s h)\<lparr>lock := True\<rparr>) s"
  by (auto simp: spin_lock_def)

lemma ent_put_bucket [simp]: "ent (put_bucket h k s) = ent s"
  by (simp add: ent_def frame_simps)

lemma hfirst_put_lock [simp]: "hfirst (put_bucket h ((bucket_at s h)\<lparr>lock := b\<rparr>) s) = hfirst s"
  by (auto simp: hfirst_def)

lemma fuel_put_bucket [simp]: "fuel (put_bucket h k s) = fuel s"
  by (simp add: fuel_def frame_simps)

lemma unlock_views [simp]:
  "ent (spin_unlock h s) = ent s" "hfirst (spin_unlock h s) = hfirst s"
  "rcu_pending (spin_unlock h s) = rcu_pending s"
  "stats (percpu (spin_unlock h s) c) = stats (percpu s c)" "stray (spin_unlock h s) = stray s"
  by (simp_all add: spin_unlock_def frame_simps)

text \<open>A critical section that leaves everything but links as it was restores the lock as well.\<close>

lemma critical_section_frame:
  assumes "\<not> lock (bucket_at s h)"
    and "cache_frame (put_bucket h ((bucket_at s h)\<lparr>lock := True\<rparr>) s) t"
  shows "cache_frame s (spin_unlock h t)"
  using assms by (auto simp: cache_frame_def spin_unlock_def frame_simps)

lemma upd_stats_views [simp]:
  "ent (upd_stats c f s) = ent s" "entries (upd_stats c f s) = entries s"
  "caches (upd_stats c f s) = caches s" "l3_tables (upd_stats c f s) = l3_tables s"
  "num_sockets (upd_stats c f s) = num_sockets s" "bufs (upd_stats c f s) = bufs s"
  "rcu_pending (upd_stats c f s) = rcu_pending s" "tables (upd_stats c f s) = tables s"
  "percpu (upd_stats c f s) = percpu s" "stray (upd_stats c f s) = (stray s)(c := f (stray s c))"
  by (simp_all add: upd_stats_def ent_def)

lemma bucket_at_upd_stats [simp]: "bucket_at (upd_stats c f s) h = bucket_at s h"
  by (cases h) (simp_all add: upd_stats_def)

lemma hfirst_upd_stats [simp]: "hfirst (upd_stats c f s) = hfirst s"
  by (simp add: hfirst_def fun_eq_iff)

lemma cache_frame_upd_stats [simp]: "cache_frame s (upd_stats c f s)"
  by (simp add: cache_frame_def)

text \<open>No code of the module reads the stray words.\<close>

lemma bucket_at_stray [simp]: "bucket_at (s\<lparr>stray := w\<rparr>) h = bucket_at s h"
  by (cases h) simp_all

lemma stray_views [simp]:
  "ent (s\<lparr>stray := w\<rparr>) = ent s" "hfirst (s\<lparr>stray := w\<rparr>) = hfirst s" "fuel (s\<lparr>stray := w\<rparr>) = fuel s"
  by (simp_all add: ent_def hfirst_def fuel_def fun_eq_iff)

lemma bucket_at_pending [simp]: "bucket_at (s\<lparr>rcu_pending := ps\<rparr>) h = bucket_at s h"
  by (cases h) simp_all

lemma pending_views [simp]:
  "ent (s\<lparr>rcu_pending := ps\<rparr>) = ent s" "hfirst (s\<lparr>rcu_pending := ps\<rparr>) = hfirst s"
  by (simp_all add: ent_def hfirst_def fun_eq_iff)

lemma call_rcu_Inr [res_simps]:
  "call_rcu p s = Inr t \<longleftrightarrow>
     p \<noteq> NULL \<and> ent s p \<noteq> None \<and> t = s\<lparr>rcu_pending := rcu_pending s @ [p]\<rparr>"
  by (auto simp: call_rcu_def res_simps)

lemma cache_frame_pending [simp]: "cache_frame s (s\<lparr>rcu_pending := ps\<rparr>)"
  by (simp add: cache_frame_def)

section \<open>The effect of insertion and deletion on the heap\<close>

text \<open>What deleting \<open>n\<close>, whose links are \<open>x = n->next\<close> and \<open>l = n->pprev\<close>, does to entry \<open>q\<close>.\<close>

definition del_upd :: "ptr \<Rightarrow> ptr \<Rightarrow> hlink \<Rightarrow> ptr \<Rightarrow> kcr_entry \<Rightarrow> kcr_entry" where
  "del_upd n x l q e =
     (let e1 = (if l = LNext q then e\<lparr>node_next := x\<rparr> else e);
          e2 = (if q = x \<and> x \<noteq> NULL then e1\<lparr>node_pprev := l\<rparr> else e1)
      in if q = n then e2\<lparr>node_pprev := LPoison2\<rparr> else e2)"

text \<open>What inserting \<open>n\<close> at head \<open>h\<close>, in front of \<open>x\<close>, does to entry \<open>q\<close>.\<close>

definition add_upd :: "ptr \<Rightarrow> ptr \<Rightarrow> hhead \<Rightarrow> ptr \<Rightarrow> kcr_entry \<Rightarrow> kcr_entry" where
  "add_upd n x h q e =
     (let e1 = (if q = n then e\<lparr>node_next := x, node_pprev := LFirst h\<rparr> else e)
      in if q = x \<and> x \<noteq> NULL then e1\<lparr>node_pprev := LNext n\<rparr> else e1)"

definition link_ok :: "cache_state \<Rightarrow> hlink \<Rightarrow> bool" where
  "link_ok s l \<longleftrightarrow> (case l of LFirst h \<Rightarrow> True | LNext p \<Rightarrow> p \<noteq> NULL \<and> ent s p \<noteq> None | _ \<Rightarrow> False)"

definition ptr_ok :: "cache_state \<Rightarrow> ptr \<Rightarrow> bool" where
  "ptr_ok s p \<longleftrightarrow> p = NULL \<or> ent s p \<noteq> None"

lemma set_pprev_effect:
  assumes "p \<noteq> NULL" and "ent s p \<noteq> None"
  shows "\<exists>t. set_pprev p l s = Inr t \<and> hfirst t = hfirst s
    \<and> ent t = (\<lambda>q. map_option (\<lambda>e. if q = p then e\<lparr>node_pprev := l\<rparr> else e) (ent s q))"
  using assms by (auto simp: set_pprev_def fun_eq_iff map_option_case split: option.split)

lemma set_next_effect:
  assumes "p \<noteq> NULL" and "ent s p \<noteq> None"
  shows "\<exists>t. set_next p v s = Inr t \<and> hfirst t = hfirst s
    \<and> ent t = (\<lambda>q. map_option (\<lambda>e. if q = p then e\<lparr>node_next := v\<rparr> else e) (ent s q))"
  using assms by (auto simp: set_next_def fun_eq_iff map_option_case split: option.split)

lemma write_link_effect:
  assumes "link_ok s l"
  shows "\<exists>t. write_link l v s = Inr t
    \<and> hfirst t = (case l of LFirst h \<Rightarrow> (hfirst s)(h := v) | _ \<Rightarrow> hfirst s)
    \<and> ent t = (\<lambda>q. map_option (\<lambda>e. if l = LNext q then e\<lparr>node_next := v\<rparr> else e) (ent s q))"
  using assms
  by (cases l) (auto simp: link_ok_def fun_eq_iff map_option_case frame_simps split: option.split)

lemma hlist_del_effect:
  assumes n: "n \<noteq> NULL" "ent s n = Some e"
    and l: "link_ok s (node_pprev e)" and x: "ptr_ok s (node_next e)"
  shows "\<exists>t. hlist_del_rcu n s = Inr t
    \<and> ent t = (\<lambda>q. map_option (del_upd n (node_next e) (node_pprev e) q) (ent s q))
    \<and> hfirst t = (case node_pprev e of LFirst h \<Rightarrow> (hfirst s)(h := node_next e) | _ \<Rightarrow> hfirst s)"
proof -
  let ?x = "node_next e" and ?l = "node_pprev e"
  obtain s1 where s1: "write_link ?l ?x s = Inr s1"
    "hfirst s1 = (case ?l of LFirst h \<Rightarrow> (hfirst s)(h := ?x) | _ \<Rightarrow> hfirst s)"
    "ent s1 = (\<lambda>q. map_option (\<lambda>e. if ?l = LNext q then e\<lparr>node_next := ?x\<rparr> else e) (ent s q))"
    using write_link_effect [OF l] by blast
  obtain s2 where s2: "(if ?x \<noteq> NULL then set_pprev ?x ?l s1 else Inr s1) = Inr s2"
    "hfirst s2 = hfirst s1"
    "ent s2 = (\<lambda>q. map_option (\<lambda>e. if q = ?x \<and> ?x \<noteq> NULL then e\<lparr>node_pprev := ?l\<rparr> else e) (ent s1 q))"
  proof (cases "?x = NULL")
    case True
    then show thesis using that [of s1] by (simp add: option.map_ident)
  next
    case False
    with x s1(3) have "ent s1 ?x \<noteq> None" by (auto simp: ptr_ok_def)
    from set_pprev_effect [OF False this, of ?l] show thesis using that False by auto
  qed
  have "ent s2 n \<noteq> None" using n s1(3) s2(3) by simp
  from set_pprev_effect [OF n(1) this, of LPoison2] obtain t where
    t: "set_pprev n LPoison2 s2 = Inr t" "hfirst t = hfirst s2"
    "ent t = (\<lambda>q. map_option (\<lambda>e. if q = n then e\<lparr>node_pprev := LPoison2\<rparr> else e) (ent s2 q))"
    by blast
  have "hlist_del_rcu n s = Inr t"
    using n s1(1) s2(1) t(1) by (simp add: hlist_del_rcu_def)
  moreover have "ent t = (\<lambda>q. map_option (del_upd n ?x ?l q) (ent s q))"
    by (auto simp: t(3) s2(3) s1(3) fun_eq_iff option.map_comp del_upd_def Let_def
        intro!: option.map_cong)
  moreover have "hfirst t = (case ?l of LFirst h \<Rightarrow> (hfirst s)(h := ?x) | _ \<Rightarrow> hfirst s)"
    by (simp only: t(2) s2(2) s1(2))
  ultimately show ?thesis by blast
qed

lemma hlist_del_okD:
  assumes "hlist_del_rcu n s = Inr t"
  shows "\<exists>e. n \<noteq> NULL \<and> ent s n = Some e \<and> link_ok s (node_pprev e) \<and> ptr_ok s (node_next e)"
proof -
  from assms obtain e s1 where e: "n \<noteq> NULL" "ent s n = Some e"
    and s1: "write_link (node_pprev e) (node_next e) s = Inr s1"
    and nx: "node_next e \<noteq> NULL \<Longrightarrow> ent s1 (node_next e) \<noteq> None"
    by (auto simp: hlist_del_rcu_def set_pprev_def res_simps split: if_splits)
  have "link_ok s (node_pprev e)"
    using s1 by (cases "node_pprev e") (auto simp: link_ok_def res_simps)
  moreover have "ptr_ok s (node_next e)"
    using nx links_only_dom [OF write_link_links_only [OF s1]] by (auto simp: ptr_ok_def)
  ultimately show ?thesis using e by blast
qed

lemma hlist_add_effect:
  assumes n: "n \<noteq> NULL" "ent s n \<noteq> None" and x: "ptr_ok s (hfirst s h)"
  shows "\<exists>t. hlist_add_head_rcu n h s = Inr t
    \<and> ent t = (\<lambda>q. map_option (add_upd n (hfirst s h) h q) (ent s q))
    \<and> hfirst t = (hfirst s)(h := n)"
proof -
  let ?x = "hfirst s h"
  from set_next_effect [OF n, of ?x] obtain s1 where
    s1: "set_next n ?x s = Inr s1" "hfirst s1 = hfirst s"
    "ent s1 = (\<lambda>q. map_option (\<lambda>e. if q = n then e\<lparr>node_next := ?x\<rparr> else e) (ent s q))"
    by blast
  have "ent s1 n \<noteq> None" using n s1(3) by simp
  from set_pprev_effect [OF n(1) this, of "LFirst h"] obtain s2 where
    s2: "set_pprev n (LFirst h) s1 = Inr s2" "hfirst s2 = hfirst s1"
    "ent s2 = (\<lambda>q. map_option (\<lambda>e. if q = n then e\<lparr>node_pprev := LFirst h\<rparr> else e) (ent s1 q))"
    by blast
  let ?s3 = "set_first h n s2"
  have e3: "ent ?s3 = ent s2" by (simp add: frame_simps)
  obtain t where t: "(if ?x \<noteq> NULL then set_pprev ?x (LNext n) ?s3 else Inr ?s3) = Inr t"
    "hfirst t = hfirst ?s3"
    "ent t = (\<lambda>q. map_option (\<lambda>e. if q = ?x \<and> ?x \<noteq> NULL then e\<lparr>node_pprev := LNext n\<rparr> else e) (ent ?s3 q))"
  proof (cases "?x = NULL")
    case True
    then show thesis using that [of ?s3] by (simp add: option.map_ident)
  next
    case False
    with x s1(3) s2(3) e3 have "ent ?s3 ?x \<noteq> None" by (auto simp: ptr_ok_def)
    from set_pprev_effect [OF False this, of "LNext n"] show thesis using that False by auto
  qed
  have "hlist_add_head_rcu n h s = Inr t"
    using s1(1) s2(1) t(1) by (simp add: hlist_add_head_rcu_def Let_def)
  moreover have "ent t = (\<lambda>q. map_option (add_upd n ?x h q) (ent s q))"
    by (auto simp: t(3) e3 s2(3) s1(3) fun_eq_iff option.map_comp add_upd_def Let_def
        intro!: option.map_cong)
  moreover have "hfirst t = (hfirst s)(h := n)"
    by (simp add: t(2) s2(2) s1(2))
  ultimately show ?thesis by blast
qed

lemma hlist_add_okD:
  assumes "hlist_add_head_rcu n h s = Inr t"
  shows "n \<noteq> NULL \<and> ent s n \<noteq> None \<and> ptr_ok s (hfirst s h)"
  using assms
  by (auto simp: hlist_add_head_rcu_def set_next_def set_pprev_def res_simps Let_def ptr_ok_def
      frame_simps split: if_splits)

section \<open>Lists in the heap\<close>

text \<open>\<open>chain g p qs\<close>: following \<open>next\<close> from \<open>p\<close> visits exactly \<open>qs\<close> and ends at NULL.\<close>

fun chain :: "(ptr \<Rightarrow> kcr_entry option) \<Rightarrow> ptr \<Rightarrow> ptr list \<Rightarrow> bool" where
  "chain g p [] \<longleftrightarrow> p = NULL"
| "chain g p (q # qs) \<longleftrightarrow> p = q \<and> q \<noteq> NULL \<and> (\<exists>e. g q = Some e \<and> chain g (node_next e) qs)"

text \<open>
  \<open>dseg g l p qs l' p'\<close>: from pointer \<open>p\<close>, stored in cell \<open>l\<close>, the nodes \<open>qs\<close> lead to pointer \<open>p'\<close>,
  stored in cell \<open>l'\<close>, and every \<open>pprev\<close> on the way is the cell that points to its node.
\<close>

fun dseg :: "(ptr \<Rightarrow> kcr_entry option) \<Rightarrow> hlink \<Rightarrow> ptr \<Rightarrow> ptr list \<Rightarrow> hlink \<Rightarrow> ptr \<Rightarrow> bool" where
  "dseg g l p [] l' p' \<longleftrightarrow> l = l' \<and> p = p'"
| "dseg g l p (q # qs) l' p' \<longleftrightarrow> p = q \<and> q \<noteq> NULL
     \<and> (\<exists>e. g q = Some e \<and> node_pprev e = l \<and> dseg g (LNext q) (node_next e) qs l' p')"

definition dlist :: "(ptr \<Rightarrow> kcr_entry option) \<Rightarrow> hlink \<Rightarrow> ptr \<Rightarrow> ptr list \<Rightarrow> bool" where
  "dlist g l p qs \<longleftrightarrow> (\<exists>l'. dseg g l p qs l' NULL)"

text \<open>The bucket with head \<open>h\<close> is a well-formed list of the entries \<open>qs\<close>.\<close>

definition hlist :: "cache_state \<Rightarrow> hhead \<Rightarrow> ptr list \<Rightarrow> bool" where
  "hlist s h qs \<longleftrightarrow> dlist (ent s) (LFirst h) (hfirst s h) qs"

lemma dseg_append:
  "dseg g l p (xs @ ys) l' p' \<longleftrightarrow> (\<exists>m mp. dseg g l p xs m mp \<and> dseg g m mp ys l' p')"
  by (induction xs arbitrary: l p) auto

lemma dseg_frame:
  "(\<And>q. q \<in> set qs \<Longrightarrow> g' q = g q) \<Longrightarrow> dseg g' l p qs l' p' = dseg g l p qs l' p'"
  by (induction qs arbitrary: l p) simp_all

lemma dseg_last:
  "dseg g l p qs l' p' \<Longrightarrow> l' = (if qs = [] then l else LNext (last qs))"
  by (induction qs arbitrary: l p) auto

lemma dlist_simps [simp]:
  "dlist g l p [] \<longleftrightarrow> p = NULL"
  "dlist g l p (q # qs) \<longleftrightarrow> p = q \<and> q \<noteq> NULL
     \<and> (\<exists>e. g q = Some e \<and> node_pprev e = l \<and> dlist g (LNext q) (node_next e) qs)"
  by (auto simp: dlist_def)

lemma dlist_append:
  "dlist g l p (xs @ ys) \<longleftrightarrow> (\<exists>m mp. dseg g l p xs m mp \<and> dlist g m mp ys)"
  by (auto simp: dlist_def dseg_append)

lemma dlist_frame: "(\<And>q. q \<in> set qs \<Longrightarrow> g' q = g q) \<Longrightarrow> dlist g' l p qs = dlist g l p qs"
  by (simp add: dlist_def dseg_frame [of qs g' g])

lemma dlist_chain: "dlist g l p qs \<Longrightarrow> chain g p qs"
  by (induction qs arbitrary: l p) auto

lemma dlist_alloc: "dlist g l p qs \<Longrightarrow> q \<in> set qs \<Longrightarrow> q \<noteq> NULL \<and> g q \<noteq> None"
  by (induction qs arbitrary: l p) auto

lemma chain_frame: "(\<And>q. q \<in> set qs \<Longrightarrow> g' q = g q) \<Longrightarrow> chain g' p qs = chain g p qs"
  by (induction qs arbitrary: p) simp_all

lemma chain_alloc: "chain g p qs \<Longrightarrow> q \<in> set qs \<Longrightarrow> q \<noteq> NULL \<and> g q \<noteq> None"
  by (induction qs arbitrary: p) auto

lemma chain_unique: "chain g p qs \<Longrightarrow> chain g p rs \<Longrightarrow> qs = rs"
proof (induction qs arbitrary: p rs)
  case Nil
  then show ?case by (cases rs) auto
next
  case (Cons q qs)
  then show ?case by (cases rs) auto
qed

lemma chain_suffix: "chain g p (xs @ y # ys) \<Longrightarrow> chain g y (y # ys)"
  by (induction xs arbitrary: p) auto

lemma chain_distinct: "chain g p qs \<Longrightarrow> distinct qs"
proof (induction qs arbitrary: p)
  case Nil
  then show ?case by simp
next
  case (Cons q qs)
  have "q \<notin> set qs"
  proof
    assume "q \<in> set qs"
    then obtain xs ys where "qs = xs @ q # ys" by (meson split_list)
    with Cons.prems have "chain g q (q # xs @ q # ys)" and "chain g p ((q # xs) @ q # ys)"
      by auto
    then have "q # xs @ q # ys = q # ys"
      using chain_suffix chain_unique by blast
    then show False by simp
  qed
  with Cons show ?case by auto
qed

lemmas dlist_distinct = chain_distinct [OF dlist_chain]

lemma hlist_distinct: "hlist s h qs \<Longrightarrow> distinct qs"
  unfolding hlist_def by (rule dlist_distinct)

lemma hlist_alloc: "hlist s h qs \<Longrightarrow> q \<in> set qs \<Longrightarrow> q \<noteq> NULL \<and> ent s q \<noteq> None"
  unfolding hlist_def by (rule dlist_alloc)

lemma hlist_chain: "hlist s h qs \<Longrightarrow> chain (ent s) (hfirst s h) qs"
  unfolding hlist_def by (rule dlist_chain)

text \<open>
  A list that ends visits every entry at most once, so it is shorter than the fuel.
\<close>

lemma chain_length: "chain (ent s) p qs \<Longrightarrow> length qs < fuel s"
proof -
  assume c: "chain (ent s) p qs"
  have "set qs \<subseteq> dom (ent s)" using chain_alloc [OF c] by auto
  then have "card (set qs) \<le> card (dom (ent s))"
    by (simp add: card_mono ent_def finite_dom_map_of)
  also have "\<dots> \<le> length (entries s)" by (simp add: ent_def card_dom_map_of)
  finally show ?thesis
    using chain_distinct [OF c] by (simp add: distinct_card fuel_def)
qed

section \<open>Insertion and deletion on well-formed lists\<close>

lemma add_upd_other [simp]: "q \<noteq> n \<Longrightarrow> q \<noteq> x \<Longrightarrow> add_upd n x h q e = e"
  by (simp add: add_upd_def)

lemma del_upd_other [simp]: "q \<noteq> n \<Longrightarrow> q \<noteq> x \<Longrightarrow> l \<noteq> LNext q \<Longrightarrow> del_upd n x l q e = e"
  by (simp add: del_upd_def)

text \<open>
  Insertion at the head repairs the \<open>pprev\<close> of the old first node, so it does not matter what
  that link was (\<open>l\<close>) before.
\<close>

lemma hlist_add_spec:
  assumes wf: "dlist (ent s) l (hfirst s h) qs" and n: "n \<noteq> NULL" "ent s n \<noteq> None" "n \<notin> set qs"
  shows "\<exists>t. hlist_add_head_rcu n h s = Inr t \<and> hlist t h (n # qs) \<and> links_only s t
    \<and> hfirst t = (hfirst s)(h := n) \<and> (\<forall>q. q \<notin> set (n # qs) \<longrightarrow> ent t q = ent s q)"
proof -
  let ?x = "hfirst s h"
  have x: "ptr_ok s ?x"
    using wf by (cases qs) (auto simp: ptr_ok_def)
  from hlist_add_effect [OF n(1,2) x] obtain t where
    t: "hlist_add_head_rcu n h s = Inr t" "hfirst t = (hfirst s)(h := n)"
    and et: "ent t = (\<lambda>q. map_option (add_upd n ?x h q) (ent s q))" by blast
  have xn: "?x \<noteq> n" using wf n by (cases qs) auto
  obtain e where e: "ent s n = Some e" using n(2) by auto
  have en: "ent t n = Some (e\<lparr>node_next := ?x, node_pprev := LFirst h\<rparr>)"
    using xn by (simp add: et e add_upd_def)
  have other: "q \<noteq> n \<Longrightarrow> q \<noteq> ?x \<Longrightarrow> ent t q = ent s q" for q
    by (simp add: et map_option_case split: option.split)
  have "dlist (ent t) (LNext n) ?x qs"
  proof (cases qs)
    case Nil
    with wf show ?thesis by simp
  next
    case (Cons q rs)
    with wf obtain ex where q: "?x = q" "q \<noteq> NULL" "ent s q = Some ex"
      "dlist (ent s) (LNext q) (node_next ex) rs" by auto
    have "distinct (q # rs)"
      using dlist_distinct [OF wf] Cons by simp
    with n(3) Cons q(1) have "\<And>r. r \<in> set rs \<Longrightarrow> ent t r = ent s r"
      by (intro other) auto
    then have "dlist (ent t) (LNext q) (node_next ex) rs"
      using q(4) dlist_frame [of rs "ent t" "ent s"] by simp
    moreover have "ent t q = Some (ex\<lparr>node_pprev := LNext n\<rparr>)"
      using q xn by (simp add: et add_upd_def)
    ultimately show ?thesis using Cons q by simp
  qed
  with en n(1) t(2) have "hlist t h (n # qs)" by (simp add: hlist_def)
  moreover have "ent t q = ent s q" if "q \<notin> set (n # qs)" for q
  proof (cases "q = ?x")
    case True
    with that wf have "q = NULL" by (cases qs) auto
    with that show ?thesis
      by (simp add: et add_upd_def map_option_case split: option.split)
  qed (use that other in simp)
  ultimately show ?thesis using t hlist_add_links_only by blast
qed

text \<open>The last pointer of a segment can be redirected without disturbing the rest.\<close>

lemma dseg_retarget:
  assumes "dseg g l p (xs @ [a]) l' p'" and "distinct (xs @ [a])" and "g a = Some ea"
    and "g' a = Some (ea\<lparr>node_next := v\<rparr>)" and "\<And>q. q \<in> set xs \<Longrightarrow> g' q = g q"
  shows "dseg g' l p (xs @ [a]) (LNext a) v"
  using assms
  by (induction xs arbitrary: l p) auto

text \<open>The nodes behind the removed one: the first of them gets its \<open>pprev\<close>.\<close>

lemma dlist_del_rest:
  assumes ys: "dlist g (LNext n) x ys" and dist: "distinct (n # ys)" and l: "\<And>r. r \<in> set ys \<Longrightarrow> l \<noteq> LNext r"
  shows "dlist (\<lambda>q. map_option (del_upd n x l q) (g q)) l x ys"
proof (cases ys)
  case Nil
  with ys show ?thesis by simp
next
  case (Cons y zs)
  let ?g = "\<lambda>q. map_option (del_upd n x l q) (g q)"
  from ys Cons obtain e where y: "x = y" "y \<noteq> NULL" "g y = Some e" "dlist g (LNext y) (node_next e) zs" by auto
  have "?g r = g r" if "r \<in> set zs" for r
    using that dist Cons y(1) l [of r] by (cases "g r") (auto simp: del_upd_def)
  then have "dlist ?g (LNext y) (node_next e) zs" using y(4) dlist_frame [of zs ?g g] by simp
  moreover have "?g y = Some (e\<lparr>node_pprev := l\<rparr>)" using y dist Cons l [of y] by (auto simp: del_upd_def)
  ultimately show ?thesis using Cons y by simp
qed

lemma hlist_del_spec:
  assumes wf: "hlist s h (xs @ n # ys)"
  shows "\<exists>t e. hlist_del_rcu n s = Inr t \<and> hlist t h (xs @ ys) \<and> links_only s t
    \<and> (\<forall>h'. h' \<noteq> h \<longrightarrow> hfirst t h' = hfirst s h')
    \<and> (\<forall>q. q \<notin> set (xs @ n # ys) \<longrightarrow> ent t q = ent s q)
    \<and> ent s n = Some e \<and> ent t n = Some (e\<lparr>node_pprev := LPoison2\<rparr>)"
proof -
  from wf obtain l where seg: "dseg (ent s) (LFirst h) (hfirst s h) xs l n"
    and tail: "dlist (ent s) l n (n # ys)"
    by (auto simp: hlist_def dlist_append)
  then obtain e where e: "n \<noteq> NULL" "ent s n = Some e" "node_pprev e = l"
    and ys: "dlist (ent s) (LNext n) (node_next e) ys" by auto
  have l: "l = (if xs = [] then LFirst h else LNext (last xs))" using dseg_last [OF seg] by simp
  have alloc: "\<And>q. q \<in> set (xs @ n # ys) \<Longrightarrow> q \<noteq> NULL \<and> ent s q \<noteq> None"
    using hlist_alloc [OF wf] by blast
  have dist: "distinct (xs @ n # ys)" by (rule hlist_distinct [OF wf])
  let ?x = "node_next e"
  have x: "ptr_ok s ?x" using ys by (cases ys) (auto simp: ptr_ok_def)
  have lok: "link_ok s l" using alloc [of "last xs"] l by (auto simp: link_ok_def)
  from hlist_del_effect [OF e(1,2)] lok x e(3) obtain t where
    t: "hlist_del_rcu n s = Inr t"
    and et: "ent t = (\<lambda>q. map_option (del_upd n ?x l q) (ent s q))"
    and ft: "hfirst t = (case l of LFirst h \<Rightarrow> (hfirst s)(h := ?x) | _ \<Rightarrow> hfirst s)" by auto
  have xys: "?x = (case ys of [] \<Rightarrow> NULL | y # _ \<Rightarrow> y)" using ys by (cases ys) auto
  have other: "q \<noteq> n \<Longrightarrow> q \<noteq> ?x \<Longrightarrow> l \<noteq> LNext q \<Longrightarrow> ent t q = ent s q" for q
    by (simp add: et map_option_case split: option.split)
  have xnn: "?x \<noteq> n" using xys dist e(1) by (auto split: list.splits)
  have ln: "l \<noteq> LNext n" using l dist by (auto split: if_splits)
  have en: "ent t n = Some (e\<lparr>node_pprev := LPoison2\<rparr>)"
    using xnn ln by (simp add: et e del_upd_def)
  have "l \<noteq> LNext r" if "r \<in> set ys" for r
  proof (cases "xs = []")
    case False
    then have "last xs \<in> set xs" by simp
    then have "last xs \<noteq> r" using dist that by auto
    with l False show ?thesis by simp
  qed (simp add: l)
  with ys dist have tl': "dlist (ent t) l ?x ys" unfolding et by (intro dlist_del_rest) auto
  have hd': "dseg (ent t) (LFirst h) (hfirst t h) xs l ?x"
  proof (cases xs rule: rev_cases)
    case Nil
    with l ft show ?thesis by simp
  next
    case (snoc zs a)
    with l have la: "l = LNext a" by simp
    then have ft': "hfirst t = hfirst s" using ft by simp
    obtain ea where ea: "ent s a = Some ea" using alloc [of a] snoc by auto
    have "a \<noteq> n" "a \<noteq> ?x" using dist snoc xys e(1) alloc [of a] by (auto split: list.splits)
    then have "ent t a = Some (ea\<lparr>node_next := ?x\<rparr>)"
      using la by (simp add: et ea del_upd_def)
    moreover have "\<And>q. q \<in> set zs \<Longrightarrow> ent t q = ent s q"
      using dist snoc la xys alloc by (intro other) (auto split: list.splits)
    ultimately show ?thesis
      using dseg_retarget [of "ent s" _ _ zs a l n ea "ent t" ?x] seg dist ea snoc la ft' by simp
  qed
  have "hlist t h (xs @ ys)" using hd' tl' by (auto simp: hlist_def dlist_append)
  moreover have "hfirst t h' = hfirst s h'" if "h' \<noteq> h" for h'
    using ft l that by (auto split: if_splits)
  moreover have "ent t q = ent s q" if "q \<notin> set (xs @ n # ys)" for q
  proof (cases "q = ?x")
    case True
    with that xys have "q = NULL" by (auto split: list.splits)
    with that l show ?thesis
      by (cases xs rule: rev_cases)
        (auto simp: et del_upd_def map_option_case split: option.split)
  next
    case False
    with that l show ?thesis by (intro other) (auto split: if_splits)
  qed
  ultimately show ?thesis using t e en hlist_del_links_only by blast
qed

section \<open>Searching a list\<close>

definition first_match :: "(ptr \<Rightarrow> kcr_entry option) \<Rightarrow> (kcr_entry \<Rightarrow> bool) \<Rightarrow> ptr list \<Rightarrow> ptr" where
  "first_match g P qs =
     (case find (\<lambda>q. case g q of None \<Rightarrow> False | Some e \<Rightarrow> P e) qs of None \<Rightarrow> NULL | Some q \<Rightarrow> q)"

lemma hlist_find_chain:
  "chain (ent s) p qs \<Longrightarrow> length qs < k \<Longrightarrow> hlist_find k P s p = Inr (first_match (ent s) P qs)"
proof (induction qs arbitrary: p k)
  case Nil
  then show ?case by (cases k) (auto simp: first_match_def)
next
  case (Cons q qs)
  then obtain j where "k = Suc j" "length qs < j" by (cases k) auto
  with Cons show ?case by (auto simp: first_match_def)
qed

corollary hlist_find_total:
  "chain (ent s) p qs \<Longrightarrow> hlist_find (fuel s) P s p = Inr (first_match (ent s) P qs)"
  by (rule hlist_find_chain) (auto dest: chain_length)

text \<open>An entry found satisfies the test, whatever the shape of the heap.\<close>

lemma hlist_find_sound:
  "hlist_find k P s p = Inr q \<Longrightarrow> q \<noteq> NULL \<Longrightarrow> \<exists>e. ent s q = Some e \<and> P e"
proof (induction k arbitrary: p)
  case 0
  then show ?case by simp
next
  case (Suc k)
  then show ?case by (auto simp: res_simps split: if_splits)
qed

lemma hlist_find_NULL [simp]: "hlist_find (fuel s) P s NULL = Inr NULL"
  by (simp add: fuel_def)

text \<open>If the first entry matches, the rest of the list is not looked at.\<close>

lemma hlist_find_first:
  "p \<noteq> NULL \<Longrightarrow> ent s p = Some e \<Longrightarrow> P e \<Longrightarrow> hlist_find (fuel s) P s p = Inr p"
  by (simp add: fuel_def)

lemma first_match_NULL:
  assumes "chain g p qs"
  shows "first_match g P qs = NULL \<longleftrightarrow> (\<forall>q\<in>set qs. \<forall>e. g q = Some e \<longrightarrow> \<not> P e)"
  using assms
  by (induction qs arbitrary: p) (auto simp: first_match_def)

lemma first_match_split:
  assumes "chain g p qs" and "first_match g P qs = q" and "q \<noteq> NULL"
  obtains xs ys e where "qs = xs @ q # ys" and "g q = Some e" and "P e"
    and "\<And>x ex. x \<in> set xs \<Longrightarrow> g x = Some ex \<Longrightarrow> \<not> P ex"
  using assms
proof (induction qs arbitrary: p thesis)
  case Nil
  then show ?case by (simp add: first_match_def)
next
  case (Cons a qs)
  then obtain ea where ea: "g a = Some ea" "chain g (node_next ea) qs" by auto
  show ?case
  proof (cases "P ea")
    case True
    with Cons.prems(1) [of "[]" qs ea] Cons.prems(3) ea show ?thesis
      by (simp add: first_match_def)
  next
    case False
    with Cons.prems(3) ea have fm: "first_match g P qs = q" by (simp add: first_match_def)
    from Cons.IH [OF _ ea(2) fm Cons.prems(4)] obtain xs ys e where
      "qs = xs @ q # ys" "g q = Some e" "P e" "\<And>x ex. x \<in> set xs \<Longrightarrow> g x = Some ex \<Longrightarrow> \<not> P ex"
      by blast
    moreover from this(4) False ea(1)
    have "\<And>x ex. x \<in> set (a # xs) \<Longrightarrow> g x = Some ex \<Longrightarrow> \<not> P ex" by auto
    ultimately show ?thesis using Cons.prems(1) [of "a # xs" ys e] by simp
  qed
qed

text \<open>A traversal runs out of fuel only on a list that has no end.\<close>

lemma hlist_find_endless:
  "hlist_find (fuel s) P s p = Inl EndlessLoop \<Longrightarrow> \<nexists>qs. chain (ent s) p qs"
  by (auto simp: hlist_find_total)

end
