(* ===== verification/KCR_Cache.thy ===== *)
theory KCR_Cache
  imports Hlist
begin

text \<open>
  \<open>drivers/kcr/kcr_cache.c\<close>: the two-tier cache. Every function takes the calling context \<open>env\<close> and
  the state, and returns the value of the C function with the new state, or the fault it runs
  into. RCU read sections have no effect on the state and are not written; \<open>pr_debug\<close> is dropped.
  \<open>this_cpu_inc(cache->stats.f)\<close> is \<open>upd_stats\<close>: it increments a word outside \<open>*cache\<close>.
\<close>

section \<open>The calling context\<close>

text \<open>
  What the kernel supplies to one call: the CPU it runs on and that CPU's node, the clock, the
  tick conversion, the current task, and the results of the two allocations (0 for a failure).
\<close>

record env =
  cpu :: nat
  node :: int
  jiffies :: u64
  msecs_to_jiffies :: "u32 \<Rightarrow> u64"
  cur_pid :: "32 word"
  cur_pid_ns :: ptr
  kzalloc_ret :: ptr
  kvmalloc_ret :: ptr

definition l2_index :: "u64 \<Rightarrow> nat" where
  "l2_index fp = unat fp mod KCR_L2_ENTRIES"

definition l3_index :: "u64 \<Rightarrow> nat" where
  "l3_index fp = unat fp mod KCR_L3_ENTRIES"

text \<open>
  \<open>socket = cpu_to_node(smp_processor_id()); if (socket >= num_sockets) socket = 0;\<close> followed by the
  access to \<open>l3_tables[socket]\<close>. A negative node is not caught by the comparison.
\<close>

definition l3_socket :: "env \<Rightarrow> cache_state \<Rightarrow> nat res" where
  "l3_socket v s =
     (let socket = (if num_sockets s \<le> node v then 0 else node v) in
      if l3_tables s = NULL then Inl NullDeref
      else if socket < 0 \<or> num_sockets s \<le> socket then Inl OutOfBounds
      else Inr (nat socket))"

section \<open>Lookup\<close>

text \<open>The test of the lookup loops: same key, and \<open>jiffies\<close> before the expiry.\<close>

definition live_match :: "u64 \<Rightarrow> ptr \<Rightarrow> u64 \<Rightarrow> kcr_entry \<Rightarrow> bool" where
  "live_match fp m j e \<longleftrightarrow> fingerprint e = fp \<and> mm e = m \<and> time_before j (expiry_jiffies e)"

definition lookup_l2 :: "env \<Rightarrow> nat \<Rightarrow> u64 \<Rightarrow> ptr \<Rightarrow> cache_state \<Rightarrow> (ptr \<times> cache_state) res" where
  "lookup_l2 v c fp m s =
     (if caches s = NULL then Inl NullDeref else
      rbind (hlist_find (fuel s) (live_match fp m (jiffies v)) s (hfirst s (L2Head c (l2_index fp))))
        (\<lambda>p. if p \<noteq> NULL
             then Inr (p, upd_stats c (\<lambda>st. st\<lparr>l2_hits := l2_hits st + 1\<rparr>) s)
             else Inr (NULL, s)))"

definition lookup_l3 :: "env \<Rightarrow> u64 \<Rightarrow> ptr \<Rightarrow> cache_state \<Rightarrow> ptr res" where
  "lookup_l3 v fp m s =
     rbind (l3_socket v s) (\<lambda>i.
       hlist_find (fuel s) (live_match fp m (jiffies v)) s (hfirst s (L3Head i (l3_index fp))))"

text \<open>The lock taken is that of the L2 bucket; the entry is unlinked from whatever list it is on.\<close>

definition promote_to_l2 :: "nat \<Rightarrow> ptr \<Rightarrow> u64 \<Rightarrow> cache_state \<Rightarrow> cache_state res" where
  "promote_to_l2 c p fp s =
     (let h = L2Head c (l2_index fp) in
      rbind (spin_lock h s) (\<lambda>s.
      rbind (hlist_del_rcu p s) (\<lambda>s.
      rbind (hlist_add_head_rcu p h s) (\<lambda>s.
      Inr (spin_unlock h s)))))"

definition lookup_unified :: "env \<Rightarrow> u64 \<Rightarrow> ptr \<Rightarrow> cache_state \<Rightarrow> (ptr \<times> cache_state) res" where
  "lookup_unified v fp m s =
     rbind (lookup_l2 v (cpu v) fp m s) (\<lambda>(p, s).
       if p \<noteq> NULL then Inr (p, s) else
       rbind (lookup_l3 v fp m s) (\<lambda>p.
         if p \<noteq> NULL
         then rbind (promote_to_l2 (cpu v) p fp s) (\<lambda>s.
                Inr (p, upd_stats (cpu v) (\<lambda>st. st\<lparr>l3_hits := l3_hits st + 1\<rparr>) s))
         else Inr (NULL, upd_stats (cpu v) (\<lambda>st. st\<lparr>misses := misses st + 1\<rparr>) s)))"

section \<open>Storing\<close>

text \<open>The test of the store loops: same key, expired or not.\<close>

definition same_key :: "u64 \<Rightarrow> ptr \<Rightarrow> kcr_entry \<Rightarrow> bool" where
  "same_key fp m e \<longleftrightarrow> fingerprint e = fp \<and> mm e = m"

text \<open>
  The common body of \<open>store_in_l2\<close> and \<open>store_in_l3\<close>: under the bucket's lock, unlink the first entry
  with the same key and queue it for freeing, then insert the new entry at the head.
\<close>

definition replace_in_bucket :: "hhead \<Rightarrow> ptr \<Rightarrow> u64 \<Rightarrow> cache_state \<Rightarrow> cache_state res" where
  "replace_in_bucket h p fp s =
     rbind (spin_lock h s) (\<lambda>s.
     rbind (get_ent s p) (\<lambda>e.
     rbind (hlist_find (fuel s) (same_key fp (mm e)) s (hfirst s h)) (\<lambda>old.
     rbind (if old \<noteq> NULL then rbind (hlist_del_rcu old s) (call_rcu old) else Inr s) (\<lambda>s.
     rbind (hlist_add_head_rcu p h s) (\<lambda>s.
     Inr (spin_unlock h s))))))"

definition store_in_l2 :: "nat \<Rightarrow> ptr \<Rightarrow> u64 \<Rightarrow> cache_state \<Rightarrow> cache_state res" where
  "store_in_l2 c p fp s =
     (if caches s = NULL then Inl NullDeref
      else replace_in_bucket (L2Head c (l2_index fp)) p fp s)"

definition store_in_l3 :: "env \<Rightarrow> ptr \<Rightarrow> u64 \<Rightarrow> cache_state \<Rightarrow> cache_state res" where
  "store_in_l3 v p fp s =
     rbind (l3_socket v s) (\<lambda>i. replace_in_bucket (L3Head i (l3_index fp)) p fp s)"

text \<open>\<open>memcpy(dst, data, len)\<close> reads \<open>len\<close> bytes of the memory \<open>data\<close>.\<close>

definition memcpy_from :: "u8 list \<Rightarrow> u32 \<Rightarrow> u8 list res" where
  "memcpy_from data len =
     (if unat len \<le> length data then Inr (take (unat len) data) else Inl OutOfBounds)"

text \<open>The value of \<open>ext_slot\<close> when the search loop stops: the first free slot, or the slot count.\<close>

definition free_slot :: "l3_table \<Rightarrow> nat" where
  "free_slot t = length (takeWhile (\<lambda>j. ext_slots t j \<noteq> NULL) [0..<KCR_EXT_SLOTS])"

text \<open>
  Lines 294 to 318 of \<open>store_result\<close>: place large data in an external slot. The flag is false when
  the function goes on to free the entry and return \<open>-ENOMEM\<close>.
\<close>

definition store_external ::
    "env \<Rightarrow> ptr \<Rightarrow> u8 list \<Rightarrow> u32 \<Rightarrow> cache_state \<Rightarrow> (bool \<times> cache_state) res" where
  "store_external v p data len s =
     rbind (l3_socket v s) (\<lambda>i.
     rbind (ext_spin_lock i s) (\<lambda>s.
     let ext_slot = free_slot (tables s i) in
     rbind
       (if ext_slot < KCR_EXT_SLOTS
        then let buf = kvmalloc_ret v;
                 s = upd_table i (\<lambda>t. t\<lparr>ext_slots := (ext_slots t)(ext_slot := buf)\<rparr>) s
             in if buf \<noteq> NULL
                then rbind (memcpy_from data len) (\<lambda>bytes.
                     rbind (get_ent s p) (\<lambda>e.
                     let s = s\<lparr>bufs := (buf, bytes) # bufs s\<rparr>;
                         s = upd_table i (\<lambda>t. t\<lparr>ext_slot_size := (ext_slot_size t)(ext_slot := len)\<rparr>) s
                     in Inr (put_ent p (set_ext_size len (set_ext_data buf e)) s)))
                else Inr s
        else Inr s) (\<lambda>s.
     let s = ext_spin_unlock i s in
     rbind (get_ent s p) (\<lambda>e.
     Inr (\<not> (KCR_EXT_SLOTS \<le> ext_slot \<or> ext_data e = NULL), s)))))"

text \<open>
  Lines 320 to 323: copy small data into the entry, then clear \<open>ext_data\<close> and \<open>ext_size\<close>, which are
  members of the same union.
\<close>

definition store_inline :: "ptr \<Rightarrow> u8 list \<Rightarrow> u32 \<Rightarrow> cache_state \<Rightarrow> (bool \<times> cache_state) res" where
  "store_inline p data len s =
     rbind (get_ent s p) (\<lambda>e.
     rbind (memcpy_from data len) (\<lambda>bytes.
     let e = e\<lparr>result_union := wr_bytes (result_union e) 0 bytes\<rparr>;
         e = set_ext_data NULL e;
         e = set_ext_size 0 e
     in Inr (True, put_ent p e s)))"

text \<open>The entry after lines 281 to 291. (\<open>result_words\<close> is computed and never used.)\<close>

definition new_entry :: "env \<Rightarrow> u64 \<Rightarrow> ptr \<Rightarrow> kcr_entry" where
  "new_entry v fp m = zero_entry\<lparr>
     fingerprint := fp,
     expiry_jiffies := jiffies v + msecs_to_jiffies v 1000,
     fragment_length := 0,
     register_mask := KCR_MASK_RAX,
     eflags := KCR_FLAG_VALID,
     hit_count := 0,
     mm := m,
     mm_generation := m,
     pid := cur_pid v,
     pid_ns := cur_pid_ns v\<rparr>"

definition store_result ::
    "env \<Rightarrow> u64 \<Rightarrow> u8 list option \<Rightarrow> u32 \<Rightarrow> ptr \<Rightarrow> cache_state \<Rightarrow> (int \<times> cache_state) res" where
  "store_result v fp data len m s =
     (case data of
        None \<Rightarrow> Inr (- EINVAL, s)
      | Some d \<Rightarrow>
          if len = 0 then Inr (- EINVAL, s)
          else if kzalloc_ret v = NULL then Inr (- ENOMEM, s)
          else
            let p = kzalloc_ret v;
                s = put_ent p (new_entry v fp m) s
            in rbind (if KCR_RESULT_SIZE_MAX < unat len
                      then store_external v p d len s
                      else store_inline p d len s) (\<lambda>(ok, s).
               if \<not> ok then rbind (kfree_entry p s) (\<lambda>s. Inr (- ENOMEM, s))
               else
                 rbind (store_in_l2 (cpu v) p fp s) (\<lambda>s.
                 rbind (store_in_l3 v p fp s) (\<lambda>s.
                 Inr (0, s)))))"

section \<open>Invalidation\<close>

text \<open>
  \<open>hlist_for_each_entry_safe\<close> with the body of the invalidation loops: the successor is read before
  the entry is unlinked. \<open>flush_bucket\<close> gives it the square of the fuel of a walk: on a well-formed
  bucket one turn per entry suffices (\<open>Cache_Flush\<close>), on a corrupted one the loop may never end.
\<close>

fun hlist_flush ::
    "nat \<Rightarrow> ptr \<Rightarrow> (cache_state \<Rightarrow> cache_state) \<Rightarrow> ptr \<Rightarrow> cache_state \<Rightarrow> cache_state res" where
  "hlist_flush 0 m account p s = Inl EndlessLoop"
| "hlist_flush (Suc k) m account p s =
     (if p = NULL then Inr s
      else rbind (get_ent s p) (\<lambda>e.
           let tmp = node_next e in
           rbind (if mm e = m
                  then rbind (hlist_del_rcu p s) (\<lambda>s. rbind (call_rcu p s) (\<lambda>s. Inr (account s)))
                  else Inr s) (hlist_flush k m account tmp)))"

definition flush_bucket ::
    "ptr \<Rightarrow> (cache_state \<Rightarrow> cache_state) \<Rightarrow> hhead \<Rightarrow> cache_state \<Rightarrow> cache_state res" where
  "flush_bucket m account h s =
     rbind (spin_lock h s) (\<lambda>s.
     rbind (hlist_flush (fuel s * fuel s) m account (hfirst s h) s) (\<lambda>s.
     Inr (spin_unlock h s)))"

definition free_ext_slot :: "nat \<Rightarrow> nat \<Rightarrow> cache_state \<Rightarrow> cache_state res" where
  "free_ext_slot i j s =
     (if ext_slots (tables s i) j \<noteq> NULL
      then rbind (kvfree (ext_slots (tables s i) j) s) (\<lambda>s.
           Inr (upd_table i (\<lambda>t. t\<lparr>ext_slots := (ext_slots t)(j := NULL),
                                ext_slot_size := (ext_slot_size t)(j := 0)\<rparr>) s))
      else Inr s)"

definition count_invalidation :: "nat \<Rightarrow> cache_state \<Rightarrow> cache_state" where
  "count_invalidation c = upd_stats c (\<lambda>st. st\<lparr>invalidations := invalidations st + 1\<rparr>)"

definition invalidate_range :: "env \<Rightarrow> ptr \<Rightarrow> u64 \<Rightarrow> u64 \<Rightarrow> cache_state \<Rightarrow> cache_state res" where
  "invalidate_range v m start end_addr s =
     (if caches s = NULL then Inl NullDeref else
      rbind (rfold (\<lambda>b. flush_bucket m (count_invalidation (cpu v)) (L2Head (cpu v) b))
               [0..<KCR_L2_ENTRIES] s) (\<lambda>s.
      rbind (l3_socket v s) (\<lambda>i.
      rbind (rfold (\<lambda>b. flush_bucket m id (L3Head i b)) [0..<KCR_L3_ENTRIES] s) (\<lambda>s.
      rbind (ext_spin_lock i s) (\<lambda>s.
      rbind (rfold (free_ext_slot i) [0..<KCR_EXT_SLOTS] s) (\<lambda>s.
      Inr (ext_spin_unlock i s)))))))"

end
