(* ===== verification/Cache_Tier.thy ===== *)
theory Cache_Tier
  imports KCR_Cache
begin

text \<open>
  The contract of one cache tier taken alone: on a well-formed bucket, a lookup returns the first
  live entry with the key, and a store replaces the entry with the same key and puts the new one
  in front. The contract is the locale \<open>cache_tier\<close>; it is interpreted for the L2 tier and for the
  L3 tier of the model, and its consequences are proved once inside it.
\<close>

section \<open>What a store does in any state\<close>

lemma replace_in_bucketE:
  assumes "replace_in_bucket h p fp s = Inr t"
  obtains e s1 old s2 s3 where "\<not> lock (bucket_at s h)" "p \<noteq> NULL" "ent s p = Some e"
    and "s1 = put_bucket h ((bucket_at s h)\<lparr>lock := True\<rparr>) s"
    and "hlist_find (fuel s) (same_key fp (mm e)) s1 (hfirst s h) = Inr old"
    and "(if old \<noteq> NULL then rbind (hlist_del_rcu old s1) (call_rcu old) else Inr s1) = Inr s2"
    and "hlist_add_head_rcu p h s2 = Inr s3" and "t = spin_unlock h s3"
  using assms by (auto simp: replace_in_bucket_def res_simps)

lemma delete_and_queue_frame:
  "(if q \<noteq> NULL then rbind (hlist_del_rcu q s) (call_rcu q) else Inr s) = Inr t \<Longrightarrow>
   cache_frame s t \<and> stray t = stray s
   \<and> rcu_pending t = rcu_pending s @ (if q \<noteq> NULL then [q] else [])"
  by (auto simp: res_simps split: if_splits dest!: hlist_del_links_only
      intro: cache_frame_trans links_only_cache_frame simp: links_only_def)

lemma replace_in_bucket_frame:
  assumes "replace_in_bucket h p fp s = Inr t"
  shows "cache_frame s t" and "stray t = stray s" and "hfirst t h = p"
    and "p \<noteq> NULL"
proof -
  from assms obtain e s1 old s2 s3 where lk: "\<not> lock (bucket_at s h)" "p \<noteq> NULL"
    and s1: "s1 = put_bucket h ((bucket_at s h)\<lparr>lock := True\<rparr>) s"
    and s2: "(if old \<noteq> NULL then rbind (hlist_del_rcu old s1) (call_rcu old) else Inr s1) = Inr s2"
    and s3: "hlist_add_head_rcu p h s2 = Inr s3" and t: "t = spin_unlock h s3"
    by (rule replace_in_bucketE)
  from hlist_add_links_only [OF s3] have l3: "links_only s2 s3" .
  have "cache_frame s1 s3"
    using delete_and_queue_frame [OF s2] links_only_cache_frame [OF l3] cache_frame_trans by blast
  then show "cache_frame s t"
    unfolding t s1 using lk(1) by (intro critical_section_frame)
  show "stray t = stray s"
    using delete_and_queue_frame [OF s2] l3 by (simp add: t s1 links_only_def frame_simps)
  from hlist_add_okD [OF s3] have "p \<noteq> NULL" "ent s2 p \<noteq> None" "ptr_ok s2 (hfirst s2 h)" by auto
  from hlist_add_effect [OF this] s3 have "hfirst s3 = (hfirst s2)(h := p)" by auto
  then show "hfirst t h = p" by (simp add: t)
  show "p \<noteq> NULL" by (rule lk(2))
qed

section \<open>What a store does on a well-formed bucket\<close>

definition key_of :: "kcr_entry \<Rightarrow> u64 \<times> ptr" where
  "key_of e = (fingerprint e, mm e)"

lemma same_key_iff: "same_key fp m e \<longleftrightarrow> key_of e = (fp, m)"
  by (simp add: same_key_def key_of_def)

lemma payload_key:
  assumes "payload e = payload e'"
  shows "key_of e = key_of e'"
  by (simp add: key_of_def payload_eqD(1,2) [OF assms])

lemma remove1_split: "distinct (xs @ q # ys) \<Longrightarrow> remove1 q (xs @ q # ys) = xs @ ys"
  by (simp add: remove1_append)

lemma remove1_NULL: "hlist s h qs \<Longrightarrow> remove1 NULL qs = qs"
  using hlist_alloc by (intro remove1_idem) blast

text \<open>Deleting the first entry that satisfies a test, when it is on a well-formed list.\<close>

lemma delete_first_match:
  assumes wf: "hlist s h qs" and old: "old = first_match (ent s) P qs"
  shows "\<exists>t. (if old \<noteq> NULL then rbind (hlist_del_rcu old s) (call_rcu old) else Inr s) = Inr t
    \<and> hlist t h (remove1 old qs) \<and> (\<forall>h'. h' \<noteq> h \<longrightarrow> hfirst t h' = hfirst s h')
    \<and> (\<forall>q. q \<notin> set qs \<longrightarrow> ent t q = ent s q)"
proof (cases "old = NULL")
  case True
  then show ?thesis using wf remove1_NULL by auto
next
  case False
  from first_match_split [OF hlist_chain [OF wf] old [symmetric] False] obtain xs ys where
    qs: "qs = xs @ old # ys" by metis
  from hlist_del_spec [OF wf [unfolded qs]] obtain t e where
    t: "hlist_del_rcu old s = Inr t" "hlist t h (xs @ ys)"
    "\<forall>h'. h' \<noteq> h \<longrightarrow> hfirst t h' = hfirst s h'" "\<forall>q. q \<notin> set qs \<longrightarrow> ent t q = ent s q"
    "ent t old = Some (e\<lparr>node_pprev := LPoison2\<rparr>)"
    unfolding qs by blast
  have rm: "remove1 old qs = xs @ ys"
    using hlist_distinct [OF wf] unfolding qs by (rule remove1_split)
  let ?t = "t\<lparr>rcu_pending := rcu_pending t @ [old]\<rparr>"
  have "call_rcu old t = Inr ?t" using False t(5) by (simp add: call_rcu_Inr)
  with False t rm show ?thesis by (auto simp: hlist_def)
qed

lemma replace_in_bucket_spec:
  fixes fp :: u64
  assumes wf: "hlist s h qs" and free: "\<not> lock (bucket_at s h)"
    and p: "p \<noteq> NULL" "ent s p = Some e" "p \<notin> set qs"
  defines "old \<equiv> first_match (ent s) (same_key fp (mm e)) qs"
  shows "\<exists>t. replace_in_bucket h p fp s = Inr t \<and> hlist t h (p # remove1 old qs)
    \<and> (\<forall>h'. h' \<noteq> h \<longrightarrow> hfirst t h' = hfirst s h') \<and> (\<forall>q. q \<notin> set (p # qs) \<longrightarrow> ent t q = ent s q)
    \<and> rcu_pending t = rcu_pending s @ (if old \<noteq> NULL then [old] else [])"
proof -
  define s1 where "s1 = put_bucket h ((bucket_at s h)\<lparr>lock := True\<rparr>) s"
  have lk: "spin_lock h s = Inr s1" using free by (simp add: spin_lock_Inr s1_def)
  have wf1: "hlist s1 h qs" using wf by (simp add: hlist_def s1_def)
  have find: "hlist_find (fuel s1) (same_key fp (mm e)) s1 (hfirst s1 h) = Inr old"
    using hlist_find_total [OF hlist_chain [OF wf1]] by (simp add: s1_def old_def)
  have e1: "get_ent s1 p = Inr e" using p by (simp add: s1_def)
  have old1: "old = first_match (ent s1) (same_key fp (mm e)) qs" by (simp add: s1_def old_def)
  from delete_first_match [OF wf1 this] obtain s2 where
    s2: "(if old \<noteq> NULL then rbind (hlist_del_rcu old s1) (call_rcu old) else Inr s1) = Inr s2"
    "hlist s2 h (remove1 old qs)" "\<forall>h'. h' \<noteq> h \<longrightarrow> hfirst s2 h' = hfirst s1 h'"
    "\<forall>q. q \<notin> set qs \<longrightarrow> ent s2 q = ent s1 q" by blast
  have p2: "ent s2 p \<noteq> None" "p \<notin> set (remove1 old qs)"
    using s2(4) p set_remove1_subset [of old qs] by (auto simp: s1_def)
  from hlist_add_spec [OF s2(2) [unfolded hlist_def] p(1) p2] obtain s3 where
    s3: "hlist_add_head_rcu p h s2 = Inr s3" "hlist s3 h (p # remove1 old qs)"
    "links_only s2 s3" "hfirst s3 = (hfirst s2)(h := p)"
    "\<forall>q. q \<notin> set (p # remove1 old qs) \<longrightarrow> ent s3 q = ent s2 q" by blast
  have "replace_in_bucket h p fp s = Inr (spin_unlock h s3)"
    using lk find p s3(1) by (simp add: replace_in_bucket_def s2(1) e1)
  moreover have "rcu_pending s3 = rcu_pending s @ (if old \<noteq> NULL then [old] else [])"
    using delete_and_queue_frame [OF s2(1)] s3(3) by (simp add: links_only_def s1_def frame_simps)
  moreover have "ent s3 q = ent s q" if "q \<notin> set (p # qs)" for q
    using that s3(5) s2(4) set_remove1_subset [of old qs] by (auto simp: s1_def)
  ultimately show ?thesis
    using s2(3) s3(2,4) by (auto simp: hlist_def s1_def)
qed

text \<open>Once the first entry with a key is removed from a list of distinct keys, the key is gone.\<close>

definition entry_keys :: "cache_state \<Rightarrow> ptr list \<Rightarrow> (u64 \<times> ptr) option list" where
  "entry_keys s qs = map (\<lambda>q. map_option key_of (ent s q)) qs"

lemma entry_keys_simps [simp]:
  "entry_keys s [] = []"
  "entry_keys s (q # qs) = map_option key_of (ent s q) # entry_keys s qs"
  by (simp_all add: entry_keys_def)

lemma entry_keys_remove1: "distinct (entry_keys s qs) \<Longrightarrow> distinct (entry_keys s (remove1 q qs))"
  using set_remove1_subset [of q qs]
  by (auto simp: entry_keys_def distinct_map inj_on_def)

lemma entry_keys_frame: "cache_frame s t \<Longrightarrow> entry_keys t qs = entry_keys s qs"
proof -
  assume fr: "cache_frame s t"
  have "map_option key_of (ent t q) = map_option key_of (ent s q)" for q
  proof -
    have "map_option payload (ent t q) = map_option payload (ent s q)"
      using fr by (simp add: cache_frame_def)
    then show ?thesis by (cases "ent t q"; cases "ent s q") (auto dest: payload_key)
  qed
  then show ?thesis by (simp add: entry_keys_def)
qed

lemma removed_key_is_gone:
  assumes chain: "chain (ent s) p qs" and keys: "distinct (entry_keys s qs)"
    and old: "old = first_match (ent s) (same_key fp m) qs" and q: "q \<in> set (remove1 old qs)"
  shows "map_option key_of (ent s q) \<noteq> Some (fp, m)"
proof
  assume eq: "map_option key_of (ent s q) = Some (fp, m)"
  then obtain eq' where eq': "ent s q = Some eq'" "same_key fp m eq'"
    by (auto simp: same_key_iff)
  have qin: "q \<in> set qs" using q set_remove1_subset by fast
  show False
  proof (cases "old = NULL")
    case True
    then show False
      using first_match_NULL [OF chain, of "same_key fp m"] qin eq' old by auto
  next
    case False
    from first_match_split [OF chain old [symmetric] False] obtain xs ys eo where
      sp: "qs = xs @ old # ys" "ent s old = Some eo" "same_key fp m eo" by metis
    have "map_option key_of (ent s old) = map_option key_of (ent s q)"
      unfolding eq using sp by (simp add: same_key_iff)
    then have "q = old"
      using keys qin sp(1) by (auto simp: entry_keys_def distinct_map inj_on_def)
    then show False using q chain_distinct [OF chain] by simp
  qed
qed

lemma no_match_after_removal:
  assumes "chain (ent s) p qs" and "distinct (entry_keys s qs)"
    and "old = first_match (ent s) (same_key fp m) qs" and "chain g p' (remove1 old qs)"
    and "\<And>q. map_option key_of (g q) = map_option key_of (ent s q)"
  shows "first_match g (same_key fp m) (remove1 old qs) = NULL"
proof -
  have "\<not> same_key fp m e" if "q \<in> set (remove1 old qs)" "g q = Some e" for q e
  proof -
    have "map_option key_of (g q) \<noteq> Some (fp, m)"
      using removed_key_is_gone [OF assms(1-3) that(1)] assms(5) by simp
    with that(2) show ?thesis by (simp add: same_key_iff)
  qed
  then show ?thesis unfolding first_match_NULL [OF assms(4)] by blast
qed

lemma keys_after_replace:
  assumes "chain (ent s) q qs" and "distinct (entry_keys s qs)"
    and "old = first_match (ent s) (same_key fp (mm e)) qs"
    and "ent s p = Some e" and "fingerprint e = fp"
  shows "distinct (entry_keys s (p # remove1 old qs))"
proof -
  have "\<forall>q \<in> set (remove1 old qs). map_option key_of (ent s q) \<noteq> Some (fp, mm e)"
    using removed_key_is_gone [OF assms(1-3)] by blast
  then have "Some (fp, mm e) \<notin> set (entry_keys s (remove1 old qs))"
    unfolding entry_keys_def set_map by (metis (no_types, lifting) imageE)
  then show ?thesis
    using entry_keys_remove1 [OF assms(2)] assms(4,5) by (simp add: key_of_def)
qed

section \<open>The two tiers\<close>

definition socket_of :: "env \<Rightarrow> cache_state \<Rightarrow> nat" where
  "socket_of v s = nat (if num_sockets s \<le> node v then 0 else node v)"

definition l2_head :: "env \<Rightarrow> cache_state \<Rightarrow> u64 \<Rightarrow> hhead" where
  "l2_head v s fp = L2Head (cpu v) (l2_index fp)"

definition l3_head :: "env \<Rightarrow> cache_state \<Rightarrow> u64 \<Rightarrow> hhead" where
  "l3_head v s fp = L3Head (socket_of v s) (l3_index fp)"

text \<open>The arrays the functions index are allocated, and the CPU's node is a valid index.\<close>

definition l2_ready :: "env \<Rightarrow> cache_state \<Rightarrow> bool" where
  "l2_ready v s \<longleftrightarrow> caches s \<noteq> NULL"

definition l3_ready :: "env \<Rightarrow> cache_state \<Rightarrow> bool" where
  "l3_ready v s \<longleftrightarrow> l3_tables s \<noteq> NULL \<and> 0 < num_sockets s \<and> 0 \<le> node v"

definition l2_find :: "env \<Rightarrow> u64 \<Rightarrow> ptr \<Rightarrow> cache_state \<Rightarrow> ptr res" where
  "l2_find v fp m s = rbind (lookup_l2 v (cpu v) fp m s) (\<lambda>(p, _). Inr p)"

definition l2_store :: "env \<Rightarrow> ptr \<Rightarrow> u64 \<Rightarrow> cache_state \<Rightarrow> cache_state res" where
  "l2_store v = store_in_l2 (cpu v)"

lemma l3_socket_ready: "l3_ready v s \<Longrightarrow> l3_socket v s = Inr (socket_of v s)"
  by (auto simp: l3_ready_def l3_socket_def socket_of_def Let_def)

lemma l3_socket_Inr:
  "l3_socket v s = Inr i \<longleftrightarrow> l3_ready v s \<and> i = socket_of v s"
proof
  assume "l3_socket v s = Inr i"
  then show "l3_ready v s \<and> i = socket_of v s"
    by (auto simp: l3_ready_def l3_socket_def socket_of_def Let_def split: if_splits)
qed (simp add: l3_socket_ready)

lemma frame_socket: "cache_frame s t \<Longrightarrow> socket_of v t = socket_of v s"
  by (simp add: cache_frame_def socket_of_def)

lemma frame_ready: "cache_frame s t \<Longrightarrow> l2_ready v t = l2_ready v s \<and> l3_ready v t = l3_ready v s"
  by (simp add: cache_frame_def l2_ready_def l3_ready_def)

lemma l2_find_chain:
  assumes "l2_ready v s" and "chain (ent s) (hfirst s (l2_head v s fp)) qs"
  shows "l2_find v fp m s = Inr (first_match (ent s) (live_match fp m (jiffies v)) qs)"
  using assms hlist_find_total [OF assms(2), of "live_match fp m (jiffies v)"]
  by (simp add: l2_find_def lookup_l2_def l2_ready_def l2_head_def)

lemma lookup_l3_chain:
  assumes "l3_ready v s" and "chain (ent s) (hfirst s (l3_head v s fp)) qs"
  shows "lookup_l3 v fp m s = Inr (first_match (ent s) (live_match fp m (jiffies v)) qs)"
  using assms hlist_find_total [OF assms(2), of "live_match fp m (jiffies v)"]
  by (simp add: lookup_l3_def l3_socket_ready l3_head_def)

section \<open>The contract\<close>

locale cache_tier =
  fixes head_of :: "env \<Rightarrow> cache_state \<Rightarrow> u64 \<Rightarrow> hhead"
    and ready :: "env \<Rightarrow> cache_state \<Rightarrow> bool"
    and find_in :: "env \<Rightarrow> u64 \<Rightarrow> ptr \<Rightarrow> cache_state \<Rightarrow> ptr res"
    and store_in :: "env \<Rightarrow> ptr \<Rightarrow> u64 \<Rightarrow> cache_state \<Rightarrow> cache_state res"
  assumes find_law: "ready v s \<Longrightarrow> hlist s (head_of v s fp) qs \<Longrightarrow>
      find_in v fp m s = Inr (first_match (ent s) (live_match fp m (jiffies v)) qs)"
    and store_law: "ready v s \<Longrightarrow> hlist s (head_of v s fp) qs \<Longrightarrow>
      \<not> lock (bucket_at s (head_of v s fp)) \<Longrightarrow> p \<noteq> NULL \<Longrightarrow> ent s p = Some e \<Longrightarrow> p \<notin> set qs \<Longrightarrow>
      \<exists>t. store_in v p fp s = Inr t
        \<and> hlist t (head_of v s fp) (p # remove1 (first_match (ent s) (same_key fp (mm e)) qs) qs)
        \<and> (\<forall>q. q \<notin> set (p # qs) \<longrightarrow> ent t q = ent s q)"
    and store_frame: "store_in v p fp s = Inr t \<Longrightarrow> cache_frame s t"
    and frame_head: "cache_frame s t \<Longrightarrow> head_of v t fp = head_of v s fp"
    and frame_keeps_ready: "cache_frame s t \<Longrightarrow> ready v s \<Longrightarrow> ready v t"
begin

text \<open>After a store, a lookup of the same key in the same context finds the stored entry.\<close>

lemma store_then_find:
  assumes "ready v s" and "hlist s (head_of v s fp) qs" and "\<not> lock (bucket_at s (head_of v s fp))"
    and "p \<noteq> NULL" and "ent s p = Some e" and "p \<notin> set qs"
    and "fingerprint e = fp" and "time_before (jiffies w) (expiry_jiffies e)"
    and "head_of w s fp = head_of v s fp" and "ready w s"
  shows "\<exists>t. store_in v p fp s = Inr t \<and> find_in w fp (mm e) t = Inr p"
proof -
  from store_law [OF assms(1-6)] obtain t rs where t: "store_in v p fp s = Inr t"
    "hlist t (head_of v s fp) (p # rs)" by blast
  note fr = store_frame [OF t(1)]
  from cache_frame_ent [OF fr assms(5)] obtain e' where
    e': "ent t p = Some e'" "payload e' = payload e" by blast
  have "live_match fp (mm e) (jiffies w) e'"
    using assms(7,8) payload_eqD [OF e'(2)] by (simp add: live_match_def)
  then have "first_match (ent t) (live_match fp (mm e) (jiffies w)) (p # rs) = p"
    using e'(1) by (simp add: first_match_def)
  moreover have "hlist t (head_of w t fp) (p # rs)"
    using t(2) frame_head [OF fr] assms(9) by simp
  ultimately show ?thesis
    using t(1) find_law [OF frame_keeps_ready [OF fr assms(10)]] by metis
qed

text \<open>A store keeps the bucket free of duplicate keys.\<close>

lemma store_keeps_keys_distinct:
  assumes "ready v s" and "hlist s (head_of v s fp) qs" and "\<not> lock (bucket_at s (head_of v s fp))"
    and "p \<noteq> NULL" and "ent s p = Some e" and "p \<notin> set qs" and "fingerprint e = fp"
    and "distinct (entry_keys s qs)"
  shows "\<exists>t rs. store_in v p fp s = Inr t \<and> hlist t (head_of v s fp) (p # rs) \<and> set rs \<subseteq> set qs
    \<and> distinct (entry_keys t (p # rs))"
proof -
  define old where "old = first_match (ent s) (same_key fp (mm e)) qs"
  from store_law [OF assms(1-6)] obtain t where t: "store_in v p fp s = Inr t"
    "hlist t (head_of v s fp) (p # remove1 old qs)" unfolding old_def by blast
  note same = entry_keys_frame [OF store_frame [OF t(1)]]
  have "distinct (entry_keys t (p # remove1 old qs))"
    unfolding same
    by (rule keys_after_replace [OF hlist_chain [OF assms(2)] assms(8) old_def assms(5,7)])
  then show ?thesis
    using t by (intro exI [of _ t] exI [of _ "remove1 old qs"]) (simp add: set_remove1_subset)
qed

end

interpretation l2: cache_tier l2_head l2_ready l2_find l2_store
proof
  fix v s fp qs m
  assume "l2_ready v s" "hlist s (l2_head v s fp) qs"
  then show "l2_find v fp m s = Inr (first_match (ent s) (live_match fp m (jiffies v)) qs)"
    by (intro l2_find_chain hlist_chain)
next
  fix v s fp qs p e
  assume *: "l2_ready v s" "hlist s (l2_head v s fp) qs" "\<not> lock (bucket_at s (l2_head v s fp))"
    "p \<noteq> NULL" "ent s p = Some e" "p \<notin> set qs"
  then show "\<exists>t. l2_store v p fp s = Inr t
        \<and> hlist t (l2_head v s fp) (p # remove1 (first_match (ent s) (same_key fp (mm e)) qs) qs)
        \<and> (\<forall>q. q \<notin> set (p # qs) \<longrightarrow> ent t q = ent s q)"
    using replace_in_bucket_spec [OF *(2-6), of fp]
    by (auto simp: l2_store_def store_in_l2_def l2_ready_def l2_head_def)
qed (auto simp: l2_store_def store_in_l2_def l2_head_def frame_ready split: if_splits
    dest: replace_in_bucket_frame)

interpretation l3: cache_tier l3_head l3_ready lookup_l3 store_in_l3
proof
  fix v s fp qs m
  assume "l3_ready v s" "hlist s (l3_head v s fp) qs"
  then show "lookup_l3 v fp m s = Inr (first_match (ent s) (live_match fp m (jiffies v)) qs)"
    by (intro lookup_l3_chain hlist_chain)
next
  fix v s fp qs p e
  assume *: "l3_ready v s" "hlist s (l3_head v s fp) qs" "\<not> lock (bucket_at s (l3_head v s fp))"
    "p \<noteq> NULL" "ent s p = Some e" "p \<notin> set qs"
  then show "\<exists>t. store_in_l3 v p fp s = Inr t
        \<and> hlist t (l3_head v s fp) (p # remove1 (first_match (ent s) (same_key fp (mm e)) qs) qs)
        \<and> (\<forall>q. q \<notin> set (p # qs) \<longrightarrow> ent t q = ent s q)"
    using replace_in_bucket_spec [OF *(2-6), of fp]
    by (auto simp: store_in_l3_def l3_socket_ready l3_head_def)
qed (auto simp: store_in_l3_def l3_head_def frame_ready frame_socket res_simps
    dest: replace_in_bucket_frame)

end
