(* ===== verification/KCR_Core.thy ===== *)
theory KCR_Core
  imports KCR_Types
begin

text \<open>
  \<open>kernel/kcr/kcr_core.c\<close>: fingerprints, entry validation and result injection. The hash function
  \<open>xxh64\<close> of the kernel library is the parameter \<open>xxh\<close> (input bytes, then seed); the values the
  crypto API returns for a request are the fields of \<open>skcipher_request\<close>.
\<close>

section \<open>Fingerprints\<close>

text \<open>\<open>data\<close> is the memory behind the pointer; reading past its end is a fault.\<close>

definition compute_fingerprint ::
    "(u8 list \<Rightarrow> u64 \<Rightarrow> u64) \<Rightarrow> u8 list \<Rightarrow> nat \<Rightarrow> u64 \<Rightarrow> u64 res" where
  "compute_fingerprint xxh data len seed =
     (if len \<le> length data then Inr (xxh (take len data) seed) else Inl OutOfBounds)"

text \<open>
  A request as the function sees it: \<open>alg\<close> is \<open>crypto_skcipher_alg(tfm)\<close>, \<open>max_keysize\<close> is
  \<open>crypto_skcipher_max_keysize(tfm)\<close>, \<open>src_data\<close> the memory at \<open>sg_virt(req->src)\<close> (None for NULL).
  \<open>tfm_key\<close> (the key set on the transform) and \<open>iv\<close> are the parts of a request it does not read.
\<close>

record skcipher_request =
  alg :: ptr
  max_keysize :: u32
  cryptlen :: u32
  src_data :: "u8 list option"
  tfm_key :: "u8 list"
  iv :: "u8 list"

text \<open>The local struct \<open>input\<close>: 8 + 4 + 4 + 8 bytes without padding.\<close>

definition crypto_input :: "ptr \<Rightarrow> u32 \<Rightarrow> u32 \<Rightarrow> u64 \<Rightarrow> u8 list" where
  "crypto_input algo keylen clen src_hash =
     le_bytes 8 (unat algo) @ le_bytes 4 (unat keylen) @ le_bytes 4 (unat clen)
     @ le_bytes 8 (unat src_hash)"

definition crypto_compute_fingerprint ::
    "(u8 list \<Rightarrow> u64 \<Rightarrow> u64) \<Rightarrow> skcipher_request option \<Rightarrow> u64 res" where
  "crypto_compute_fingerprint xxh req =
     (case req of
        None \<Rightarrow> Inr 0
      | Some r \<Rightarrow>
          rbind (case src_data r of
                   Some d \<Rightarrow> compute_fingerprint xxh d (min (unat (cryptlen r)) 64) KCR_SEED_CRYPTO
                 | None \<Rightarrow> Inr 0)
            (\<lambda>src_hash.
              let input = crypto_input (alg r) (max_keysize r) (cryptlen r) src_hash
              in compute_fingerprint xxh input (length input) KCR_SEED_BASE))"

section \<open>Entry validation\<close>

text \<open>
  \<open>jiffies\<close> is the clock when the function runs; the entry pointer is None for NULL. Since
  \<open>mm->kcr_generation\<close> does not exist, the generation compared is the pointer value of \<open>mm\<close>.
\<close>

definition validate_entry :: "u64 \<Rightarrow> kcr_entry option \<Rightarrow> ptr \<Rightarrow> bool" where
  "validate_entry jiffies entry m =
     (case entry of
        None \<Rightarrow> False
      | Some e \<Rightarrow>
          if m = NULL then False
          else if mm_generation e \<noteq> m then False
          else if mm e \<noteq> m then False
          else if time_after jiffies (expiry_jiffies e) then False
          else True)"

section \<open>Result injection\<close>

text \<open>The fields of \<open>struct pt_regs\<close> the function touches.\<close>

record pt_regs =
  ax :: u64
  bx :: u64
  cx :: u64
  dx :: u64
  si :: u64
  di :: u64
  bp :: u64
  sp :: u64
  ip :: u64

text \<open>
  The mask is read from the entry in the declaration, before the NULL checks. The result is the
  new register file; \<open>Inr None\<close> is the early return on a NULL \<open>regs\<close>.
\<close>

definition inject_result :: "pt_regs option \<Rightarrow> kcr_entry option \<Rightarrow> pt_regs option res" where
  "inject_result regs entry =
     (case entry of
        None \<Rightarrow> Inl NullDeref
      | Some e \<Rightarrow>
          let mask = register_mask e in
          case regs of
            None \<Rightarrow> Inr None
          | Some r \<Rightarrow>
              let r = (if mask AND KCR_MASK_RAX \<noteq> 0 then r\<lparr>ax := result e 0\<rparr> else r);
                  r = (if mask AND KCR_MASK_RBX \<noteq> 0 then r\<lparr>bx := result e 1\<rparr> else r);
                  r = (if mask AND KCR_MASK_RCX \<noteq> 0 then r\<lparr>cx := result e 2\<rparr> else r);
                  r = (if mask AND KCR_MASK_RDX \<noteq> 0 then r\<lparr>dx := result e 3\<rparr> else r);
                  r = (if mask AND KCR_MASK_RSI \<noteq> 0 then r\<lparr>si := result e 4\<rparr> else r);
                  r = (if mask AND KCR_MASK_RDI \<noteq> 0 then r\<lparr>di := result e 5\<rparr> else r);
                  r = (if mask AND KCR_MASK_RBP \<noteq> 0 then r\<lparr>bp := result e 6\<rparr> else r);
                  r = (if mask AND KCR_MASK_RSP \<noteq> 0 then r\<lparr>sp := result e 7\<rparr> else r)
              in Inr (Some (r\<lparr>ip := ip r + ucast (fragment_length e)\<rparr>)))"

section \<open>Lemmas\<close>

lemma length_crypto_input [simp]: "length (crypto_input a k c h) = 24"
  by (simp add: crypto_input_def)

lemma le_bytes_word_inject:
  fixes v w :: "'a::len word"
  assumes "le_bytes k (unat v) = le_bytes k (unat w)" and "2 ^ LENGTH('a) \<le> (256 ^ k :: nat)"
  shows "v = w"
proof -
  have "unat v < 2 ^ LENGTH('a)" and "unat w < 2 ^ LENGTH('a)"
    by (rule unsigned_less)+
  then have "unat v < 256 ^ k" and "unat w < 256 ^ k"
    using assms(2) by linarith+
  with assms(1) show ?thesis by (simp add: le_bytes_inject word_unat_eq_iff)
qed

lemma crypto_input_inject:
  "crypto_input a k c h = crypto_input a' k' c' h' \<longleftrightarrow> a = a' \<and> k = k' \<and> c = c' \<and> h = h'"
proof
  assume "crypto_input a k c h = crypto_input a' k' c' h'"
  then have "le_bytes 8 (unat a) = le_bytes 8 (unat a')" "le_bytes 4 (unat k) = le_bytes 4 (unat k')"
    "le_bytes 4 (unat c) = le_bytes 4 (unat c')" "le_bytes 8 (unat h) = le_bytes 8 (unat h')"
    by (simp_all add: crypto_input_def)
  then show "a = a' \<and> k = k' \<and> c = c' \<and> h = h'"
    by (auto dest: le_bytes_word_inject)
qed simp

lemma mask_bit: "(m :: u8) AND push_bit n 1 \<noteq> 0 \<longleftrightarrow> bit m n"
  by (simp add: and_exp_eq_0_iff_not_bit push_bit_eq_mult)

lemma crypto_fp_Some:
  "crypto_compute_fingerprint xxh (Some r) =
     rbind (case src_data r of
              Some d \<Rightarrow> compute_fingerprint xxh d (min (unat (cryptlen r)) 64) KCR_SEED_CRYPTO
            | None \<Rightarrow> Inr 0)
       (\<lambda>h. Inr (xxh (crypto_input (alg r) (max_keysize r) (cryptlen r) h) KCR_SEED_BASE))"
  by (simp add: crypto_compute_fingerprint_def compute_fingerprint_def Let_def)

section \<open>Properties\<close>

text \<open>
  The crypto fingerprint depends on the request only through the algorithm, the
  algorithm's maximal key size, the length and the first \<open>min(cryptlen, 64)\<close> source bytes: two
  requests that agree on these get the same result whatever their keys, IVs and remaining data.
\<close>

lemma crypto_fingerprint_determined:
  assumes "alg r = alg r'" and "max_keysize r = max_keysize r'" and "cryptlen r = cryptlen r'"
    and "src_data r = Some d" and "src_data r' = Some d'"
    and "take 64 (take (unat (cryptlen r)) d) = take 64 (take (unat (cryptlen r)) d')"
    and "min (unat (cryptlen r)) 64 \<le> length d" and "min (unat (cryptlen r)) 64 \<le> length d'"
  shows "crypto_compute_fingerprint xxh (Some r) = crypto_compute_fingerprint xxh (Some r')"
  using assms by (simp add: crypto_fp_Some compute_fingerprint_def min.commute)

text \<open>
  If two requests get the same fingerprint then they agree on the algorithm, the
  maximal key size, the length and the hash of the source sample, or the two 24-byte input
  blocks are a collision of the hash function: the block is an injective encoding of its fields.
\<close>

lemma crypto_fingerprint_separates:
  assumes "crypto_compute_fingerprint xxh (Some r) = Inr v"
    and "crypto_compute_fingerprint xxh (Some r') = Inr v"
  shows "(alg r = alg r' \<and> max_keysize r = max_keysize r' \<and> cryptlen r = cryptlen r')
    \<or> (\<exists>b b'. b \<noteq> b' \<and> length b = 24 \<and> length b' = 24
          \<and> xxh b KCR_SEED_BASE = xxh b' KCR_SEED_BASE)"
proof -
  from assms obtain h h' where
    "xxh (crypto_input (alg r) (max_keysize r) (cryptlen r) h) KCR_SEED_BASE = v"
    "xxh (crypto_input (alg r') (max_keysize r') (cryptlen r') h') KCR_SEED_BASE = v"
    by (auto simp: crypto_fp_Some rbind_Inr_iff)
  then show ?thesis
    by (metis crypto_input_inject length_crypto_input)
qed

text \<open>
  C38. Result injection writes register \<open>i\<close> (RAX, RBX, RCX, RDX, RSI, RDI, RBP, RSP) from
  \<open>result[i]\<close> exactly if bit \<open>i\<close> of the mask is set, leaves every other register as it was, and
  advances the instruction pointer by the zero-extended fragment length.
\<close>

theorem inject_result_registers:
  "inject_result (Some r) (Some e) = Inr (Some
     \<lparr>ax = (if bit (register_mask e) 0 then result e 0 else ax r),
      bx = (if bit (register_mask e) 1 then result e 1 else bx r),
      cx = (if bit (register_mask e) 2 then result e 2 else cx r),
      dx = (if bit (register_mask e) 3 then result e 3 else dx r),
      si = (if bit (register_mask e) 4 then result e 4 else si r),
      di = (if bit (register_mask e) 5 then result e 5 else di r),
      bp = (if bit (register_mask e) 6 then result e 6 else bp r),
      sp = (if bit (register_mask e) 7 then result e 7 else sp r),
      ip = ip r + ucast (fragment_length e), \<dots> = pt_regs.more r\<rparr>)"
  unfolding inject_result_def mask_defs mask_bit by (simp add: Let_def)

text \<open>
  The NULL check of the entry comes after its first use: a NULL entry faults, whether or not \<open>regs\<close>
  is NULL, while a NULL \<open>regs\<close> with an entry returns without effect.
\<close>

lemma inject_result_null:
  "inject_result regs None = Inl NullDeref \<and> inject_result None (Some e) = Inr None"
  by (simp add: inject_result_def)

end
