(* ===== verification/Cache_Ops.thy ===== *)
theory Cache_Ops
  imports Cache_Tier KCR_Core
begin

text \<open>
  What the exported cache operations guarantee in any state of the heap, well formed or not:
  soundness and accounting of lookups, the error returns of \<open>store_result\<close>, what ends up in the
  stored entry, and that a lookup right after a store hits.
\<close>

section \<open>A cache just initialised\<close>

text \<open>
  The state \<open>kcr_init\<close> leaves: both arrays allocated, every bucket empty and unlocked, no external
  slot in use (\<open>KCR_Main\<close> proves that it does when the allocators return zeroed memory). \<open>ctx\<close> is a context on node 0 with 250 ticks a second,
  for the concrete runs.
\<close>

definition fresh_cache :: "ptr \<Rightarrow> ptr \<Rightarrow> int \<Rightarrow> cache_state" where
  "fresh_cache c t n = \<lparr>
     caches = c,
     percpu = (\<lambda>_. \<lparr>l2 = (\<lambda>_. \<lparr>head = NULL, lock = False\<rparr>),
                    stats = \<lparr>l2_hits = 0, l3_hits = 0, misses = 0, invalidations = 0, cycles_saved = 0\<rparr>\<rparr>),
     stray = (\<lambda>_. \<lparr>l2_hits = 0, l3_hits = 0, misses = 0, invalidations = 0, cycles_saved = 0\<rparr>),
     l3_tables = t,
     tables = (\<lambda>i. \<lparr>buckets = (\<lambda>_. \<lparr>head = NULL, lock = False\<rparr>), ext_slots = (\<lambda>_. NULL),
                    ext_slot_size = (\<lambda>_. 0), ext_lock = False,
                    socket_id = (if int i < n then word_of_nat i else 0)\<rparr>),
     num_sockets = n, entries = [], bufs = [], rcu_pending = []\<rparr>"

definition ctx :: "nat \<Rightarrow> u64 \<Rightarrow> ptr \<Rightarrow> ptr \<Rightarrow> env" where
  "ctx c j p b = \<lparr>cpu = c, node = 0, jiffies = j, msecs_to_jiffies = (\<lambda>_. 250), cur_pid = 1,
     cur_pid_ns = 4096, kzalloc_ret = p, kvmalloc_ret = b\<rparr>"

lemma ctx_simps:
  "cpu (ctx k j p b) = k" "node (ctx k j p b) = 0" "jiffies (ctx k j p b) = j"
  by (simp_all add: ctx_def)

text \<open>The state after a run, when no operation of it faulted.\<close>

definition store_run :: "env \<Rightarrow> u64 \<Rightarrow> u8 list \<Rightarrow> ptr \<Rightarrow> cache_state \<Rightarrow> cache_state res" where
  "store_run v fp d m s =
     rbind (store_result v fp (Some d) (word_of_nat (length d)) m s) (\<lambda>(_, s). Inr s)"

definition lookup_run :: "env \<Rightarrow> u64 \<Rightarrow> ptr \<Rightarrow> cache_state \<Rightarrow> cache_state res" where
  "lookup_run v fp m s = rbind (lookup_unified v fp m s) (\<lambda>(_, s). Inr s)"

section \<open>The tiers on well-formed buckets\<close>

text \<open>
  A store in L2 is seen by the next lookup in L2: on a well-formed bucket of the CPU, storing an
  unlinked entry succeeds, and a lookup of its key on that CPU before its expiry returns exactly
  that entry, whatever older entry with the key the bucket held.
\<close>

lemma l2_store_then_lookup:
  assumes "l2_ready v s" and "hlist s (l2_head v s fp) qs" and "\<not> lock (bucket_at s (l2_head v s fp))"
    and "p \<noteq> NULL" and "ent s p = Some e" and "p \<notin> set qs" and "fingerprint e = fp"
    and "time_before (jiffies w) (expiry_jiffies e)" and "cpu w = cpu v"
  shows "\<exists>t u. store_in_l2 (cpu v) p fp s = Inr t \<and> lookup_l2 w (cpu w) fp (mm e) t = Inr (p, u)"
proof -
  have h: "l2_head w s fp = l2_head v s fp" using assms(9) by (simp add: l2_head_def)
  have r: "l2_ready w s" using assms(1) by (simp add: l2_ready_def)
  from l2.store_then_find [OF assms(1-8) h r] show ?thesis
    by (auto simp: l2_store_def l2_find_def rbind_Inr_iff)
qed

text \<open>
  L3 buckets hold one entry per key: on a well-formed bucket without duplicate keys, a store of
  an unlinked entry succeeds and leaves a well-formed bucket without duplicates, with the new
  entry first and otherwise only entries that were there before.
\<close>

lemma l3_store_keeps_keys_distinct:
  assumes "l3_ready v s" and "hlist s (l3_head v s fp) qs" and "\<not> lock (bucket_at s (l3_head v s fp))"
    and "p \<noteq> NULL" and "ent s p = Some e" and "p \<notin> set qs" and "fingerprint e = fp"
    and "distinct (entry_keys s qs)"
  shows "\<exists>t rs. store_in_l3 v p fp s = Inr t \<and> hlist t (l3_head v s fp) (p # rs) \<and> set rs \<subseteq> set qs
    \<and> distinct (entry_keys t (p # rs))"
  by (rule l3.store_keeps_keys_distinct [OF assms])

section \<open>Lookups\<close>

lemma lookup_l2_Inr:
  "lookup_l2 v c fp m s = Inr (p, t) \<Longrightarrow>
     caches s \<noteq> NULL
     \<and> hlist_find (fuel s) (live_match fp m (jiffies v)) s (hfirst s (L2Head c (l2_index fp))) = Inr p
     \<and> t = (if p \<noteq> NULL then upd_stats c (\<lambda>st. st\<lparr>l2_hits := l2_hits st + 1\<rparr>) s else s)"
  by (auto simp: lookup_l2_def res_simps split: if_splits)

lemma promote_frame:
  assumes "promote_to_l2 c p fp s = Inr t"
  shows "cache_frame s t" and "stray t = stray s"
    and "rcu_pending t = rcu_pending s"
proof -
  let ?h = "L2Head c (l2_index fp)"
  define s1 where "s1 = put_bucket ?h ((bucket_at s ?h)\<lparr>lock := True\<rparr>) s"
  from assms obtain s2 s3 where lk: "\<not> lock (bucket_at s ?h)"
    and s2: "hlist_del_rcu p s1 = Inr s2" and s3: "hlist_add_head_rcu p ?h s2 = Inr s3"
    and t: "t = spin_unlock ?h s3"
    by (auto simp: promote_to_l2_def Let_def res_simps s1_def)
  have l: "links_only s1 s3"
    using hlist_del_links_only [OF s2] hlist_add_links_only [OF s3] by (rule links_only_trans)
  from links_only_cache_frame [OF l] show "cache_frame s t"
    unfolding t s1_def using lk by (intro critical_section_frame)
  show "stray t = stray s" "rcu_pending t = rcu_pending s"
    using l by (simp_all add: t s1_def links_only_def frame_simps)
qed

text \<open>The three outcomes of a lookup.\<close>

lemma lookup_unified_cases:
  assumes "lookup_unified v fp m s = Inr (p, t)"
  obtains (l2_hit) "p \<noteq> NULL" "lookup_l2 v (cpu v) fp m s = Inr (p, t)"
  | (l3_hit) s' where "p \<noteq> NULL" "lookup_l2 v (cpu v) fp m s = Inr (NULL, s)"
      "lookup_l3 v fp m s = Inr p" "promote_to_l2 (cpu v) p fp s = Inr s'"
      "t = upd_stats (cpu v) (\<lambda>st. st\<lparr>l3_hits := l3_hits st + 1\<rparr>) s'"
  | (miss) "p = NULL" "lookup_l2 v (cpu v) fp m s = Inr (NULL, s)"
      "lookup_l3 v fp m s = Inr NULL"
      "t = upd_stats (cpu v) (\<lambda>st. st\<lparr>misses := misses st + 1\<rparr>) s"
proof -
  from assms obtain q u where l2: "lookup_l2 v (cpu v) fp m s = Inr (q, u)"
    and k: "(if q \<noteq> NULL then Inr (q, u) else
       rbind (lookup_l3 v fp m u) (\<lambda>p.
         if p \<noteq> NULL
         then rbind (promote_to_l2 (cpu v) p fp u) (\<lambda>s.
                Inr (p, upd_stats (cpu v) (\<lambda>st. st\<lparr>l3_hits := l3_hits st + 1\<rparr>) s))
         else Inr (NULL, upd_stats (cpu v) (\<lambda>st. st\<lparr>misses := misses st + 1\<rparr>) u))) = Inr (p, t)"
    by (auto simp: lookup_unified_def res_simps)
  show thesis
  proof (cases "q = NULL")
    case False
    with k l2 show thesis by (intro l2_hit) auto
  next
    case True
    then have "u = s" using lookup_l2_Inr [OF l2] by simp
    with True k l2 l3_hit miss show thesis by (auto simp: res_simps split: if_splits)
  qed
qed

lemma lookup_unified_frame:
  assumes "lookup_unified v fp m s = Inr (p, t)"
  shows "cache_frame s t" and "rcu_pending t = rcu_pending s"
  using assms
  by (cases rule: lookup_unified_cases;
      auto dest!: lookup_l2_Inr dest: promote_frame intro: cache_frame_trans split: if_splits)+

lemma lookup_hit_live:
  assumes "lookup_unified v fp m s = Inr (p, t)" and "p \<noteq> NULL"
  shows "\<exists>e. ent s p = Some e \<and> live_match fp m (jiffies v) e"
  using assms(1)
proof (cases rule: lookup_unified_cases)
  case l2_hit
  then show ?thesis using lookup_l2_Inr hlist_find_sound assms(2) by blast
next
  case (l3_hit s')
  then show ?thesis
    using hlist_find_sound assms(2) by (auto simp: lookup_l3_def rbind_Inr_iff)
next
  case miss
  with assms(2) show ?thesis by simp
qed

text \<open>
  C19. Soundness and isolation of lookups: in any state of the heap, an entry returned by
  \<open>lookup_unified\<close> is allocated, has the fingerprint asked for, belongs to the memory space asked
  for, and has not expired.
\<close>

theorem lookup_sound:
  assumes "lookup_unified v fp m s = Inr (p, t)" and "p \<noteq> NULL"
  shows "\<exists>e. ent t p = Some e \<and> fingerprint e = fp \<and> mm e = m
    \<and> time_before (jiffies v) (expiry_jiffies e)"
proof -
  have "\<exists>e. ent s p = Some e \<and> live_match fp m (jiffies v) e" by (rule lookup_hit_live [OF assms])
  then obtain e where e: "ent s p = Some e" "live_match fp m (jiffies v) e" by blast
  from cache_frame_ent [OF lookup_unified_frame(1) [OF assms(1)] e(1)] obtain e' where
    e': "ent t p = Some e'" "payload e' = payload e" by blast
  with e(2) payload_eqD [OF e'(2)] show ?thesis by (auto simp: live_match_def)
qed

theorem lookup_sound_witness:
  "\<exists>p t e. rbind (store_run (ctx 0 100 8192 0) 5 [1, 2, 3] 4096 (fresh_cache 16 32 1))
       (lookup_unified (ctx 1 120 0 0) 5 4096) = Inr (p, t)
     \<and> ent t p = Some e \<and> fingerprint e = 5 \<and> mm e = 4096"
proof -
  let ?r = "store_run (ctx 0 100 8192 0) 5 [1, 2, 3] 4096 (fresh_cache 16 32 1)"
  obtain s where s: "?r = Inr s"
  proof -
    have "\<not> isl ?r" by code_simp
    then show thesis using that by (cases ?r) auto
  qed
  have "map_sum id fst (rbind ?r (lookup_unified (ctx 1 120 0 0) 5 4096)) = Inr 8192" by code_simp
  then obtain t where t: "lookup_unified (ctx 1 120 0 0) 5 4096 s = Inr (8192, t)"
    unfolding s by (cases "lookup_unified (ctx 1 120 0 0) 5 4096 s") auto
  from lookup_sound [OF t] obtain e where "ent t 8192 = Some e" "fingerprint e = 5" "mm e = 4096"
    by auto
  with s t show ?thesis by auto
qed

text \<open>
  C21. Accounting: a lookup that returns increments exactly one word, the one for \<open>l2_hits\<close> if the
  walk of the L2 bucket finds the entry, the one for \<open>l3_hits\<close> if only the walk of the L3 bucket does,
  and the one for \<open>misses\<close> if neither does. But none of these words is a counter of the per-CPU area:
  all of those keep their values.
\<close>

theorem lookup_accounting:
  assumes "lookup_unified v fp m s = Inr (p, t)"
  shows "(\<forall>c. stats (percpu t c) = stats (percpu s c))
    \<and> (\<forall>c. c \<noteq> cpu v \<longrightarrow> stray t c = stray s c)
    \<and> (let a = stray s (cpu v);
           walk = hlist_find (fuel s) (live_match fp m (jiffies v)) s in
        if walk (hfirst s (L2Head (cpu v) (l2_index fp))) \<noteq> Inr NULL
        then stray t (cpu v) = a\<lparr>l2_hits := l2_hits a + 1\<rparr>
        else if rbind (l3_socket v s) (\<lambda>i. walk (hfirst s (L3Head i (l3_index fp)))) \<noteq> Inr NULL
        then stray t (cpu v) = a\<lparr>l3_hits := l3_hits a + 1\<rparr>
        else stray t (cpu v) = a\<lparr>misses := misses a + 1\<rparr>)"
proof (intro conjI)
  show "\<forall>c. stats (percpu t c) = stats (percpu s c)"
    using lookup_unified_frame(1) [OF assms] by (simp add: cache_frame_def)
  show "\<forall>c. c \<noteq> cpu v \<longrightarrow> stray t c = stray s c"
    using assms by (cases rule: lookup_unified_cases) (auto dest!: lookup_l2_Inr dest: promote_frame(2))
  show "let a = stray s (cpu v);
           walk = hlist_find (fuel s) (live_match fp m (jiffies v)) s in
        if walk (hfirst s (L2Head (cpu v) (l2_index fp))) \<noteq> Inr NULL
        then stray t (cpu v) = a\<lparr>l2_hits := l2_hits a + 1\<rparr>
        else if rbind (l3_socket v s) (\<lambda>i. walk (hfirst s (L3Head i (l3_index fp)))) \<noteq> Inr NULL
        then stray t (cpu v) = a\<lparr>l3_hits := l3_hits a + 1\<rparr>
        else stray t (cpu v) = a\<lparr>misses := misses a + 1\<rparr>"
    using assms
  proof (cases rule: lookup_unified_cases)
    case l2_hit
    then show ?thesis using lookup_l2_Inr [OF l2_hit(2)] by simp
  next
    case (l3_hit s')
    then show ?thesis
      using lookup_l2_Inr [OF l3_hit(2)] promote_frame(2) [OF l3_hit(4)] by (simp add: lookup_l3_def)
  next
    case miss
    then show ?thesis using lookup_l2_Inr [OF miss(2)] by (simp add: lookup_l3_def)
  qed
qed

theorem lookup_accounting_witness:
  "\<exists>s t. store_run (ctx 0 100 8192 0) 5 [1, 2, 3] 4096 (fresh_cache 16 32 1) = Inr s
     \<and> lookup_unified (ctx 1 120 0 0) 5 4096 s = Inr (8192, t)
     \<and> l3_hits (stray t 1) = l3_hits (stray s 1) + 1 \<and> l2_hits (stray t 1) = l2_hits (stray s 1)
     \<and> l3_hits (stats (percpu t 1)) = 0"
proof -
  let ?r = "store_run (ctx 0 100 8192 0) 5 [1, 2, 3] 4096 (fresh_cache 16 32 1)"
  let ?walk = "\<lambda>s. hlist_find (fuel s) (live_match 5 4096 120) s"
  have c: "map_sum id (\<lambda>s. (map_sum id fst (lookup_unified (ctx 1 120 0 0) 5 4096 s),
      ?walk s (hfirst s (L2Head 1 (l2_index 5))),
      rbind (l3_socket (ctx 1 120 0 0) s) (\<lambda>i. ?walk s (hfirst s (L3Head i (l3_index 5)))),
      l3_hits (stats (percpu s 1)))) ?r = Inr (Inr 8192, Inr 0, Inr 8192, 0)"
    by code_simp
  then obtain s where s: "?r = Inr s" by (cases ?r) auto
  with c obtain t where t: "lookup_unified (ctx 1 120 0 0) 5 4096 s = Inr (8192, t)"
    by (cases "lookup_unified (ctx 1 120 0 0) 5 4096 s") auto
  from lookup_accounting [OF t] s t c show ?thesis by (simp add: ctx_simps Let_def)
qed

section \<open>Placing the data\<close>

text \<open>
  \<open>placed s s1 p e1\<close>: \<open>s1\<close> is \<open>s\<close> with the entry \<open>e1\<close> at \<open>p\<close>; buffers and slots may differ, lists,
  locks, counters and the callback queue do not.
\<close>

definition placed :: "cache_state \<Rightarrow> cache_state \<Rightarrow> ptr \<Rightarrow> kcr_entry \<Rightarrow> bool" where
  "placed s s1 p e1 \<longleftrightarrow> ent s1 = (ent s)(p \<mapsto> e1) \<and> hfirst s1 = hfirst s
     \<and> (\<forall>h. lock (bucket_at s1 h) = lock (bucket_at s h))
     \<and> (\<forall>i. \<not> ext_lock (tables s i) \<longrightarrow> \<not> ext_lock (tables s1 i))
     \<and> caches s1 = caches s \<and> l3_tables s1 = l3_tables s \<and> num_sockets s1 = num_sockets s
     \<and> rcu_pending s1 = rcu_pending s \<and> percpu s1 = percpu s \<and> stray s1 = stray s"

lemma new_entry_union [simp]: "result_union (new_entry v fp m) = replicate 64 0"
  by (simp add: new_entry_def zero_entry_def)

lemma upd_table_views [simp]:
  "ent (upd_table i f s) = ent s" "entries (upd_table i f s) = entries s"
  "caches (upd_table i f s) = caches s" "l3_tables (upd_table i f s) = l3_tables s"
  "num_sockets (upd_table i f s) = num_sockets s" "bufs (upd_table i f s) = bufs s"
  "rcu_pending (upd_table i f s) = rcu_pending s" "percpu (upd_table i f s) = percpu s" "stray (upd_table i f s) = stray s"
  "tables (upd_table i f s) i' = (if i' = i then f (tables s i) else tables s i')"
  by (simp_all add: upd_table_def ent_def)

lemma bucket_at_upd_table [simp]:
  "(\<And>t. buckets (f t) = buckets t) \<Longrightarrow> bucket_at (upd_table i f s) h = bucket_at s h"
  by (cases h) (auto simp: upd_table_def)

lemma hfirst_upd_table [simp]:
  "(\<And>t. buckets (f t) = buckets t) \<Longrightarrow> hfirst (upd_table i f s) = hfirst s"
  by (simp add: hfirst_def fun_eq_iff)

lemma bufs_views [simp]:
  "ent (s\<lparr>bufs := b\<rparr>) = ent s" "hfirst (s\<lparr>bufs := b\<rparr>) = hfirst s"
  "bucket_at (s\<lparr>bufs := b\<rparr>) h = bucket_at s h"
proof -
  show b: "bucket_at (s\<lparr>bufs := b\<rparr>) h = bucket_at s h" for h by (cases h) simp_all
  show "ent (s\<lparr>bufs := b\<rparr>) = ent s" by (simp add: ent_def)
  show "hfirst (s\<lparr>bufs := b\<rparr>) = hfirst s" by (simp add: hfirst_def fun_eq_iff b)
qed

text \<open>The bytes an inline result is stored as: the first 12 are cleared.\<close>

definition inline_union :: "u8 list \<Rightarrow> u8 list" where
  "inline_union bytes =
     wr_bytes (wr_bytes (wr_bytes (replicate 64 0) 0 bytes) 0 (le_bytes 8 0)) 8 (le_bytes 4 0)"

lemma store_inline_placed:
  assumes "store_inline p d len (put_ent p (new_entry v fp m) s) = Inr (ok, s1)"
  shows "ok \<and> unat len \<le> length d
    \<and> placed s s1 p ((new_entry v fp m)\<lparr>result_union := inline_union (take (unat len) d)\<rparr>)"
  using assms
  by (auto simp: store_inline_def memcpy_from_def res_simps Let_def placed_def frame_simps
      set_ext_data_def set_ext_size_def inline_union_def
      split: if_splits)

text \<open>The union of an entry with external data at \<open>buf\<close>.\<close>

definition external_union :: "ptr \<Rightarrow> u32 \<Rightarrow> u8 list" where
  "external_union buf len =
     wr_bytes (wr_bytes (replicate 64 0) 0 (le_bytes 8 (unat buf))) 8 (le_bytes 4 (unat len))"

lemma new_entry_no_ext: "ext_data (new_entry v fp m) = NULL"
  by (simp add: ext_data_def rd64_def)

lemma store_external_placed:
  assumes "store_external v p d len (put_ent p (new_entry v fp m) s) = Inr (ok, s1)" and "ok"
  shows "unat len \<le> length d \<and> kvmalloc_ret v \<noteq> NULL \<and> l3_ready v s
    \<and> free_slot (tables s (socket_of v s)) < KCR_EXT_SLOTS
    \<and> bufs s1 = (kvmalloc_ret v, take (unat len) d) # bufs s
    \<and> placed s s1 p ((new_entry v fp m)\<lparr>result_union := external_union (kvmalloc_ret v) len\<rparr>)"
  using assms
  by (auto simp: store_external_def memcpy_from_def res_simps Let_def placed_def frame_simps
      ext_spin_lock_def ext_spin_unlock_def l3_socket_Inr new_entry_no_ext free_slot_def
      set_ext_data_def set_ext_size_def external_union_def l3_ready_def socket_of_def split: if_splits)

section \<open>Storing\<close>

lemma store_result_ok:
  assumes "store_result v fp data len m s = Inr (0, t)"
  obtains d u s1 s2 where "data = Some d" "len \<noteq> 0" "kzalloc_ret v \<noteq> NULL" "unat len \<le> length d"
    and "placed s s1 (kzalloc_ret v) ((new_entry v fp m)\<lparr>result_union := u\<rparr>)"
    and "KCR_RESULT_SIZE_MAX < unat len \<longrightarrow> u = external_union (kvmalloc_ret v) len
           \<and> kvmalloc_ret v \<noteq> NULL \<and> bufs s1 = (kvmalloc_ret v, take (unat len) d) # bufs s"
    and "\<not> KCR_RESULT_SIZE_MAX < unat len \<longrightarrow> u = inline_union (take (unat len) d)"
    and "store_in_l2 (cpu v) (kzalloc_ret v) fp s1 = Inr s2"
    and "store_in_l3 v (kzalloc_ret v) fp s2 = Inr t"
proof -
  let ?p = "kzalloc_ret v" and ?s0 = "put_ent (kzalloc_ret v) (new_entry v fp m) s"
  from assms obtain d where d: "data = Some d" "len \<noteq> 0" "?p \<noteq> NULL"
    by (auto simp: store_result_def split: option.splits if_splits)
  with assms obtain s1 s2 where
    pl: "(if KCR_RESULT_SIZE_MAX < unat len then store_external v ?p d len ?s0
          else store_inline ?p d len ?s0) = Inr (True, s1)"
    and s2: "store_in_l2 (cpu v) ?p fp s1 = Inr s2" "store_in_l3 v ?p fp s2 = Inr t"
    by (auto simp: store_result_def Let_def res_simps split: if_splits)
  show thesis
  proof (cases "KCR_RESULT_SIZE_MAX < unat len")
    case True
    with pl have "store_external v ?p d len ?s0 = Inr (True, s1)" by simp
    from store_external_placed [OF this] True d s2 show thesis
      by (intro that [of d s1 "external_union (kvmalloc_ret v) len" s2]) auto
  next
    case False
    with pl have "store_inline ?p d len ?s0 = Inr (True, s1)" by simp
    from store_inline_placed [OF this] False d s2 show thesis
      by (intro that [of d s1 "inline_union (take (unat len) d)" s2]) auto
  qed
qed

lemma store_in_l2_frame: "store_in_l2 c p fp s = Inr t \<Longrightarrow> cache_frame s t"
  by (auto simp: store_in_l2_def split: if_splits dest: replace_in_bucket_frame)

lemma store_in_l3_frame: "store_in_l3 v p fp s = Inr t \<Longrightarrow> cache_frame s t"
  by (auto simp: store_in_l3_def res_simps dest: replace_in_bucket_frame)

text \<open>The stored entry, up to its links.\<close>

lemma store_result_entry:
  assumes "store_result v fp (Some d) len m s = Inr (0, t)"
  shows "\<exists>e. ent t (kzalloc_ret v) = Some e
    \<and> payload e = payload ((new_entry v fp m)\<lparr>result_union :=
      (if KCR_RESULT_SIZE_MAX < unat len then external_union (kvmalloc_ret v) len
       else inline_union (take (unat len) d))\<rparr>)
    \<and> unat len \<le> length d
    \<and> (KCR_RESULT_SIZE_MAX < unat len \<longrightarrow> kvmalloc_ret v \<noteq> NULL
      \<and> map_of (bufs t) (kvmalloc_ret v) = Some (take (unat len) d))"
proof -
  from assms obtain d' u s1 s2 where dd: "Some d = Some d'" "len \<noteq> 0" "kzalloc_ret v \<noteq> NULL"
     "unat len \<le> length d'"
    and pl: "placed s s1 (kzalloc_ret v) ((new_entry v fp m)\<lparr>result_union := u\<rparr>)"
    and u: "KCR_RESULT_SIZE_MAX < unat len \<longrightarrow> u = external_union (kvmalloc_ret v) len
           \<and> kvmalloc_ret v \<noteq> NULL \<and> bufs s1 = (kvmalloc_ret v, take (unat len) d') # bufs s"
     "\<not> KCR_RESULT_SIZE_MAX < unat len \<longrightarrow> u = inline_union (take (unat len) d')"
    and st: "store_in_l2 (cpu v) (kzalloc_ret v) fp s1 = Inr s2"
     "store_in_l3 v (kzalloc_ret v) fp s2 = Inr t"
    by (rule store_result_ok)
  from dd have len: "unat len \<le> length d" and d': "d' = d" by simp_all
  have fr: "cache_frame s1 t"
    using store_in_l2_frame [OF st(1)] store_in_l3_frame [OF st(2)] by (rule cache_frame_trans)
  have "ent s1 (kzalloc_ret v) = Some ((new_entry v fp m)\<lparr>result_union := u\<rparr>)"
    using pl by (simp add: placed_def)
  from cache_frame_ent [OF fr this] obtain e where
    e: "ent t (kzalloc_ret v) = Some e" "payload e = payload ((new_entry v fp m)\<lparr>result_union := u\<rparr>)"
    by blast
  have "bufs t = bufs s1" using fr by (simp add: cache_frame_def)
  with e u len d' show ?thesis by (intro exI [of _ e]) auto
qed

lemma inline_union_bytes:
  assumes "length bytes \<le> 64"
  shows "length (inline_union bytes) = 64"
    and "i < 12 \<Longrightarrow> inline_union bytes ! i = 0"
    and "12 \<le> i \<Longrightarrow> i < 64 \<Longrightarrow> inline_union bytes ! i = (if i < length bytes then bytes ! i else 0)"
  using assms
  by (auto simp: inline_union_def wr_bytes_def le_bytes_zero nth_append min_def)

lemma result_0_inline: "length bytes \<le> 64 \<Longrightarrow> result_union e = inline_union bytes \<Longrightarrow> result e 0 = 0"
proof -
  assume b: "length bytes \<le> 64" and e: "result_union e = inline_union bytes"
  have "take 8 (inline_union bytes) = replicate 8 0"
  proof (rule nth_equalityI)
    show "length (take 8 (inline_union bytes)) = length (replicate 8 (0 :: u8))"
      using inline_union_bytes(1) [OF b] by simp
  next
    fix i assume "i < length (take 8 (inline_union bytes))"
    then have "i < 8" by simp
    then show "take 8 (inline_union bytes) ! i = replicate 8 0 ! i"
      using inline_union_bytes(2) [OF b, of i] by simp
  qed
  then show ?thesis by (simp add: result_def rd64_def e)
qed

text \<open>
  C23. Small results are damaged by the code that stores them: after a successful store of at
  most 64 bytes the entry holds the data from byte 12 on, but the first 12 bytes of the result are
  zero, because \<open>ext_data\<close> and \<open>ext_size\<close> are cleared after the copy and share storage with
  \<open>result[0]\<close> and the first half of \<open>result[1]\<close>. Injecting such an entry sets RAX to 0 and changes
  nothing else, whatever was stored.
\<close>

theorem small_result_clobbered:
  assumes "store_result v fp (Some d) len m s = Inr (0, t)" and "unat len \<le> KCR_RESULT_SIZE_MAX"
  shows "\<exists>e. ent t (kzalloc_ret v) = Some e
    \<and> (\<forall>i<12. result_union e ! i = 0)
    \<and> (\<forall>i. 12 \<le> i \<and> i < unat len \<longrightarrow> result_union e ! i = d ! i)
    \<and> inject_result (Some r) (Some e) = Inr (Some (r\<lparr>ax := 0\<rparr>))"
proof -
  let ?b = "take (unat len) d"
  from assms(2) have le: "unat len \<le> 64" by (simp add: KCR_RESULT_SIZE_MAX_def)
  from store_result_entry [OF assms(1)] assms(2) obtain e where
    e: "ent t (kzalloc_ret v) = Some e"
    and pl: "payload e = payload ((new_entry v fp m)\<lparr>result_union := inline_union ?b\<rparr>)"
    and len: "unat len \<le> length d"
    by auto
  have b: "length ?b \<le> 64" using le by simp
  have u: "result_union e = inline_union ?b" and reg: "register_mask e = KCR_MASK_RAX"
    and frag: "fragment_length e = 0"
    using payload_eqD [OF pl] by (simp_all add: new_entry_def)
  have "inject_result (Some r) (Some e) = Inr (Some (r\<lparr>ax := 0\<rparr>))"
    using result_0_inline [OF b u] reg frag
    by (simp add: inject_result_def mask_defs Let_def)
  moreover have "\<forall>i<12. result_union e ! i = 0"
    using inline_union_bytes(2) [OF b] u by simp
  moreover have "result_union e ! i = d ! i" if "12 \<le> i" "i < unat len" for i
    using inline_union_bytes(3) [OF b that(1)] that le len u by simp
  ultimately show ?thesis using e by blast
qed

text \<open>
  C24. Large results make the round trip: after a successful store of more than 64 bytes the
  entry's \<open>ext_size\<close> is the length and its \<open>ext_data\<close> points to an allocated buffer that holds exactly
  the bytes stored.
\<close>

theorem large_result_roundtrip:
  assumes "store_result v fp (Some d) len m s = Inr (0, t)" and "KCR_RESULT_SIZE_MAX < unat len"
  shows "\<exists>e. ent t (kzalloc_ret v) = Some e \<and> ext_size e = len \<and> ext_data e \<noteq> NULL
    \<and> map_of (bufs t) (ext_data e) = Some (take (unat len) d)"
proof -
  from store_result_entry [OF assms(1)] assms(2) obtain e where
    e: "ent t (kzalloc_ret v) = Some e"
    and pl: "payload e = payload ((new_entry v fp m)\<lparr>result_union := external_union (kvmalloc_ret v) len\<rparr>)"
    and buf: "kvmalloc_ret v \<noteq> NULL" "map_of (bufs t) (kvmalloc_ret v) = Some (take (unat len) d)"
    by auto
  have "set_ext_size len (set_ext_data (kvmalloc_ret v) (new_entry v fp m)) =
    (new_entry v fp m)\<lparr>result_union := external_union (kvmalloc_ret v) len\<rparr>"
    by (simp add: set_ext_size_def set_ext_data_def external_union_def)
  then have "ext_data e = kvmalloc_ret v" and "ext_size e = len"
    using payload_eqD(5) [OF pl]
      ext_data_set_size [of "set_ext_data (kvmalloc_ret v) (new_entry v fp m)" len]
      ext_data_set [of "new_entry v fp m" "kvmalloc_ret v"]
      ext_size_set [of "set_ext_data (kvmalloc_ret v) (new_entry v fp m)" len]
    by (simp_all add: ext_data_def ext_size_def)
  with e buf show ?thesis by auto
qed

end
