(* ===== verification/Cache_Store.thy ===== *)
theory Cache_Store
  imports Cache_Ops
begin

text \<open>
  \<open>store_result\<close> on its error paths, and what a lookup on the same CPU finds right after a store.
\<close>

section \<open>Error returns\<close>

lemma free_slot_NULL:
  assumes "free_slot t < KCR_EXT_SLOTS"
  shows "ext_slots t (free_slot t) = NULL"
proof -
  let ?P = "\<lambda>j. ext_slots t j \<noteq> NULL" and ?xs = "[0..<KCR_EXT_SLOTS]"
  have "length (takeWhile ?P ?xs) < length ?xs" using assms by (simp add: free_slot_def)
  then have "\<not> ?P (?xs ! length (takeWhile ?P ?xs))" by (rule nth_length_takeWhile)
  then show ?thesis using assms by (simp add: free_slot_def)
qed

text \<open>A failed placement changes only the entry that is about to be freed.\<close>

lemma store_external_failed:
  assumes "store_external v p d len (put_ent p e s) = Inr (False, s1)" and "ext_data e = NULL"
    and "length (result_union e) = 64"
  shows "s1 = put_ent p e s"
proof -
  from assms(1) obtain i where i: "l3_socket v (put_ent p e s) = Inr i"
    and lk: "\<not> ext_lock (tables s i)"
    by (auto simp: store_external_def res_simps ext_spin_lock_def frame_simps split: if_splits)
  let ?t = "tables s i"
  let ?lk = "\<lambda>t :: l3_table. t\<lparr>ext_lock := True\<rparr>" and ?ulk = "\<lambda>t :: l3_table. t\<lparr>ext_lock := False\<rparr>"
  have same: "(tables s)(i := ?ulk ?t) = tables s" using lk by (simp add: fun_upd_idem)
  show ?thesis
  proof (cases "free_slot ?t < KCR_EXT_SLOTS \<and> kvmalloc_ret v \<noteq> NULL")
    case True
    then have "free_slot (?lk ?t) < KCR_EXT_SLOTS" by (simp add: free_slot_def)
    with True assms i show ?thesis
      by (auto simp: store_external_def res_simps Let_def ext_spin_lock_def ext_spin_unlock_def
          frame_simps split: if_splits)
  next
    case False
    have slot: "free_slot ?t < KCR_EXT_SLOTS \<Longrightarrow> (ext_slots ?t)(free_slot ?t := NULL) = ext_slots ?t"
      using free_slot_NULL [of ?t] by (simp add: fun_upd_idem)
    have fs: "free_slot (?lk ?t) = free_slot ?t" by (simp add: free_slot_def)
    from False assms i lk slot fs same show ?thesis
      by (auto simp: store_external_def res_simps Let_def ext_spin_lock_def ext_spin_unlock_def
          frame_simps upd_table_def put_ent_def split: if_splits)
  qed
qed

text \<open>The placement of the data, inline or external, and its failure: freeing the entry undoes it.\<close>

abbreviation place_data :: "env \<Rightarrow> ptr \<Rightarrow> u8 list \<Rightarrow> u32 \<Rightarrow> cache_state \<Rightarrow> (bool \<times> cache_state) res" where
  "place_data v p d len s \<equiv>
     (if KCR_RESULT_SIZE_MAX < unat len then store_external v p d len s else store_inline p d len s)"

lemma kfree_new:
  assumes "p \<noteq> NULL" and "ent s p = None"
  shows "kfree_entry p (put_ent p e s) = Inr s"
proof -
  have "AList.delete p (AList.update p e (entries s)) = entries s"
    using assms(2) by (simp add: ent_def delete_update_fresh)
  with assms(1) show ?thesis by (simp add: kfree_entry_def put_ent_def ent_def update_conv')
qed

lemma failed_placement_undone:
  assumes "place_data v p d len (put_ent p (new_entry v fp m) s) = Inr (False, s1)"
    and "p \<noteq> NULL" and "ent s p = None"
  shows "kfree_entry p s1 = Inr s"
proof -
  have "KCR_RESULT_SIZE_MAX < unat len"
    using assms(1) store_inline_placed [of p d len v fp m s False s1] by (auto split: if_splits)
  with assms(1) have "s1 = put_ent p (new_entry v fp m) s"
    using store_external_failed [OF _ new_entry_no_ext] by simp
  with assms(2,3) show ?thesis by (simp add: kfree_new)
qed

text \<open>
  C22. Errors are clean: when \<open>store_result\<close> returns anything but 0 it returns \<open>-EINVAL\<close> (exactly
  for NULL data or length 0) or \<open>-ENOMEM\<close>, and the whole state (entries, buffers, slots, lists,
  locks, counters) is what it was before the call, provided \<open>kzalloc\<close> returned memory that was not
  in use.
\<close>

theorem store_error_no_effect:
  assumes "store_result v fp data len m s = Inr (r, t)" and "r \<noteq> 0"
    and "ent s (kzalloc_ret v) = None"
  shows "t = s \<and> (if data = None \<or> len = 0 then r = - EINVAL else r = - ENOMEM)"
proof (cases "data = None \<or> len = 0 \<or> kzalloc_ret v = NULL")
  case True
  with assms(1) show ?thesis
    by (auto simp: store_result_def split: option.splits if_splits)
next
  case False
  then obtain d where d: "data = Some d" by auto
  with False assms(1,2) obtain s1 where
    pl: "place_data v (kzalloc_ret v) d len (put_ent (kzalloc_ret v) (new_entry v fp m) s)
        = Inr (False, s1)"
    and k: "kfree_entry (kzalloc_ret v) s1 = Inr t" and r: "r = - ENOMEM"
    by (auto simp: store_result_def Let_def rbind_Inr_iff split: if_splits)
  with failed_placement_undone [OF pl _ assms(3)] False show ?thesis by simp
qed

theorem store_error_no_effect_witness:
  "store_result (ctx 0 100 8192 0) 5 (Some (replicate 65 1)) 65 4096 (fresh_cache 16 32 1) =
     Inr (- ENOMEM, fresh_cache 16 32 1)"
proof -
  let ?c = "store_result (ctx 0 100 8192 0) 5 (Some (replicate 65 1)) 65 4096 (fresh_cache 16 32 1)"
  have "map_sum id fst ?c = Inr (- 12)" by code_simp
  then obtain t where t: "?c = Inr (- ENOMEM, t)" by (cases ?c) auto
  have "ent (fresh_cache 16 32 1) (kzalloc_ret (ctx 0 100 8192 0)) = None"
    by (simp add: fresh_cache_def ent_def)
  from store_error_no_effect [OF t _ this] t show ?thesis by simp
qed

text \<open>Placement does not fault when the length does not exceed the caller's buffer.\<close>

lemma place_data_total:
  assumes "l3_ready v s" and "\<not> ext_lock (tables s (socket_of v s))" and "p \<noteq> NULL"
    and "ent s p \<noteq> None" and "unat len \<le> length d"
  shows "\<exists>ok s1. place_data v p d len s = Inr (ok, s1)"
proof -
  obtain e where e: "ent s p = Some e" using assms(4) by auto
  have get: "get_ent t p = Inr e" if "ent t = ent s" for t
    using that e assms(3) by simp
  show ?thesis
    using assms(1,2,5) get [of s] assms(3)
    by (auto simp: store_external_def store_inline_def l3_socket_ready ext_spin_lock_def
        ext_spin_unlock_def memcpy_from_def Let_def get frame_simps get_ent_def e)
qed

definition demo_regs :: pt_regs where
  "demo_regs = \<lparr>ax = 1, bx = 2, cx = 3, dx = 4, si = 5, di = 6, bp = 7, sp = 8, ip = 9\<rparr>"

theorem small_result_clobbered_witness:
  "\<exists>t e. store_result (ctx 0 100 8192 0) 5 (Some [1, 2, 3]) 3 4096 (fresh_cache 16 32 1) = Inr (0, t)
     \<and> ent t 8192 = Some e \<and> result_union e ! 0 = 0
     \<and> inject_result (Some demo_regs) (Some e) = Inr (Some (demo_regs\<lparr>ax := 0\<rparr>))"
proof -
  let ?c = "store_result (ctx 0 100 8192 0) 5 (Some [1, 2, 3]) 3 4096 (fresh_cache 16 32 1)"
  have "map_sum id fst ?c = Inr 0" by code_simp
  then obtain t where t: "?c = Inr (0, t)" by (cases ?c) auto
  have "unat (3 :: u32) \<le> KCR_RESULT_SIZE_MAX" by (simp add: KCR_RESULT_SIZE_MAX_def)
  from small_result_clobbered [OF t this, of demo_regs] obtain e where
    e: "ent t (kzalloc_ret (ctx 0 100 8192 0)) = Some e" "\<forall>i<12. result_union e ! i = 0"
    "inject_result (Some demo_regs) (Some e) = Inr (Some (demo_regs\<lparr>ax := 0\<rparr>))"
    by blast
  have "result_union e ! 0 = 0" using e(2) by simp
  moreover have "ent t 8192 = Some e" using e(1) by (simp add: ctx_def)
  ultimately show ?thesis using t e(3) by blast
qed

theorem large_result_roundtrip_witness:
  "\<exists>t e. store_result (ctx 0 100 8192 48) 5 (Some (replicate 70 9)) 70 4096 (fresh_cache 16 32 1)
       = Inr (0, t)
     \<and> ent t 8192 = Some e \<and> map_of (bufs t) (ext_data e) = Some (replicate 70 9)"
proof -
  let ?c = "store_result (ctx 0 100 8192 48) 5 (Some (replicate 70 9)) 70 4096 (fresh_cache 16 32 1)"
  have "map_sum id fst ?c = Inr 0" by code_simp
  then obtain t where t: "?c = Inr (0, t)" by (cases ?c) auto
  have "KCR_RESULT_SIZE_MAX < unat (70 :: u32)" by (simp add: KCR_RESULT_SIZE_MAX_def)
  from large_result_roundtrip [OF t this] obtain e where
    e: "ent t (kzalloc_ret (ctx 0 100 8192 48)) = Some e"
    "map_of (bufs t) (ext_data e) = Some (take (unat (70 :: u32)) (replicate 70 9))"
    by blast
  have "map_of (bufs t) (ext_data e) = Some (replicate 70 9)" using e(2) by simp
  moreover have "ent t 8192 = Some e" using e(1) by (simp add: ctx_def)
  ultimately show ?thesis using t by blast
qed

end
