(* ===== verification/Cache_Flush.thy ===== *)
theory Cache_Flush
  imports Cache_Store
begin

text \<open>
  The loops of \<open>invalidate_range\<close>: on a well-formed bucket the flush removes exactly the entries of
  the memory space and queues them for freeing; empty buckets are left alone; the external slots
  of the socket are all freed.
\<close>

section \<open>Flushing one bucket\<close>

definition counts_only :: "(cache_state \<Rightarrow> cache_state) \<Rightarrow> bool" where
  "counts_only acc \<longleftrightarrow> (\<forall>s. ent (acc s) = ent s \<and> hfirst (acc s) = hfirst s
     \<and> rcu_pending (acc s) = rcu_pending s \<and> cache_frame s (acc s))"

lemma counts_only_simps [simp]: "counts_only id" "counts_only (count_invalidation c)"
  by (simp_all add: counts_only_def count_invalidation_def)

lemma counts_onlyD:
  assumes "counts_only acc"
  shows "ent (acc s) = ent s" "hfirst (acc s) = hfirst s" "rcu_pending (acc s) = rcu_pending s"
    "cache_frame s (acc s)"
  using assms by (simp_all add: counts_only_def)

definition belongs :: "cache_state \<Rightarrow> ptr \<Rightarrow> ptr \<Rightarrow> bool" where
  "belongs s m q \<longleftrightarrow> (case ent s q of Some e \<Rightarrow> mm e = m | None \<Rightarrow> False)"

lemma belongs_frame:
  assumes "cache_frame s t"
  shows "belongs t m = belongs s m"
proof
  fix q
  show "belongs t m q = belongs s m q"
  proof (cases "ent s q")
    case None
    then show ?thesis using cache_frame_dom [OF assms, of q] by (simp add: belongs_def)
  next
    case (Some e)
    from cache_frame_ent [OF assms this] obtain e' where "ent t q = Some e'" "payload e' = payload e"
      by blast
    with Some show ?thesis using payload_eqD(2) [of e' e] by (simp add: belongs_def)
  qed
qed

fun first_of :: "ptr list \<Rightarrow> ptr" where
  "first_of [] = NULL"
| "first_of (q # _) = q"

lemma dlist_first: "dlist g l p qs \<Longrightarrow> p = first_of qs"
  by (cases qs) auto

lemma hlist_middle:
  assumes "hlist s h (xs @ q # ys)"
  shows "\<exists>e. q \<noteq> NULL \<and> ent s q = Some e \<and> node_next e = first_of ys"
  using assms by (auto simp: hlist_def dlist_append dest: dlist_first)

lemma hlist_flush_spec:
  assumes "hlist s h (xs @ ys)" and "p = first_of ys" and "length ys < k" and "counts_only acc"
  shows "\<exists>t. hlist_flush k m acc p s = Inr t \<and> hlist t h (xs @ filter (\<lambda>q. \<not> belongs s m q) ys)
    \<and> (\<forall>h'. h' \<noteq> h \<longrightarrow> hfirst t h' = hfirst s h') \<and> (\<forall>q. q \<notin> set (xs @ ys) \<longrightarrow> ent t q = ent s q)
    \<and> rcu_pending t = rcu_pending s @ filter (belongs s m) ys \<and> cache_frame s t"
  using assms(1-3)
proof (induction ys arbitrary: xs s p k)
  case Nil
  then show ?case by (cases k) simp_all
next
  case (Cons q ys)
  from Cons.prems obtain j where k: "k = Suc j" "length ys < j" by (cases k) auto
  from hlist_middle [OF Cons.prems(1)] obtain e where
    e: "q \<noteq> NULL" "ent s q = Some e" "node_next e = first_of ys" by blast
  show ?case
  proof (cases "mm e = m")
    case True
    from hlist_del_spec [OF Cons.prems(1)] obtain u e' where
      u: "hlist_del_rcu q s = Inr u" "hlist u h (xs @ ys)" "links_only s u"
      "\<forall>h'. h' \<noteq> h \<longrightarrow> hfirst u h' = hfirst s h'"
      "\<forall>q'. q' \<notin> set (xs @ q # ys) \<longrightarrow> ent u q' = ent s q'"
      "ent u q = Some (e'\<lparr>node_pprev := LPoison2\<rparr>)" by blast
    let ?w = "acc (u\<lparr>rcu_pending := rcu_pending u @ [q]\<rparr>)"
    note acc = counts_onlyD [OF assms(4), of "u\<lparr>rcu_pending := rcu_pending u @ [q]\<rparr>"]
    have fr: "cache_frame s ?w"
      by (rule cache_frame_trans [OF links_only_cache_frame [OF u(3)]
            cache_frame_trans [OF cache_frame_pending acc(4)]])
    have "hlist ?w h (xs @ ys)" using u(2) by (simp add: hlist_def acc)
    from Cons.IH [OF this refl k(2)] obtain t where
      t: "hlist_flush j m acc (first_of ys) ?w = Inr t"
      "hlist t h (xs @ filter (\<lambda>q. \<not> belongs s m q) ys)"
      "\<forall>h'. h' \<noteq> h \<longrightarrow> hfirst t h' = hfirst ?w h'" "\<forall>q. q \<notin> set (xs @ ys) \<longrightarrow> ent t q = ent ?w q"
      "rcu_pending t = rcu_pending ?w @ filter (belongs s m) ys" "cache_frame ?w t"
      unfolding belongs_frame [OF fr] by blast
    have "call_rcu q u = Inr (u\<lparr>rcu_pending := rcu_pending u @ [q]\<rparr>)"
      using e(1) u(6) by (simp add: call_rcu_Inr)
    then have "hlist_flush k m acc p s = Inr t"
      using e u(1) t(1) True Cons.prems(2) k(1) by (simp add: Let_def)
    moreover have "rcu_pending u = rcu_pending s" using u(3) by (simp add: links_only_def)
    moreover have "belongs s m q" using e True by (simp add: belongs_def)
    ultimately show ?thesis
      using t(2-5) u(4,5) cache_frame_trans [OF fr t(6)] 
      by (intro exI [of _ t]) (auto simp: counts_onlyD(1-3) [OF assms(4)])
  next
    case False
    from Cons.prems(1) have "hlist s h ((xs @ [q]) @ ys)" by simp
    from Cons.IH [OF this refl k(2)] obtain t where
      t: "hlist_flush j m acc (first_of ys) s = Inr t"
      "hlist t h ((xs @ [q]) @ filter (\<lambda>q. \<not> belongs s m q) ys)"
      "\<forall>h'. h' \<noteq> h \<longrightarrow> hfirst t h' = hfirst s h'"
      "\<forall>q'. q' \<notin> set ((xs @ [q]) @ ys) \<longrightarrow> ent t q' = ent s q'"
      "rcu_pending t = rcu_pending s @ filter (belongs s m) ys" "cache_frame s t" by blast
    have "hlist_flush k m acc p s = Inr t"
      using e t(1) False Cons.prems(2) k(1) by (simp add: Let_def)
    moreover have "\<not> belongs s m q" using e False by (simp add: belongs_def)
    ultimately show ?thesis using t by (intro exI [of _ t]) auto
  qed
qed

text \<open>
  A flush that starts at head \<open>h\<close> and walks the well-formed list of head \<open>g\<close>: the same head, or a
  head that points into the list of another bucket.
\<close>

lemma flush_bucket_through:
  assumes "hlist s g qs" and "hfirst s h = first_of qs" and "\<not> lock (bucket_at s h)"
    and "counts_only acc"
  shows "\<exists>t. flush_bucket m acc h s = Inr t \<and> hlist t g (filter (\<lambda>q. \<not> belongs s m q) qs)
    \<and> rcu_pending t = rcu_pending s @ filter (belongs s m) qs
    \<and> (\<forall>h'. h' \<noteq> g \<longrightarrow> hfirst t h' = hfirst s h') \<and> (\<forall>q. q \<notin> set qs \<longrightarrow> ent t q = ent s q)
    \<and> cache_frame s t"
proof -
  define s1 where "s1 = put_bucket h ((bucket_at s h)\<lparr>lock := True\<rparr>) s"
  have lk: "spin_lock h s = Inr s1" using assms(3) by (simp add: spin_lock_Inr s1_def)
  have wf: "hlist s1 g ([] @ qs)" using assms(1) by (simp add: hlist_def s1_def)
  have first: "hfirst s1 h = first_of qs" using assms(2) by (simp add: s1_def)
  have "length qs < fuel s1" by (rule chain_length [OF hlist_chain]) (use wf in simp)
  also have "fuel s1 \<le> fuel s1 * fuel s1" by (simp add: fuel_def)
  finally have len: "length qs < fuel s1 * fuel s1" .
  have bl: "belongs s1 m = belongs s m" by (simp add: fun_eq_iff belongs_def s1_def)
  from hlist_flush_spec [OF wf first len assms(4), of m] obtain t where
    t: "hlist_flush (fuel s1 * fuel s1) m acc (hfirst s1 h) s1 = Inr t"
    "hlist t g (filter (\<lambda>q. \<not> belongs s m q) qs)" "\<forall>h'. h' \<noteq> g \<longrightarrow> hfirst t h' = hfirst s1 h'"
    "rcu_pending t = rcu_pending s1 @ filter (belongs s m) qs" "cache_frame s1 t"
    "\<forall>q. q \<notin> set qs \<longrightarrow> ent t q = ent s1 q"
    unfolding bl by auto
  have "flush_bucket m acc h s = Inr (spin_unlock h t)" by (simp add: flush_bucket_def lk t(1))
  moreover have "rcu_pending s1 = rcu_pending s" "hfirst s1 = hfirst s" "ent s1 = ent s"
    by (simp_all add: s1_def frame_simps)
  moreover have "hlist (spin_unlock h t) g (filter (\<lambda>q. \<not> belongs s m q) qs)"
    using t(2) by (simp add: hlist_def)
  moreover have "cache_frame s (spin_unlock h t)"
    using critical_section_frame [OF assms(3)] t(5) by (simp add: s1_def)
  ultimately show ?thesis
    using t(3,4,6) by (intro exI [of _ "spin_unlock h t"]) simp
qed

text \<open>
  Invalidation of a well-formed bucket is a filter: it keeps the entries of other memory spaces
  in order, unlinks and queues for freeing exactly those of \<open>m\<close>, touches no other bucket, and
  releases the lock.
\<close>

lemma flush_bucket_filters:
  assumes "hlist s h qs" and "\<not> lock (bucket_at s h)"
  shows "\<exists>t. flush_bucket m (count_invalidation c) h s = Inr t
    \<and> hlist t h (filter (\<lambda>q. \<not> belongs s m q) qs)
    \<and> rcu_pending t = rcu_pending s @ filter (belongs s m) qs
    \<and> (\<forall>h'. h' \<noteq> h \<longrightarrow> hfirst t h' = hfirst s h') \<and> \<not> lock (bucket_at t h)"
proof -
  have "hfirst s h = first_of qs" using assms(1) by (auto simp: hlist_def dest: dlist_first)
  from flush_bucket_through [OF assms(1) this assms(2) counts_only_simps(2), of m c] assms(2)
  show ?thesis by (auto simp: cache_frame_def)
qed

section \<open>Empty buckets\<close>

lemma put_bucket_same: "put_bucket h (bucket_at s h) s = s"
  by (cases h) simp_all

lemma put_bucket_twice: "put_bucket h k (put_bucket h k' s) = put_bucket h k s"
  by (cases h) simp_all

lemma flush_empty:
  assumes "hfirst s h = NULL" and "\<not> lock (bucket_at s h)"
  shows "flush_bucket m acc h s = Inr s"
proof -
  let ?k = "(bucket_at s h)\<lparr>lock := True\<rparr>"
  have "hlist_flush (fuel s * fuel s) m acc NULL t = Inr t" for t
    by (simp add: fuel_def)
  then have "flush_bucket m acc h s = Inr (spin_unlock h (put_bucket h ?k s))"
    using assms by (simp add: flush_bucket_def spin_lock_def)
  moreover have "(bucket_at s h)\<lparr>lock := False\<rparr> = bucket_at s h" using assms(2) by simp
  ultimately show ?thesis
    by (simp add: spin_unlock_def put_bucket_twice put_bucket_same)
qed

lemma flush_all_empty:
  assumes "\<And>b. b \<in> set bs \<Longrightarrow> hfirst s (H b) = NULL \<and> \<not> lock (bucket_at s (H b))"
  shows "rfold (\<lambda>b. flush_bucket m acc (H b)) bs s = Inr s"
  using assms by (intro rfold_no_change flush_empty) auto

text \<open>Only one bucket of the array is in use.\<close>

lemma flush_all_one:
  assumes "b \<in> set bs" and "distinct bs"
    and "\<And>b'. b' \<in> set bs \<Longrightarrow> b' \<noteq> b \<Longrightarrow> hfirst s (H b') = NULL \<and> \<not> lock (bucket_at s (H b'))"
    and "flush_bucket m acc (H b) s = Inr t"
    and "\<And>b'. b' \<in> set bs \<Longrightarrow> b' \<noteq> b \<Longrightarrow> hfirst t (H b') = NULL \<and> \<not> lock (bucket_at t (H b'))"
  shows "rfold (\<lambda>b. flush_bucket m acc (H b)) bs s = Inr t"
proof -
  from assms(1) obtain xs ys where bs: "bs = xs @ b # ys" by (meson split_list)
  with assms(2) have "b \<notin> set xs" "b \<notin> set ys" by auto
  then have "rfold (\<lambda>b. flush_bucket m acc (H b)) xs s = Inr s"
    "rfold (\<lambda>b. flush_bucket m acc (H b)) ys t = Inr t"
    using assms(3,5) bs by (intro flush_all_empty; force)+
  with assms(4) show ?thesis by (simp add: bs rfold_append)
qed

section \<open>External slots\<close>

text \<open>Any flush that returns leaves everything but links, counters and the callback queue alone.\<close>

lemma hlist_flush_frame:
  "hlist_flush k m acc p s = Inr t \<Longrightarrow> counts_only acc \<Longrightarrow> cache_frame s t"
proof (induction k arbitrary: p s)
  case 0
  then show ?case by simp
next
  case (Suc k)
  show ?case
  proof (cases "p = NULL")
    case True
    with Suc.prems show ?thesis by simp
  next
    case False
    with Suc.prems(1) obtain e u where e: "get_ent s p = Inr e"
      and u: "(if mm e = m then rbind (hlist_del_rcu p s) (\<lambda>s. rbind (call_rcu p s) (\<lambda>s. Inr (acc s)))
               else Inr s) = Inr u"
      and t: "hlist_flush k m acc (node_next e) u = Inr t"
      by (auto simp: Let_def rbind_Inr_iff)
    have "cache_frame s u"
    proof (cases "mm e = m")
      case True
      with u obtain x where x: "hlist_del_rcu p s = Inr x"
        and ux: "u = acc (x\<lparr>rcu_pending := rcu_pending x @ [p]\<rparr>)"
        by (auto simp: rbind_Inr_iff call_rcu_Inr)
      show ?thesis unfolding ux
        by (rule cache_frame_trans [OF links_only_cache_frame [OF hlist_del_links_only [OF x]]
              cache_frame_trans [OF cache_frame_pending counts_onlyD(4) [OF Suc.prems(2)]]])
    qed (use u in simp)
    then show ?thesis using Suc.IH [OF t Suc.prems(2)] by (rule cache_frame_trans)
  qed
qed

lemma flush_bucket_frame:
  assumes "flush_bucket m acc h s = Inr t" and "counts_only acc"
  shows "cache_frame s t"
proof -
  define s1 where "s1 = put_bucket h ((bucket_at s h)\<lparr>lock := True\<rparr>) s"
  from assms(1) obtain u where lk: "\<not> lock (bucket_at s h)" and t: "t = spin_unlock h u"
    and u: "hlist_flush (fuel s1 * fuel s1) m acc (hfirst s1 h) s1 = Inr u"
    by (auto simp: flush_bucket_def rbind_Inr_iff spin_lock_Inr s1_def)
  from hlist_flush_frame [OF u assms(2)] show ?thesis
    unfolding t s1_def by (rule critical_section_frame [OF lk])
qed

lemma flush_all_frame:
  assumes "rfold (\<lambda>b. flush_bucket m acc (H b)) bs s = Inr t" and "counts_only acc"
  shows "cache_frame s t"
  using assms(1)
proof (induction bs arbitrary: s)
  case (Cons b bs)
  then obtain u where "flush_bucket m acc (H b) s = Inr u"
    "rfold (\<lambda>b. flush_bucket m acc (H b)) bs u = Inr t" by (auto simp: rbind_Inr_iff)
  then show ?case using Cons.IH flush_bucket_frame [OF _ assms(2)] cache_frame_trans by blast
qed simp

lemma free_ext_slots:
  assumes "rfold (free_ext_slot i) js s = Inr t"
  shows "(\<forall>j. ext_slots (tables t i) j = (if j \<in> set js then NULL else ext_slots (tables s i) j))
    \<and> (\<forall>j\<in>set js. ext_slots (tables s i) j \<noteq> NULL \<longrightarrow> map_of (bufs t) (ext_slots (tables s i) j) = None)
    \<and> (\<forall>b. map_of (bufs s) b = None \<longrightarrow> map_of (bufs t) b = None)
    \<and> ent t = ent s \<and> hfirst t = hfirst s \<and> rcu_pending t = rcu_pending s
    \<and> caches t = caches s \<and> l3_tables t = l3_tables s \<and> num_sockets t = num_sockets s \<and> percpu t = percpu s"
  using assms
proof (induction js arbitrary: s)
  case (Cons j js)
  then obtain u where u: "free_ext_slot i j s = Inr u" and t: "rfold (free_ext_slot i) js u = Inr t"
    by (auto simp: rbind_Inr_iff)
  have hf: "hfirst (s\<lparr>bufs := x, tables := y\<rparr>) = hfirst s"
    if "\<And>k. buckets (y k) = buckets (tables s k)" for x y
  proof (rule ext)
    show "hfirst (s\<lparr>bufs := x, tables := y\<rparr>) h = hfirst s h" for h
      by (cases h) (simp_all add: hfirst_def that)
  qed
  have u': "(\<forall>j'. ext_slots (tables u i) j' = (if j' = j then NULL else ext_slots (tables s i) j'))
    \<and> (ext_slots (tables s i) j \<noteq> NULL \<longrightarrow> map_of (bufs u) (ext_slots (tables s i) j) = None)
    \<and> (\<forall>b. map_of (bufs s) b = None \<longrightarrow> map_of (bufs u) b = None)
    \<and> ent u = ent s \<and> hfirst u = hfirst s \<and> rcu_pending u = rcu_pending s
    \<and> caches u = caches s \<and> l3_tables u = l3_tables s \<and> num_sockets u = num_sockets s \<and> percpu u = percpu s"
    using u by (auto simp: free_ext_slot_def kvfree_def rbind_Inr_iff upd_table_def ent_def
        delete_conv' split: if_splits intro!: hf)
  note t' = Cons.IH [OF t]
  have "map_of (bufs t) (ext_slots (tables s i) k) = None"
    if "k \<in> set (j # js)" "ext_slots (tables s i) k \<noteq> NULL" for k
  proof (cases "k = j")
    case True
    then show ?thesis using u' t' that by simp
  next
    case False
    then have "k \<in> set js" "ext_slots (tables u i) k = ext_slots (tables s i) k" using u' that by auto
    then show ?thesis using t' that(2) by metis
  qed
  then show ?case using u' t' by auto
qed simp

text \<open>The list part of an invalidation: what follows it touches neither entries nor heads.\<close>

lemma invalidate_range_lists:
  assumes "invalidate_range v m a b s = Inr t"
  obtains s1 s2 i where
    "rfold (\<lambda>b. flush_bucket m (count_invalidation (cpu v)) (L2Head (cpu v) b)) [0..<KCR_L2_ENTRIES] s
      = Inr s1"
    "rfold (\<lambda>b. flush_bucket m id (L3Head i b)) [0..<KCR_L3_ENTRIES] s1 = Inr s2"
    "cache_frame s s2" "ent t = ent s2" "hfirst t = hfirst s2"
proof -
  from assms obtain s1 i s2 s3 s4 where
    s1: "rfold (\<lambda>b. flush_bucket m (count_invalidation (cpu v)) (L2Head (cpu v) b)) [0..<KCR_L2_ENTRIES] s
      = Inr s1"
    and s2: "rfold (\<lambda>b. flush_bucket m id (L3Head i b)) [0..<KCR_L3_ENTRIES] s1 = Inr s2"
    and s3: "ext_spin_lock i s2 = Inr s3" and s4: "rfold (free_ext_slot i) [0..<KCR_EXT_SLOTS] s3 = Inr s4"
    and t: "t = ext_spin_unlock i s4"
    by (auto simp: invalidate_range_def rbind_Inr_iff split: if_splits)
  have "cache_frame s s2"
    by (rule cache_frame_trans [OF flush_all_frame [OF s1] flush_all_frame [OF s2]]) simp_all
  moreover have "ent s3 = ent s2" "hfirst s3 = hfirst s2"
    using s3 by (auto simp: ext_spin_lock_def split: if_splits)
  moreover have "ent s4 = ent s3" "hfirst s4 = hfirst s3" using free_ext_slots [OF s4] by blast+
  moreover have "ent t = ent s4" "hfirst t = hfirst s4" by (simp_all add: t ext_spin_unlock_def)
  ultimately show thesis using that [OF s1 s2] by simp
qed

text \<open>
  C28. Invalidating one memory space frees the external data of all: when \<open>invalidate_range\<close> returns,
  every slot of the calling CPU's socket is empty and its buffer is freed, while every entry of
  another memory space is still in memory with its payload unchanged. An entry whose data was in
  one of the slots is left with an \<open>ext_data\<close> pointer to freed memory.
\<close>

theorem invalidate_frees_all_external_data:
  assumes "invalidate_range v m a b s = Inr t"
  shows "(\<forall>j<KCR_EXT_SLOTS. ext_slots (tables t (socket_of v s)) j = NULL)
    \<and> (\<forall>p e j. ent s p = Some e \<and> j < KCR_EXT_SLOTS \<and> ext_data e \<noteq> NULL
        \<and> ext_data e = ext_slots (tables s (socket_of v s)) j \<longrightarrow>
        (\<exists>e'. ent t p = Some e' \<and> payload e' = payload e \<and> map_of (bufs t) (ext_data e') = None))"
proof -
  let ?i = "socket_of v s"
  from assms obtain s1 i s2 s3 s4 where
    s1: "rfold (\<lambda>b. flush_bucket m (count_invalidation (cpu v)) (L2Head (cpu v) b)) [0..<KCR_L2_ENTRIES] s
      = Inr s1" and i: "l3_socket v s1 = Inr i"
    and s2: "rfold (\<lambda>b. flush_bucket m id (L3Head i b)) [0..<KCR_L3_ENTRIES] s1 = Inr s2"
    and s3: "ext_spin_lock i s2 = Inr s3" and s4: "rfold (free_ext_slot i) [0..<KCR_EXT_SLOTS] s3 = Inr s4"
    and t: "t = ext_spin_unlock i s4"
    by (auto simp: invalidate_range_def rbind_Inr_iff split: if_splits)
  have f1: "cache_frame s s1" by (rule flush_all_frame [OF s1]) simp
  have fr: "cache_frame s s2"
    by (rule cache_frame_trans [OF f1 flush_all_frame [OF s2]]) simp
  have ii: "i = ?i" using i f1 by (simp add: l3_socket_Inr frame_socket)
  have s3v: "ent s3 = ent s2" "ext_slots (tables s3 i) = ext_slots (tables s i)"
    using s3 fr by (auto simp: ext_spin_lock_def cache_frame_def split: if_splits)
  note sl = free_ext_slots [OF s4]
  have tv: "ent t = ent s4" "bufs t = bufs s4" "ext_slots (tables t i) = ext_slots (tables s4 i)"
    by (simp_all add: t ext_spin_unlock_def)
  have "\<exists>e'. ent t p = Some e' \<and> payload e' = payload e \<and> map_of (bufs t) (ext_data e') = None"
    if e: "ent s p = Some e" "j < KCR_EXT_SLOTS" "ext_data e \<noteq> NULL" "ext_data e = ext_slots (tables s ?i) j"
    for p e j
  proof -
    from cache_frame_ent [OF fr e(1)] obtain e' where
      e': "ent s2 p = Some e'" "payload e' = payload e" by blast
    have "ext_data e' = ext_data e" using payload_eqD(5) [OF e'(2)] by (simp add: ext_data_def)
    moreover have "map_of (bufs t) (ext_data e) = None"
      using sl e(2-4) unfolding ii [symmetric] by (simp add: tv s3v)
    ultimately show ?thesis using e' sl by (simp add: tv s3v)
  qed
  moreover have "\<forall>j<KCR_EXT_SLOTS. ext_slots (tables t ?i) j = NULL"
    using sl unfolding ii [symmetric] by (simp add: tv)
  ultimately show ?thesis by blast
qed

section \<open>Instances\<close>

lemma invalidate_empty:
  assumes "\<And>h. hfirst s h = NULL \<and> \<not> lock (bucket_at s h)" and "caches s \<noteq> NULL"
    and "l3_socket v s = Inr i" and "\<not> ext_lock (tables s i)"
    and "rfold (free_ext_slot i) [0..<KCR_EXT_SLOTS] (upd_table i (\<lambda>t. t\<lparr>ext_lock := True\<rparr>) s) = Inr u"
  shows "invalidate_range v m a b s = Inr (ext_spin_unlock i u)"
proof -
  have "rfold (\<lambda>b. flush_bucket m (count_invalidation (cpu v)) (L2Head (cpu v) b)) [0..<KCR_L2_ENTRIES] s
      = Inr s" and "rfold (\<lambda>b. flush_bucket m id (L3Head i b)) [0..<KCR_L3_ENTRIES] s = Inr s"
    by (rule flush_all_empty, rule assms(1))+
  with assms(2-5) show ?thesis by (simp add: invalidate_range_def ext_spin_lock_def)
qed

text \<open>A large result of memory space 4096, and an invalidation of memory space 16.\<close>

theorem invalidate_frees_all_external_data_witness:
  "let f = fresh_cache 16 32 1;
       e = (new_entry (ctx 0 100 0 0) 5 4096)\<lparr>result_union := external_union 48 70\<rparr>;
       s = f\<lparr>entries := [(64, e)], bufs := [(48, replicate 70 9)],
             tables := (tables f)(0 := (tables f 0)\<lparr>ext_slots := (\<lambda>_. NULL)(0 := 48)\<rparr>)\<rparr>
   in \<exists>t e'. invalidate_range (ctx 0 110 0 0) 16 0 0 s = Inr t \<and> ent t 64 = Some e' \<and> mm e' = 4096
     \<and> map_of (bufs t) (ext_data e') = None"
proof -
  let ?f = "fresh_cache 16 32 1" and ?v = "ctx 0 110 0 0"
  let ?e = "(new_entry (ctx 0 100 0 0) 5 4096)\<lparr>result_union := external_union 48 70\<rparr>"
  let ?s = "?f\<lparr>entries := [(64, ?e)], bufs := [(48, replicate 70 9)],
             tables := (tables ?f)(0 := (tables ?f 0)\<lparr>ext_slots := (\<lambda>_. NULL)(0 := 48)\<rparr>)\<rparr>"
  have em: "hfirst ?s h = NULL \<and> \<not> lock (bucket_at ?s h)" for h
    by (cases h) (simp_all add: hfirst_def fresh_cache_def)
  let ?s3 = "upd_table 0 (\<lambda>t. t\<lparr>ext_lock := True\<rparr>) ?s"
  obtain u where u: "free_ext_slot 0 0 ?s3 = Inr u" "ext_slots (tables u 0) = (\<lambda>_. NULL)"
    by (simp add: free_ext_slot_def kvfree_def upd_table_def fun_eq_iff)
  have "[0..<KCR_EXT_SLOTS] = 0 # [1..<KCR_EXT_SLOTS]"
    by (simp add: KCR_EXT_SLOTS_def upt_rec [of 0])
  moreover have "rfold (free_ext_slot 0) [1..<KCR_EXT_SLOTS] u = Inr u"
    using u(2) by (intro rfold_no_change) (simp add: free_ext_slot_def)
  ultimately have sl: "rfold (free_ext_slot 0) [0..<KCR_EXT_SLOTS] ?s3 = Inr u" using u(1) by simp
  have v: "caches ?s \<noteq> NULL" "l3_socket ?v ?s = Inr 0" "socket_of ?v ?s = 0"
    and lk: "\<not> ext_lock (tables ?s 0)"
    by (simp_all add: fresh_cache_def ctx_def l3_socket_def socket_of_def Let_def)
  have r: "invalidate_range ?v 16 0 0 ?s = Inr (ext_spin_unlock 0 u)"
    by (rule invalidate_empty [OF em v(1,2) lk sl])
  let ?t = "ext_spin_unlock 0 u"
  have "ext_data ?e = 48" by code_simp
  then have "ent ?s 64 = Some ?e \<and> 0 < KCR_EXT_SLOTS \<and> ext_data ?e \<noteq> NULL
      \<and> ext_data ?e = ext_slots (tables ?s (socket_of ?v ?s)) 0"
    unfolding v(3) by (simp add: ent_def KCR_EXT_SLOTS_def)
  with conjunct2 [OF invalidate_frees_all_external_data [OF r]] obtain e' where
    e': "ent ?t 64 = Some e'" "payload e' = payload ?e" "map_of (bufs ?t) (ext_data e') = None"
    by blast
  with r payload_eqD(2) [OF e'(2)] show ?thesis
    unfolding Let_def by (intro exI [of _ ?t] exI [of _ e']) (simp add: new_entry_def)
qed

end
