(* ===== verification/KCR_Main.thy ===== *)
theory KCR_Main
  imports KCR_Mem KCR_Debugfs Cache_Flush
begin

text \<open>
  \<open>drivers/kcr/kcr_main.c\<close>: the module's globals, initialisation with its error path, shutdown, and
  the lifecycle the kernel drives: load, parameter writes, cache operations, unload.
\<close>

section \<open>State\<close>

text \<open>
  The globals of the module. \<open>cache\<close> holds \<open>caches\<close>, \<open>l3_tables\<close> and \<open>num_sockets\<close> with the memory
  behind them; \<open>blocks\<close> lists the live allocations of \<open>alloc_percpu\<close> and \<open>kcalloc\<close>.
\<close>

record kcr_state =
  kcr_enable :: bool
  kcr_region :: ptr
  cache :: cache_state
  memory :: mem_state
  blocks :: "ptr list"
  debugfs :: debugfs_state

text \<open>
  What the kernel supplies to \<open>kcr_init\<close>: the results of the allocations (0 for a failure) and what
  the memory they return holds, the possible CPUs, the number of possible nodes, and what
  \<open>debugfs_create_dir\<close> returns.
\<close>

record init_env =
  alloc_percpu_ret :: ptr
  percpu_mem :: "nat \<Rightarrow> cpu_cache"
  region_env :: mem_env
  kcalloc_ret :: ptr
  table_mem :: "nat \<Rightarrow> l3_table"
  possible_cpus :: "nat list"
  num_possible_nodes :: nat
  debugfs_ret :: "int + ptr"

definition kcr_is_enabled :: "kcr_state \<Rightarrow> bool" where
  "kcr_is_enabled s \<longleftrightarrow> kcr_enable s \<and> kcr_region s \<noteq> NULL"

section \<open>Initialisation\<close>

abbreviation empty_bucket :: l2_bucket where
  "empty_bucket \<equiv> \<lparr>head = NULL, lock = False\<rparr>"

definition init_l2 :: "nat list \<Rightarrow> cache_state \<Rightarrow> cache_state" where
  "init_l2 cpus s =
     foldl (\<lambda>s c. foldl (\<lambda>s i. put_bucket (L2Head c i) empty_bucket s) s [0..<KCR_L2_ENTRIES]) s cpus"

definition init_l3_table :: "nat \<Rightarrow> cache_state \<Rightarrow> cache_state" where
  "init_l3_table n s =
     (let s = upd_table n (\<lambda>t. t\<lparr>socket_id := word_of_nat n, ext_lock := False\<rparr>) s;
          s = foldl (\<lambda>s i. put_bucket (L3Head n i) empty_bucket s) s [0..<KCR_L3_ENTRIES]
      in foldl (\<lambda>s i. upd_table n (\<lambda>t. t\<lparr>ext_slots := (ext_slots t)(i := NULL),
                  ext_slot_size := (ext_slot_size t)(i := 0)\<rparr>) s) s [0..<KCR_EXT_SLOTS])"

definition init_l3 :: "nat \<Rightarrow> cache_state \<Rightarrow> cache_state" where
  "init_l3 n s = foldl (\<lambda>s i. init_l3_table i s) s [0..<n]"

definition free_block :: "ptr \<Rightarrow> kcr_state \<Rightarrow> kcr_state res" where
  "free_block p s =
     (if p = NULL then Inr s
      else if p \<in> set (blocks s) then Inr (s\<lparr>blocks := remove1 p (blocks s)\<rparr>)
      else Inl DoubleFree)"

text \<open>The three labels of the error path, each falling through to the next.\<close>

definition err_disable :: "kcr_state \<Rightarrow> kcr_state res" where
  "err_disable s = Inr (s\<lparr>kcr_enable := False\<rparr>)"

definition err_free_caches :: "kcr_state \<Rightarrow> kcr_state res" where
  "err_free_caches s =
     rbind (free_block (caches (cache s)) s) (\<lambda>s.
     err_disable (s\<lparr>cache := (cache s)\<lparr>caches := NULL\<rparr>\<rparr>))"

definition err_free_region :: "kcr_state \<Rightarrow> kcr_state res" where
  "err_free_region s =
     rbind (kcr_free_region (kcr_region s) (memory s)) (\<lambda>m.
     err_free_caches (s\<lparr>memory := m, kcr_region := NULL\<rparr>))"

definition fail_with :: "int \<Rightarrow> kcr_state res \<Rightarrow> (int \<times> kcr_state) res" where
  "fail_with ret r = rbind r (\<lambda>s. Inr (ret, s))"

definition kcr_init :: "init_env \<Rightarrow> kcr_state \<Rightarrow> (int \<times> kcr_state) res" where
  "kcr_init v s =
     (if \<not> kcr_enable s then Inr (0, s) else
      let c = alloc_percpu_ret v;
          s = s\<lparr>cache := (cache s)\<lparr>caches := c\<rparr>\<rparr>
      in if c = NULL then fail_with (- ENOMEM) (err_disable s) else
      let s = s\<lparr>cache := (cache s)\<lparr>percpu := percpu_mem v\<rparr>, blocks := c # blocks s\<rparr>
      in rbind (kcr_alloc_region (region_env v) (memory s)) (\<lambda>(r, m).
      let s = s\<lparr>memory := m, kcr_region := r\<rparr>
      in if r = NULL then fail_with (- ENOMEM) (err_free_caches s) else
      let t = kcalloc_ret v;
          s = s\<lparr>cache := (cache s)\<lparr>num_sockets := int (num_possible_nodes v), l3_tables := t\<rparr>\<rparr>
      in if t = NULL then fail_with (- ENOMEM) (err_free_region s) else
      let s = s\<lparr>cache := (cache s)\<lparr>tables := table_mem v\<rparr>, blocks := t # blocks s\<rparr>;
          s = s\<lparr>cache := init_l2 (possible_cpus v) (cache s)\<rparr>;
          s = s\<lparr>cache := init_l3 (num_possible_nodes v) (cache s)\<rparr>;
          (ret, d) = kcr_debugfs_init (debugfs_ret v) (debugfs s)
      in Inr (0, s\<lparr>debugfs := d\<rparr>)))"

section \<open>Shutdown\<close>

definition kcr_exit :: "kcr_state \<Rightarrow> kcr_state res" where
  "kcr_exit s =
     (let s = s\<lparr>debugfs := kcr_debugfs_exit (debugfs s)\<rparr> in
      rbind (if caches (cache s) \<noteq> NULL
             then rbind (free_block (caches (cache s)) s) (\<lambda>s.
                  Inr (s\<lparr>cache := (cache s)\<lparr>caches := NULL\<rparr>\<rparr>))
             else Inr s) (\<lambda>s.
      rbind (if l3_tables (cache s) \<noteq> NULL
             then rbind (free_block (l3_tables (cache s)) s) (\<lambda>s.
                  Inr (s\<lparr>cache := (cache s)\<lparr>l3_tables := NULL\<rparr>\<rparr>))
             else Inr s) (\<lambda>s.
      if kcr_region s \<noteq> NULL
      then rbind (kcr_free_region (kcr_region s) (memory s)) (\<lambda>m.
           Inr (s\<lparr>memory := m, kcr_region := NULL\<rparr>))
      else Inr s)))"

section \<open>What the initialisation loops leave\<close>

lemma foldl_put_l2:
  "foldl (\<lambda>s i. put_bucket (L2Head c i) k s) s is =
     s\<lparr>percpu := (percpu s)(c := (percpu s c)\<lparr>l2 := (\<lambda>b. if b \<in> set is then k else l2 (percpu s c) b)\<rparr>)\<rparr>"
  by (induction "is" arbitrary: s) (auto simp: fun_eq_iff)

lemma foldl_put_l3:
  "foldl (\<lambda>s i. put_bucket (L3Head n i) k s) s is =
     s\<lparr>tables := (tables s)(n := (tables s n)\<lparr>buckets := (\<lambda>b. if b \<in> set is then k else buckets (tables s n) b)\<rparr>)\<rparr>"
  by (induction "is" arbitrary: s) (auto simp: fun_eq_iff)

lemma foldl_clear_slots:
  "foldl (\<lambda>s i. upd_table n (\<lambda>t. t\<lparr>ext_slots := (ext_slots t)(i := NULL),
        ext_slot_size := (ext_slot_size t)(i := 0)\<rparr>) s) s is =
     s\<lparr>tables := (tables s)(n := (tables s n)\<lparr>
        ext_slots := (\<lambda>j. if j \<in> set is then NULL else ext_slots (tables s n) j),
        ext_slot_size := (\<lambda>j. if j \<in> set is then 0 else ext_slot_size (tables s n) j)\<rparr>)\<rparr>"
  by (induction "is" arbitrary: s) (auto simp: fun_eq_iff upd_table_def)

definition cleared_cpu :: "cpu_cache \<Rightarrow> cpu_cache" where
  "cleared_cpu k = k\<lparr>l2 := (\<lambda>b. if b < KCR_L2_ENTRIES then empty_bucket else l2 k b)\<rparr>"

definition cleared_table :: "nat \<Rightarrow> l3_table \<Rightarrow> l3_table" where
  "cleared_table n t = \<lparr>
     buckets = (\<lambda>b. if b < KCR_L3_ENTRIES then empty_bucket else buckets t b),
     ext_slots = (\<lambda>j. if j < KCR_EXT_SLOTS then NULL else ext_slots t j),
     ext_slot_size = (\<lambda>j. if j < KCR_EXT_SLOTS then 0 else ext_slot_size t j),
     ext_lock = False, socket_id = word_of_nat n\<rparr>"

lemma init_l2_eq:
  "init_l2 cpus s = s\<lparr>percpu := (\<lambda>c. if c \<in> set cpus then cleared_cpu (percpu s c) else percpu s c)\<rparr>"
proof -
  have "cleared_cpu (cleared_cpu k) = cleared_cpu k" for k by (simp add: cleared_cpu_def fun_eq_iff)
  then show ?thesis
    unfolding init_l2_def foldl_put_l2
    by (induction cpus arbitrary: s) (auto simp: fun_eq_iff cleared_cpu_def atLeast0LessThan)
qed

lemma init_l3_table_eq:
  "init_l3_table n s = s\<lparr>tables := (tables s)(n := cleared_table n (tables s n))\<rparr>"
  unfolding init_l3_table_def Let_def foldl_put_l3 foldl_clear_slots
  by (simp add: upd_table_def cleared_table_def fun_eq_iff)

lemma init_l3_eq:
  "init_l3 n s = s\<lparr>tables := (\<lambda>i. if i < n then cleared_table i (tables s i) else tables s i)\<rparr>"
  by (induction n) (auto simp: init_l3_def init_l3_table_eq fun_eq_iff less_Suc_eq)

section \<open>Properties of initialisation\<close>

text \<open>The globals before the module is loaded, and after it is unloaded.\<close>

definition unloaded :: "kcr_state \<Rightarrow> bool" where
  "unloaded s \<longleftrightarrow> kcr_region s = NULL \<and> caches (cache s) = NULL \<and> l3_tables (cache s) = NULL"

definition allocations_succeed :: "init_env \<Rightarrow> bool" where
  "allocations_succeed v \<longleftrightarrow> alloc_percpu_ret v \<noteq> NULL \<and> kzalloc_region (region_env v) \<noteq> NULL
     \<and> vmalloc_ret (region_env v) \<noteq> NULL \<and> kcalloc_ret v \<noteq> NULL"

lemma kcr_init_success:
  assumes "kcr_enable s" and "region_fresh (region_env v) (memory s)" and "allocations_succeed v"
  shows "\<exists>m d. kcr_alloc_region (region_env v) (memory s) = Inr (kzalloc_region (region_env v), m)
    \<and> holds_region m (kzalloc_region (region_env v))
    \<and> kcr_free_region (kzalloc_region (region_env v)) m = Inr (memory s)
    \<and> kcr_init v s = Inr (0, s\<lparr>
        kcr_region := kzalloc_region (region_env v), memory := m, debugfs := d,
        blocks := kcalloc_ret v # alloc_percpu_ret v # blocks s,
        cache := (cache s)\<lparr>caches := alloc_percpu_ret v, l3_tables := kcalloc_ret v,
          num_sockets := int (num_possible_nodes v),
          percpu := (\<lambda>c. if c \<in> set (possible_cpus v) then cleared_cpu (percpu_mem v c) else percpu_mem v c),
          tables := (\<lambda>i. if i < num_possible_nodes v then cleared_table i (table_mem v i)
            else table_mem v i)\<rparr>\<rparr>)"
  using assms(2)
proof (cases rule: region.alloc_cases)
  case failed
  with assms(2,3) show ?thesis
    by (simp add: kcr_alloc_region_eq allocations_succeed_def)
next
  case (ok p t)
  from ok(1) assms(3) have p: "p = kzalloc_region (region_env v)"
    by (simp add: kcr_alloc_region_eq [OF assms(2)] allocations_succeed_def)
  obtain ret d where d: "kcr_debugfs_init (debugfs_ret v) (debugfs s) = (ret, d)" by force
  show ?thesis
    using assms(1,3) ok d unfolding p
    by (intro exI [of _ t] exI [of _ d])
      (simp add: kcr_init_def allocations_succeed_def Let_def init_l2_eq init_l3_eq cong: if_cong)
qed

text \<open>
  C32. Successful initialisation: whatever the allocated memory held before, provided the per-CPU
  area came with zeroed counters, \<open>kcr_init\<close> returns 0 with the subsystem enabled; on every
  possible CPU all L2 buckets are empty and unlocked and all counters 0; on every node all L3
  buckets are empty and unlocked, all external slots free and the table carries its socket number;
  the shared region is allocated, cleared, with one reference. A failing debugfs does not matter.
\<close>

theorem kcr_init_establishes:
  assumes "kcr_enable s" and "region_fresh (region_env v) (memory s)" and "allocations_succeed v"
    and "\<And>c. stats (percpu_mem v c) = \<lparr>l2_hits = 0, l3_hits = 0, misses = 0, invalidations = 0, cycles_saved = 0\<rparr>"
  shows "\<exists>t. kcr_init v s = Inr (0, t) \<and> kcr_is_enabled t \<and> holds_region (memory t) (kcr_region t)
    \<and> caches (cache t) \<noteq> NULL \<and> l3_tables (cache t) \<noteq> NULL
    \<and> num_sockets (cache t) = int (num_possible_nodes v)
    \<and> (\<forall>c\<in>set (possible_cpus v). stats (percpu (cache t) c) =
          \<lparr>l2_hits = 0, l3_hits = 0, misses = 0, invalidations = 0, cycles_saved = 0\<rparr>
        \<and> (\<forall>b<KCR_L2_ENTRIES. bucket_at (cache t) (L2Head c b) = empty_bucket))
    \<and> (\<forall>i<num_possible_nodes v. socket_id (tables (cache t) i) = word_of_nat i
        \<and> \<not> ext_lock (tables (cache t) i)
        \<and> (\<forall>b<KCR_L3_ENTRIES. bucket_at (cache t) (L3Head i b) = empty_bucket)
        \<and> (\<forall>j<KCR_EXT_SLOTS. ext_slots (tables (cache t) i) j = NULL))"
proof -
  from kcr_init_success [OF assms(1-3)] obtain m d where
    m: "holds_region m (kzalloc_region (region_env v))"
    and t: "kcr_init v s = Inr (0, s\<lparr>
        kcr_region := kzalloc_region (region_env v), memory := m, debugfs := d,
        blocks := kcalloc_ret v # alloc_percpu_ret v # blocks s,
        cache := (cache s)\<lparr>caches := alloc_percpu_ret v, l3_tables := kcalloc_ret v,
          num_sockets := int (num_possible_nodes v),
          percpu := (\<lambda>c. if c \<in> set (possible_cpus v) then cleared_cpu (percpu_mem v c) else percpu_mem v c),
          tables := (\<lambda>i. if i < num_possible_nodes v then cleared_table i (table_mem v i)
            else table_mem v i)\<rparr>\<rparr>)" by blast
  show ?thesis
    unfolding t using m assms(1,3,4)
    by (simp add: kcr_is_enabled_def allocations_succeed_def cleared_cpu_def cleared_table_def)
qed

text \<open>On zeroed memory the result is the state the cache theorems start from, but for the stray words.\<close>

definition zeroed_memory :: "init_env \<Rightarrow> bool" where
  "zeroed_memory v \<longleftrightarrow>
     percpu_mem v = (\<lambda>_. \<lparr>l2 = (\<lambda>_. empty_bucket),
       stats = \<lparr>l2_hits = 0, l3_hits = 0, misses = 0, invalidations = 0, cycles_saved = 0\<rparr>\<rparr>)
     \<and> table_mem v = (\<lambda>_. \<lparr>buckets = (\<lambda>_. empty_bucket), ext_slots = (\<lambda>_. NULL),
         ext_slot_size = (\<lambda>_. 0), ext_lock = False, socket_id = 0\<rparr>)"

lemma kcr_init_fresh:
  assumes "kcr_enable s" and "region_fresh (region_env v) (memory s)" and "allocations_succeed v"
    and "zeroed_memory v" and "entries (cache s) = []" and "bufs (cache s) = []"
    and "rcu_pending (cache s) = []"
  shows "\<exists>t. kcr_init v s = Inr (0, t) \<and> kcr_is_enabled t
    \<and> cache t = (fresh_cache (alloc_percpu_ret v) (kcalloc_ret v) (int (num_possible_nodes v)))
        \<lparr>stray := stray (cache s)\<rparr>"
proof -
  from kcr_init_success [OF assms(1-3)] obtain m d where
    t: "kcr_init v s = Inr (0, s\<lparr>
        kcr_region := kzalloc_region (region_env v), memory := m, debugfs := d,
        blocks := kcalloc_ret v # alloc_percpu_ret v # blocks s,
        cache := (cache s)\<lparr>caches := alloc_percpu_ret v, l3_tables := kcalloc_ret v,
          num_sockets := int (num_possible_nodes v),
          percpu := (\<lambda>c. if c \<in> set (possible_cpus v) then cleared_cpu (percpu_mem v c) else percpu_mem v c),
          tables := (\<lambda>i. if i < num_possible_nodes v then cleared_table i (table_mem v i)
            else table_mem v i)\<rparr>\<rparr>)" by blast
  show ?thesis
    unfolding t using assms(1,3-7)
    by (simp add: kcr_is_enabled_def allocations_succeed_def zeroed_memory_def cleared_cpu_def
        cleared_table_def fresh_cache_def fun_eq_iff cong: if_cong)
qed

text \<open>
  C33. Failed initialisation: when the module is enabled and any of its allocations fails, the per-CPU
  area, the region structure, the region memory or the table array, \<open>kcr_init\<close> runs without a fault and
  returns \<open>-ENOMEM\<close>; the subsystem is disabled, no global points to freed memory, and the region memory,
  the other allocations, debugfs and the entries are what they were before the call.
\<close>

theorem kcr_init_failure_clean:
  assumes "kcr_enable s" and "region_fresh (region_env v) (memory s)" and "unloaded s"
    and "\<not> allocations_succeed v"
  shows "\<exists>t. kcr_init v s = Inr (- ENOMEM, t) \<and> \<not> kcr_enable t \<and> \<not> kcr_is_enabled t \<and> unloaded t
    \<and> memory t = memory s \<and> blocks t = blocks s \<and> debugfs t = debugfs s
    \<and> entries (cache t) = entries (cache s) \<and> bufs (cache t) = bufs (cache s)"
  using assms(2)
proof (cases rule: region.alloc_cases)
  case failed
  with assms(1,3) show ?thesis
    by (auto simp: kcr_init_def fail_with_def err_disable_def err_free_caches_def free_block_def
        kcr_is_enabled_def unloaded_def Let_def)
next
  case (ok p m)
  with assms(4) have "alloc_percpu_ret v = NULL \<or> kcalloc_ret v = NULL"
    by (auto simp: allocations_succeed_def kcr_alloc_region_eq [OF assms(2)] split: if_splits)
  with ok assms(1,3) show ?thesis
    by (auto simp: kcr_init_def fail_with_def err_disable_def err_free_caches_def err_free_region_def
        free_block_def kcr_is_enabled_def unloaded_def Let_def)
qed


end
