(* ===== verification/KCR_Lifecycle.thy ===== *)
theory KCR_Lifecycle
  imports KCR_Main
begin

text \<open>
  The life of the module as a transition system: the kernel loads and unloads it, the administrator
  writes the parameter \<open>kcr_enable\<close> at any time, and while it is loaded the exported cache operations
  run. The invariant says that an enabled module has its caches, and that unloading finds
  everything it has to free.
\<close>

section \<open>Cache operations keep the globals and the counters\<close>

inductive cache_op :: "cache_state \<Rightarrow> cache_state \<Rightarrow> bool" where
  op_lookup: "lookup_unified v fp m s = Inr (p, t) \<Longrightarrow> cache_op s t"
| op_store: "store_result v fp data len m s = Inr (r, t) \<Longrightarrow> cache_op s t"
| op_invalidate: "invalidate_range v m a b s = Inr t \<Longrightarrow> cache_op s t"
| op_grace: "rcu_grace_period s = Inr t \<Longrightarrow> cache_op s t"

definition same_globals :: "cache_state \<Rightarrow> cache_state \<Rightarrow> bool" where
  "same_globals s t \<longleftrightarrow>
     caches t = caches s \<and> l3_tables t = l3_tables s \<and> num_sockets t = num_sockets s
     \<and> (\<forall>c. stats (percpu t c) = stats (percpu s c))"

lemma frame_globals: "cache_frame s t \<Longrightarrow> same_globals s t"
  by (simp add: cache_frame_def same_globals_def)

lemma same_globals_trans: "same_globals s t \<Longrightarrow> same_globals t u \<Longrightarrow> same_globals s u"
  by (simp add: same_globals_def)

lemma place_data_globals:
  "place_data v p d len s = Inr (ok, t) \<Longrightarrow> same_globals s t"
  by (auto simp: store_external_def store_inline_def rbind_Inr_iff Let_def ext_spin_lock_def
      ext_spin_unlock_def same_globals_def frame_simps split: if_splits)

lemma store_result_globals:
  assumes "store_result v fp data len m s = Inr (r, t)"
  shows "same_globals s t"
proof (cases "data = None \<or> len = 0 \<or> kzalloc_ret v = NULL")
  case True
  with assms have "t = s" by (auto simp: store_result_def split: option.splits if_splits)
  then show ?thesis by (simp add: same_globals_def)
next
  case False
  let ?p = "kzalloc_ret v" and ?s0 = "put_ent (kzalloc_ret v) (new_entry v fp m) s"
  from False obtain d where d: "data = Some d" by auto
  with False assms obtain ok s1 where pl: "place_data v ?p d len ?s0 = Inr (ok, s1)"
    and k: "(if \<not> ok then rbind (kfree_entry ?p s1) (\<lambda>s. Inr (- ENOMEM, s))
      else rbind (store_in_l2 (cpu v) ?p fp s1) (\<lambda>s. rbind (store_in_l3 v ?p fp s) (\<lambda>s. Inr (0, s))))
      = Inr (r, t)"
    by (auto simp: store_result_def Let_def rbind_Inr_iff)
  have "same_globals s ?s0" by (simp add: same_globals_def frame_simps)
  then have 1: "same_globals s s1" using place_data_globals [OF pl] by (rule same_globals_trans)
  have "same_globals s1 t"
    using k store_in_l2_frame store_in_l3_frame frame_globals same_globals_trans
    by (cases ok) (auto simp: rbind_Inr_iff kfree_entry_def same_globals_def split: if_splits
        dest!: store_in_l2_frame store_in_l3_frame frame_globals)
  with 1 show ?thesis by (rule same_globals_trans)
qed

lemma invalidate_globals:
  assumes "invalidate_range v m a b s = Inr t"
  shows "same_globals s t"
proof -
  from assms obtain s1 i s2 s3 s4 where
    s1: "rfold (\<lambda>b. flush_bucket m (count_invalidation (cpu v)) (L2Head (cpu v) b)) [0..<KCR_L2_ENTRIES] s
      = Inr s1"
    and s2: "rfold (\<lambda>b. flush_bucket m id (L3Head i b)) [0..<KCR_L3_ENTRIES] s1 = Inr s2"
    and s3: "ext_spin_lock i s2 = Inr s3" and s4: "rfold (free_ext_slot i) [0..<KCR_EXT_SLOTS] s3 = Inr s4"
    and t: "t = ext_spin_unlock i s4"
    by (auto simp: invalidate_range_def rbind_Inr_iff split: if_splits)
  have "cache_frame s s2"
    by (rule cache_frame_trans [OF flush_all_frame [OF s1] flush_all_frame [OF s2]]) simp_all
  from frame_globals [OF this] show ?thesis
    using s3 free_ext_slots [OF s4]
    by (auto simp: same_globals_def t ext_spin_unlock_def ext_spin_lock_def split: if_splits)
qed

lemma grace_globals:
  assumes "rcu_grace_period s = Inr t"
  shows "same_globals s t"
proof -
  have "same_globals u t" if "rfold free_entry_rcu ps u = Inr t" for ps u
    using that
    by (induction ps arbitrary: u)
      (auto simp: same_globals_def rbind_Inr_iff free_entry_rcu_def kfree_entry_def split: if_splits)
  with assms have "same_globals (s\<lparr>rcu_pending := []\<rparr>) t" by (simp add: rcu_grace_period_def)
  then show ?thesis by (simp add: same_globals_def)
qed

lemma cache_op_globals: "cache_op s t \<Longrightarrow> same_globals s t"
  by (induction rule: cache_op.induct)
    (auto intro: store_result_globals invalidate_globals grace_globals frame_globals
      dest: lookup_unified_frame)

lemma cache_ops_globals: "cache_op\<^sup>*\<^sup>* s t \<Longrightarrow> same_globals s t"
  by (induction rule: rtranclp_induct)
    (auto simp: same_globals_def dest: cache_op_globals [unfolded same_globals_def])

section \<open>The lifecycle\<close>

definition no_memory_used :: mem_state where
  "no_memory_used = \<lparr>regions = [], vareas = []\<rparr>"

text \<open>\<open>lifecycle l s\<close>: the state \<open>s\<close> can be reached, with the module loaded if \<open>l\<close>.\<close>

inductive lifecycle :: "bool \<Rightarrow> kcr_state \<Rightarrow> bool" where
  boot: "unloaded s \<Longrightarrow> blocks s = [] \<Longrightarrow> memory s = no_memory_used \<Longrightarrow> lifecycle False s"
| load: "lifecycle False s \<Longrightarrow> 0 < num_possible_nodes v \<Longrightarrow> region_fresh (region_env v) (memory s) \<Longrightarrow>
    kcr_init v s = Inr (0, t) \<Longrightarrow> lifecycle True t"
| load_failed: "lifecycle False s \<Longrightarrow> region_fresh (region_env v) (memory s) \<Longrightarrow>
    kcr_init v s = Inr (r, t) \<Longrightarrow> r \<noteq> 0 \<Longrightarrow> lifecycle False t"
| parameter: "lifecycle l s \<Longrightarrow> lifecycle l (s\<lparr>kcr_enable := e\<rparr>)"
| use: "lifecycle True s \<Longrightarrow> cache_op (cache s) c \<Longrightarrow> lifecycle True (s\<lparr>cache := c\<rparr>)"
| unload: "lifecycle True s \<Longrightarrow> kcr_exit s = Inr t \<Longrightarrow> lifecycle False t"

definition module_inv :: "bool \<Rightarrow> kcr_state \<Rightarrow> bool" where
  "module_inv l s \<longleftrightarrow>
     (if kcr_region s = NULL
      then unloaded s \<and> blocks s = [] \<and> memory s = no_memory_used
      else l \<and> caches (cache s) \<noteq> NULL \<and> l3_tables (cache s) \<noteq> NULL \<and> 0 < num_sockets (cache s)
        \<and> blocks s = [l3_tables (cache s), caches (cache s)]
        \<and> kcr_free_region (kcr_region s) (memory s) = Inr no_memory_used)"

lemma init_cases:
  assumes "kcr_init v s = Inr (0, t)" and "region_fresh (region_env v) (memory s)"
  shows "t = s \<and> \<not> kcr_enable s \<or> kcr_enable s \<and> allocations_succeed v"
  using assms(2)
proof (cases rule: region.alloc_cases)
  case failed
  then show ?thesis
    using assms(1) by (auto simp: kcr_init_def fail_with_def Let_def rbind_Inr_iff split: if_splits)
next
  case (ok p m)
  then show ?thesis
    using assms
    by (auto simp: kcr_init_def fail_with_def Let_def rbind_Inr_iff allocations_succeed_def
        kcr_alloc_region_eq split: if_splits)
qed

lemma inv_load:
  assumes "module_inv False s" and "0 < num_possible_nodes v"
    and "region_fresh (region_env v) (memory s)" and "kcr_init v s = Inr (0, t)"
  shows "module_inv True t"
proof -
  have s: "unloaded s" "blocks s = []" "memory s = no_memory_used"
    using assms(1) by (auto simp: module_inv_def split: if_splits)
  from init_cases [OF assms(4,3)] show ?thesis
  proof (elim disjE conjE)
    assume "t = s"
    then show ?thesis using s by (simp add: module_inv_def unloaded_def)
  next
    assume e: "kcr_enable s" "allocations_succeed v"
    from kcr_init_success [OF e(1) assms(3) e(2)] obtain m d where
      m: "kcr_free_region (kzalloc_region (region_env v)) m = Inr (memory s)"
      and t: "kcr_init v s = Inr (0, s\<lparr>
        kcr_region := kzalloc_region (region_env v), memory := m, debugfs := d,
        blocks := kcalloc_ret v # alloc_percpu_ret v # blocks s,
        cache := (cache s)\<lparr>caches := alloc_percpu_ret v, l3_tables := kcalloc_ret v,
          num_sockets := int (num_possible_nodes v),
          percpu := (\<lambda>c. if c \<in> set (possible_cpus v) then cleared_cpu (percpu_mem v c) else percpu_mem v c),
          tables := (\<lambda>i. if i < num_possible_nodes v then cleared_table i (table_mem v i)
            else table_mem v i)\<rparr>\<rparr>)" by blast
    have "t = s\<lparr>
        kcr_region := kzalloc_region (region_env v), memory := m, debugfs := d,
        blocks := kcalloc_ret v # alloc_percpu_ret v # blocks s,
        cache := (cache s)\<lparr>caches := alloc_percpu_ret v, l3_tables := kcalloc_ret v,
          num_sockets := int (num_possible_nodes v),
          percpu := (\<lambda>c. if c \<in> set (possible_cpus v) then cleared_cpu (percpu_mem v c) else percpu_mem v c),
          tables := (\<lambda>i. if i < num_possible_nodes v then cleared_table i (table_mem v i)
            else table_mem v i)\<rparr>\<rparr>" using t assms(4) by simp
    then show ?thesis
      using e(2) m s assms(2) by (simp add: module_inv_def allocations_succeed_def)
  qed
qed

lemma inv_load_failed:
  assumes "module_inv False s" and "region_fresh (region_env v) (memory s)"
    and "kcr_init v s = Inr (r, t)" and "r \<noteq> 0"
  shows "module_inv False t"
proof -
  have s: "unloaded s" "blocks s = []" "memory s = no_memory_used"
    using assms(1) by (auto simp: module_inv_def split: if_splits)
  from assms(2) show ?thesis
  proof (cases rule: region.alloc_cases)
    case failed
    with assms(3,4) s show ?thesis
      by (auto simp: kcr_init_def fail_with_def err_disable_def err_free_caches_def free_block_def
          module_inv_def unloaded_def Let_def split: if_splits prod.splits)
  next
    case (ok p m)
    with assms(3,4) s show ?thesis
      by (auto simp: kcr_init_def fail_with_def err_disable_def err_free_caches_def
          err_free_region_def free_block_def module_inv_def unloaded_def Let_def
          split: if_splits prod.splits)
  qed
qed

lemma exit_from_inv:
  assumes "module_inv True s"
  shows "\<exists>t. kcr_exit s = Inr t \<and> unloaded t \<and> blocks t = [] \<and> memory t = no_memory_used
    \<and> entries (cache t) = entries (cache s) \<and> bufs (cache t) = bufs (cache s)
    \<and> rcu_pending (cache t) = rcu_pending (cache s)"
proof (cases "kcr_region s = NULL")
  case True
  then have "unloaded s" "blocks s = []" "memory s = no_memory_used"
    using assms by (simp_all add: module_inv_def)
  then show ?thesis by (simp add: kcr_exit_def unloaded_def Let_def)
next
  case False
  then show ?thesis
    using assms by (auto simp: module_inv_def kcr_exit_def free_block_def unloaded_def Let_def)
qed

lemma lifecycle_inv: "lifecycle l s \<Longrightarrow> module_inv l s"
proof (induction rule: lifecycle.induct)
  case (boot s)
  then show ?case by (simp add: module_inv_def unloaded_def)
next
  case (load s v t)
  then show ?case by (blast intro: inv_load)
next
  case (load_failed s v r t)
  then show ?case by (blast intro: inv_load_failed)
next
  case (parameter l s e)
  then show ?case by (auto simp: module_inv_def unloaded_def split: if_splits)
next
  case (use s c)
  then show ?case
    using cache_op_globals [OF use.hyps(2)]
    by (auto simp: module_inv_def unloaded_def same_globals_def split: if_splits)
next
  case (unload s t)
  from exit_from_inv [OF unload.IH] unload.hyps(2) show ?case
    by (auto simp: module_inv_def unloaded_def)
qed

section \<open>Properties\<close>

text \<open>
  C34. \<open>kcr_is_enabled\<close> is a safe guard: in every reachable state of the module in which it answers
  true, the module is loaded and both cache arrays are allocated, and on every CPU whose node
  number is not negative the socket an operation indexes \<open>l3_tables\<close> with is in range.
\<close>

theorem enabled_means_ready:
  assumes "lifecycle l s" and "kcr_is_enabled s"
  shows "l \<and> (\<forall>v. 0 \<le> node v \<longrightarrow> l2_ready v (cache s)
    \<and> l3_socket v (cache s) = Inr (socket_of v (cache s))
    \<and> int (socket_of v (cache s)) < num_sockets (cache s))"
  using lifecycle_inv [OF assms(1)] assms(2)
  by (auto simp: module_inv_def kcr_is_enabled_def l2_ready_def l3_ready_def l3_socket_ready
      socket_of_def split: if_splits)

text \<open>
  C35. Unloading never faults, from any reachable loaded state, and returns every allocation of the
  module's start: caches, tables, region descriptor and region memory. It does not free what the
  cache holds: every entry and every external buffer is still allocated afterwards, with no
  pointer left that leads to it, and queued RCU callbacks are still queued.
\<close>

theorem unload_frees_module_memory:
  assumes "lifecycle True s"
  shows "\<exists>t. kcr_exit s = Inr t \<and> unloaded t \<and> blocks t = [] \<and> memory t = no_memory_used
    \<and> entries (cache t) = entries (cache s) \<and> bufs (cache t) = bufs (cache s)
    \<and> rcu_pending (cache t) = rcu_pending (cache s)"
  by (rule exit_from_inv [OF lifecycle_inv [OF assms]])

section \<open>A concrete life\<close>

definition boot_state :: kcr_state where
  "boot_state = \<lparr>kcr_enable = True, kcr_region = NULL,
     cache = (fresh_cache NULL NULL 0), memory = no_memory_used, blocks = [],
     debugfs = \<lparr>kcr_debugfs_root = Inr NULL, calls = []\<rparr>\<rparr>"

definition demo_env :: init_env where
  "demo_env = \<lparr>alloc_percpu_ret = 16,
     percpu_mem = (\<lambda>_. \<lparr>l2 = (\<lambda>_. empty_bucket),
       stats = \<lparr>l2_hits = 0, l3_hits = 0, misses = 0, invalidations = 0, cycles_saved = 0\<rparr>\<rparr>),
     region_env = \<lparr>kzalloc_region = 64, vmalloc_ret = 4096, vmalloc_bytes = (\<lambda>_. 170)\<rparr>,
     kcalloc_ret = 32,
     table_mem = (\<lambda>_. \<lparr>buckets = (\<lambda>_. empty_bucket), ext_slots = (\<lambda>_. NULL),
         ext_slot_size = (\<lambda>_. 0), ext_lock = False, socket_id = 0\<rparr>),
     possible_cpus = [0, 1], num_possible_nodes = 1, debugfs_ret = Inr 80\<rparr>"

lemma demo_facts:
  "kcr_enable boot_state" "region_fresh (region_env demo_env) (memory boot_state)"
  "allocations_succeed demo_env" "zeroed_memory demo_env" "unloaded boot_state"
  "\<And>c. stats (percpu_mem demo_env c) = \<lparr>l2_hits = 0, l3_hits = 0, misses = 0, invalidations = 0, cycles_saved = 0\<rparr>"
  by (simp_all add: boot_state_def demo_env_def no_memory_used_def region_fresh_def
      allocations_succeed_def zeroed_memory_def unloaded_def fresh_cache_def)

lemma demo_loaded:
  obtains t where "kcr_init demo_env boot_state = Inr (0, t)" "kcr_is_enabled t"
    "cache t = fresh_cache 16 32 1" "lifecycle True t"
proof -
  from kcr_init_fresh [OF demo_facts(1-4)] obtain t where
    t: "kcr_init demo_env boot_state = Inr (0, t)" "kcr_is_enabled t"
    "cache t = (fresh_cache (alloc_percpu_ret demo_env) (kcalloc_ret demo_env)
      (int (num_possible_nodes demo_env)))\<lparr>stray := stray (cache boot_state)\<rparr>"
    by (auto simp: boot_state_def fresh_cache_def)
  have "stray (cache boot_state) = stray (fresh_cache 16 32 1)" by (simp add: boot_state_def fresh_cache_def)
  with t(3) have c: "cache t = fresh_cache 16 32 1" by (simp add: demo_env_def)
  have "lifecycle False boot_state"
    by (rule lifecycle.boot [OF demo_facts(5)]) (simp_all add: boot_state_def)
  then have "lifecycle True t"
    by (rule lifecycle.load [OF _ _ demo_facts(2) t(1)]) (simp add: demo_env_def)
  with t(1,2) c that show thesis by blast
qed

theorem kcr_init_establishes_witness:
  "\<exists>t. kcr_init demo_env boot_state = Inr (0, t) \<and> kcr_is_enabled t
     \<and> bucket_at (cache t) (L2Head 1 63) = empty_bucket"
  using kcr_init_establishes [OF demo_facts(1-3,6)]
  by (auto simp: demo_env_def KCR_L2_ENTRIES_def)

theorem kcr_init_failure_clean_witness:
  "\<exists>t. kcr_init (demo_env\<lparr>kcalloc_ret := NULL\<rparr>) boot_state = Inr (- ENOMEM, t)
     \<and> \<not> kcr_enable t \<and> unloaded t \<and> memory t = no_memory_used"
proof -
  let ?v = "demo_env\<lparr>kcalloc_ret := NULL\<rparr>"
  have "region_fresh (region_env ?v) (memory boot_state)" "\<not> allocations_succeed ?v"
    using demo_facts(2) by (simp_all add: allocations_succeed_def)
  from kcr_init_failure_clean [OF demo_facts(1) this(1) demo_facts(5) this(2)]
  show ?thesis by (auto simp: boot_state_def)
qed


theorem enabled_means_ready_witness:
  "\<exists>s. lifecycle True s \<and> kcr_is_enabled s \<and> l2_ready (ctx 0 100 0 0) (cache s)"
proof -
  obtain t where t: "lifecycle True t" "kcr_is_enabled t" using demo_loaded by metis
  from enabled_means_ready [OF this] have "l2_ready (ctx 0 100 0 0) (cache t)" by (simp add: ctx_def)
  with t show ?thesis by blast
qed

theorem unload_frees_module_memory_witness:
  "\<exists>s t. lifecycle True s \<and> kcr_is_enabled s \<and> kcr_exit s = Inr t \<and> blocks t = []"
proof -
  obtain t where t: "lifecycle True t" "kcr_is_enabled t" using demo_loaded by metis
  from unload_frees_module_memory [OF t(1)] t show ?thesis by blast
qed

end
