(* ===== verification/Cache_Shared.thy ===== *)
theory Cache_Shared
  imports Cache_Store
begin

text \<open>
  The two tiers together. An entry has one \<open>hlist_node\<close>, so it can be linked into one list at a
  time, yet \<open>store_result\<close> inserts it into an L2 bucket and then into an L3 bucket. After the second
  insertion the L2 head points into the L3 list. \<open>twin\<close> is the shape this leaves when all the keys
  of the L2 bucket share one L3 bucket: both heads point to the same well-formed list. On this
  shape the pair of insertions acts as one MRU list (\<open>Cache_Quiet\<close>); here is what the first and the second
  insertion do to it.
\<close>

section \<open>Twin buckets\<close>

definition twin :: "env \<Rightarrow> cache_state \<Rightarrow> u64 \<Rightarrow> ptr list \<Rightarrow> bool" where
  "twin v s fp qs \<longleftrightarrow>
     hfirst s (l2_head v s fp) = hfirst s (l3_head v s fp) \<and> hlist s (l3_head v s fp) qs"

lemma heads_differ [simp]: "l2_head v s fp \<noteq> l3_head v s' fp'" "l3_head v s' fp' \<noteq> l2_head v s fp"
  by (simp_all add: l2_head_def l3_head_def)

lemma twin_chain:
  "twin v s fp qs \<Longrightarrow> chain (ent s) (hfirst s (l2_head v s fp)) qs
     \<and> chain (ent s) (hfirst s (l3_head v s fp)) qs"
  by (auto simp: twin_def dest: hlist_chain)

lemma twin_alloc: "twin v s fp qs \<Longrightarrow> q \<in> set qs \<Longrightarrow> q \<noteq> NULL \<and> ent s q \<noteq> None"
  by (auto simp: twin_def dest: hlist_alloc)

lemma dlist_new_pprev:
  assumes "dlist g l p (r # rs)" and "g r = Some e" and "g' r = Some (e\<lparr>node_pprev := l'\<rparr>)"
    and "\<And>q. q \<in> set rs \<Longrightarrow> g' q = g q"
  shows "dlist g' l' p (r # rs)"
proof -
  have "dlist g (LNext r) (node_next e) rs" using assms(1,2) by auto
  then have "dlist g' (LNext r) (node_next e) rs"
    using dlist_frame [of rs g' g] assms(4) by simp
  with assms(1,3) show ?thesis by auto
qed

text \<open>The list at \<open>h3\<close> after an insertion of \<open>p\<close> at \<open>h2\<close>, whose first node \<open>x\<close> may be that of the list.\<close>

lemma add_before_shared:
  assumes wf: "hlist s h3 rs" and first: "x \<in> set rs \<Longrightarrow> \<exists>ys. rs = x # ys"
    and es: "ent t = (\<lambda>q. map_option (add_upd p x h2 q) (ent s q))" and hf: "hfirst t = (hfirst s)(h2 := p)"
    and p: "p \<notin> set rs" and h: "h2 \<noteq> h3"
  shows "\<exists>l. dlist (ent t) l (hfirst t h3) rs"
proof -
  have h3: "hfirst t h3 = hfirst s h3" using h by (simp add: hf)
  have other: "q \<noteq> p \<Longrightarrow> q \<noteq> x \<Longrightarrow> ent t q = ent s q" for q
    by (simp add: es map_option_case split: option.split)
  have dl: "dlist (ent s) (LFirst h3) (hfirst s h3) rs" using wf by (simp add: hlist_def)
  show ?thesis
  proof (cases "x \<in> set rs")
    case False
    then have "ent t q = ent s q" if "q \<in> set rs" for q using that p by (intro other) auto
    then have "dlist (ent t) (LFirst h3) (hfirst s h3) rs" using dl dlist_frame [of rs "ent t" "ent s"] by simp
    then show ?thesis using h3 by auto
  next
    case True
    with first obtain ys where rs: "rs = x # ys" by blast
    with dl obtain e where e: "ent s x = Some e" "x \<noteq> NULL" by auto
    have "ent t x = Some (e\<lparr>node_pprev := LNext p\<rparr>)" using e p rs by (auto simp: es add_upd_def)
    moreover have "ent t q = ent s q" if "q \<in> set ys" for q
      using that p rs hlist_distinct [OF wf] by (intro other) auto
    ultimately have "dlist (ent t) (LNext p) (hfirst s h3) rs" using dlist_new_pprev dl e(1) unfolding rs by blast
    then show ?thesis using h3 by auto
  qed
qed

text \<open>
  The first half of a store: inserting \<open>p\<close> at head \<open>h2\<close>, whose first node is that of the list at
  \<open>h3\<close>. The list at \<open>h3\<close> loses the old entry; the \<open>pprev\<close> of its first node may now point to \<open>p\<close>.
\<close>

lemma replace_through_alias:
  assumes wf: "hlist s h3 qs" and same_first: "hfirst s h2 = hfirst s h3" and h23: "h2 \<noteq> h3"
    and free: "\<not> lock (bucket_at s h2)" and p: "p \<noteq> NULL" "ent s p = Some e" "p \<notin> set qs"
    and old: "old = first_match (ent s) (same_key fp (mm e)) qs"
  shows "\<exists>t l. replace_in_bucket h2 p fp s = Inr t \<and> dlist (ent t) l (hfirst t h3) (remove1 old qs)
    \<and> hfirst t h2 = p \<and> (\<forall>h. h \<noteq> h2 \<and> h \<noteq> h3 \<longrightarrow> hfirst t h = hfirst s h)
    \<and> (\<forall>q. q \<notin> set (p # qs) \<longrightarrow> ent t q = ent s q)
    \<and> rcu_pending t = rcu_pending s @ (if old \<noteq> NULL then [old] else [])"
proof -
  define s1 where "s1 = put_bucket h2 ((bucket_at s h2)\<lparr>lock := True\<rparr>) s"
  have lk: "spin_lock h2 s = Inr s1" using free by (simp add: spin_lock_Inr s1_def)
  have wf1: "hlist s1 h3 qs" using wf by (simp add: hlist_def s1_def)
  have c1: "chain (ent s1) (hfirst s1 h2) qs"
    using hlist_chain [OF wf] same_first by (simp add: s1_def)
  have old1: "old = first_match (ent s1) (same_key fp (mm e)) qs" by (simp add: s1_def old)
  have find: "hlist_find (fuel s1) (same_key fp (mm e)) s1 (hfirst s1 h2) = Inr old"
    using hlist_find_total [OF c1] old1 by simp
  have e1: "get_ent s1 p = Inr e" using p by (simp add: s1_def)
  let ?rs = "remove1 old qs"
  from delete_first_match [OF wf1 old1] obtain s2 where
    s2: "(if old \<noteq> NULL then rbind (hlist_del_rcu old s1) (call_rcu old) else Inr s1) = Inr s2"
    "hlist s2 h3 ?rs" "\<forall>h. h \<noteq> h3 \<longrightarrow> hfirst s2 h = hfirst s1 h"
    "\<forall>q. q \<notin> set qs \<longrightarrow> ent s2 q = ent s1 q" by blast
  let ?x = "hfirst s2 h2"
  have x: "?x = hfirst s h3" using s2(3) h23 same_first by (simp add: s1_def)
  have dom2: "ent s2 q = None \<longleftrightarrow> ent s q = None" for q
    using cache_frame_dom [of s1 s2] delete_and_queue_frame [OF s2(1)] by (simp add: s1_def)
  have xok: "ptr_ok s2 ?x"
    using wf hlist_alloc [OF wf] by (cases qs) (auto simp: x ptr_ok_def hlist_def dom2)
  have p2: "ent s2 p \<noteq> None" using p dom2 by simp
  have prs: "p \<notin> set ?rs" using p(3) set_remove1_subset [of old qs] by auto
  from hlist_add_effect [OF p(1) p2 xok] obtain s3 where
    s3: "hlist_add_head_rcu p h2 s2 = Inr s3" "hfirst s3 = (hfirst s2)(h2 := p)"
    and es3: "ent s3 = (\<lambda>q. map_option (add_upd p ?x h2 q) (ent s2 q))" by blast
  have other: "q \<noteq> p \<Longrightarrow> q \<noteq> ?x \<Longrightarrow> ent s3 q = ent s2 q" for q
    by (simp add: es3 map_option_case split: option.split)
  have "\<exists>ys. ?rs = ?x # ys" if "?x \<in> set ?rs"
  proof -
    have "?x \<in> set qs" using that set_remove1_subset by fast
    then obtain ys where qs: "qs = ?x # ys" using wf x by (cases qs) (auto simp: hlist_def)
    moreover have "old \<noteq> ?x" using that hlist_distinct [OF wf] by auto
    ultimately show ?thesis by (metis remove1.simps(2))
  qed
  then have "\<exists>l. dlist (ent s3) l (hfirst s3 h3) ?rs"
    using prs h23 p(1) by (intro add_before_shared [OF s2(2) _ es3 s3(2)]) auto
  then obtain l where l: "dlist (ent s3) l (hfirst s3 h3) ?rs" by blast
  have "replace_in_bucket h2 p fp s = Inr (spin_unlock h2 s3)"
    using lk find p s3(1) by (simp add: replace_in_bucket_def s2(1) e1)
  moreover have "rcu_pending s3 = rcu_pending s @ (if old \<noteq> NULL then [old] else [])"
    using delete_and_queue_frame [OF s2(1)] hlist_add_links_only [OF s3(1)]
    by (simp add: links_only_def s1_def frame_simps)
  moreover have "ent s3 q = ent s q" if q: "q \<notin> set (p # qs)" for q
  proof (cases "q = ?x")
    case True
    then have "?x = NULL" using q x wf by (cases qs) (auto simp: hlist_def)
    with True q s2(4) show ?thesis
      by (simp add: es3 add_upd_def s1_def map_option_case split: option.split)
  next
    case False
    with q s2(4) show ?thesis using other [of q] by (simp add: s1_def)
  qed
  ultimately show ?thesis
    using l s2(3) s3(2) by (intro exI [of _ "spin_unlock h2 s3"] exI [of _ l]) (auto simp: s1_def)
qed

text \<open>
  The second half: inserting \<open>p\<close> at head \<open>h3\<close>, in a list without its key, repairs the \<open>pprev\<close> of
  the old first node.
\<close>

lemma insert_and_repair:
  assumes wf: "dlist (ent s) l (hfirst s h3) rs" and free: "\<not> lock (bucket_at s h3)"
    and p: "p \<noteq> NULL" "ent s p = Some e" "p \<notin> set rs"
    and new: "first_match (ent s) (same_key fp (mm e)) rs = NULL"
  shows "\<exists>t. replace_in_bucket h3 p fp s = Inr t \<and> hlist t h3 (p # rs)
    \<and> hfirst t = (hfirst s)(h3 := p) \<and> (\<forall>q. q \<notin> set (p # rs) \<longrightarrow> ent t q = ent s q)
    \<and> rcu_pending t = rcu_pending s"
proof -
  define s1 where "s1 = put_bucket h3 ((bucket_at s h3)\<lparr>lock := True\<rparr>) s"
  have lk: "spin_lock h3 s = Inr s1" using free by (simp add: spin_lock_Inr s1_def)
  have wf1: "dlist (ent s1) l (hfirst s1 h3) rs" using wf by (simp add: s1_def)
  have find: "hlist_find (fuel s1) (same_key fp (mm e)) s1 (hfirst s1 h3) = Inr NULL"
    using hlist_find_total [OF dlist_chain [OF wf1]] new by (simp add: s1_def)
  have e1: "get_ent s1 p = Inr e" "ent s1 p \<noteq> None" using p by (simp_all add: s1_def)
  from hlist_add_spec [OF wf1 p(1) e1(2) p(3)] obtain t where
    t: "hlist_add_head_rcu p h3 s1 = Inr t" "hlist t h3 (p # rs)" "links_only s1 t"
    "hfirst t = (hfirst s1)(h3 := p)" "\<forall>q. q \<notin> set (p # rs) \<longrightarrow> ent t q = ent s1 q" by blast
  have "replace_in_bucket h3 p fp s = Inr (spin_unlock h3 t)"
    using lk find t(1) e1 by (simp add: replace_in_bucket_def)
  moreover have "rcu_pending t = rcu_pending s" using t(3) by (simp add: links_only_def s1_def frame_simps)
  ultimately show ?thesis using t by (auto simp: hlist_def s1_def)
qed

section \<open>A lookup on twin buckets\<close>

text \<open>A lookup on twin buckets never reaches L3 with success, and never faults.\<close>

lemma twin_lookup:
  fixes m :: ptr
  assumes tw: "twin v s fp qs" and rdy: "l2_ready v s" "l3_ready v s"
  defines "p \<equiv> first_match (ent s) (live_match fp m (jiffies v)) qs"
  shows "lookup_unified v fp m s = Inr (p,
    if p \<noteq> NULL then upd_stats (cpu v) (\<lambda>st. st\<lparr>l2_hits := l2_hits st + 1\<rparr>) s
    else upd_stats (cpu v) (\<lambda>st. st\<lparr>misses := misses st + 1\<rparr>) s)"
proof -
  have "hlist_find (fuel s) (live_match fp m (jiffies v)) s (hfirst s (L2Head (cpu v) (l2_index fp)))
    = Inr p"
    unfolding p_def using twin_chain [OF tw] by (intro hlist_find_total) (simp add: l2_head_def)
  moreover have "lookup_l3 v fp m s = Inr p"
    unfolding p_def using twin_chain [OF tw] by (intro lookup_l3_chain [OF rdy(2)]) simp
  ultimately show ?thesis
    using rdy(1) by (simp add: lookup_unified_def lookup_l2_def l2_ready_def)
qed

end
