(* ===== verification/Cache_Quiet.thy ===== *)
theory Cache_Quiet
  imports Cache_Shared
begin

text \<open>
  The workload on which the cache as written is correct: one CPU, and a set \<open>F\<close> of fingerprints in
  which no two share an L2 bucket without sharing the L3 bucket (invalidations are in
  \<open>Cache_Invalidate\<close>). On it the pair of
  tiers refines an abstract cache (\<open>mru_store\<close>, \<open>mru_find\<close>), no operation faults, and grace periods
  may happen at any point, with the freed addresses handed out again.
\<close>

section \<open>The abstract cache\<close>

text \<open>
  A bucket as an association list from keys to expiry and stored bytes, most recently stored
  first.
\<close>

type_synonym abs_bucket = "((u64 \<times> ptr) \<times> (u64 \<times> u8 list)) list"

definition mru_store :: "u64 \<times> ptr \<Rightarrow> u64 \<times> u8 list \<Rightarrow> abs_bucket \<Rightarrow> abs_bucket" where
  "mru_store k x l = (k, x) # filter (\<lambda>(k', _). k' \<noteq> k) l"

definition mru_find :: "u64 \<Rightarrow> u64 \<times> ptr \<Rightarrow> abs_bucket \<Rightarrow> (u64 \<times> u8 list) option" where
  "mru_find now k l =
     (case map_of l k of Some (expiry, bytes) \<Rightarrow> if time_before now expiry then Some (expiry, bytes) else None
      | None \<Rightarrow> None)"

definition abs_entry :: "kcr_entry \<Rightarrow> (u64 \<times> ptr) \<times> (u64 \<times> u8 list)" where
  "abs_entry e = (key_of e, (expiry_jiffies e, result_union e))"

definition abs_bucket_of :: "cache_state \<Rightarrow> ptr list \<Rightarrow> abs_bucket" where
  "abs_bucket_of s qs = map (\<lambda>q. abs_entry (the (ent s q))) qs"

section \<open>Coherent states\<close>

definition alias_free :: "u64 set \<Rightarrow> bool" where
  "alias_free F \<longleftrightarrow> (\<forall>f\<in>F. \<forall>g\<in>F. l2_index f = l2_index g \<longrightarrow> l3_index f = l3_index g)"

definition same_cpu :: "env \<Rightarrow> env \<Rightarrow> bool" where
  "same_cpu v w \<longleftrightarrow> cpu w = cpu v \<and> node w = node v"

text \<open>
  \<open>A b\<close> lists the entries of L2 bucket \<open>b\<close>. Entries waiting for the grace period are allocated, queued
  once, and on no list.
\<close>

definition coherent :: "env \<Rightarrow> u64 set \<Rightarrow> (nat \<Rightarrow> ptr list) \<Rightarrow> cache_state \<Rightarrow> bool" where
  "coherent v F A s \<longleftrightarrow>
     l2_ready v s \<and> l3_ready v s
     \<and> (\<forall>h. \<not> lock (bucket_at s h)) \<and> (\<forall>i. \<not> ext_lock (tables s i))
     \<and> (\<forall>fp\<in>F. twin v s fp (A (l2_index fp)))
     \<and> (\<forall>b. distinct (entry_keys s (A b)))
     \<and> (\<forall>b. \<forall>q\<in>set (A b). \<exists>e. ent s q = Some e \<and> fingerprint e \<in> F \<and> l2_index (fingerprint e) = b)
     \<and> distinct (rcu_pending s)
     \<and> (\<forall>q\<in>set (rcu_pending s). q \<noteq> NULL \<and> ent s q \<noteq> None \<and> (\<forall>b. q \<notin> set (A b)))"

lemma same_cpu_heads:
  "same_cpu v w \<Longrightarrow> l2_head w s fp = l2_head v s fp" "same_cpu v w \<Longrightarrow> l3_head w s fp = l3_head v s fp"
  by (simp_all add: same_cpu_def l2_head_def l3_head_def socket_of_def)

lemma coherent_same_cpu: "same_cpu v w \<Longrightarrow> coherent v F A s \<Longrightarrow> coherent w F A s"
  by (simp add: coherent_def twin_def same_cpu_heads)
    (simp add: same_cpu_def l2_ready_def l3_ready_def)

lemma coherentD:
  assumes "coherent v F A s"
  shows "l2_ready v s" "l3_ready v s" "\<not> lock (bucket_at s h)" "\<not> ext_lock (tables s i)"
    "fp \<in> F \<Longrightarrow> twin v s fp (A (l2_index fp))" "distinct (entry_keys s (A b))"
    "q \<in> set (A b) \<Longrightarrow> \<exists>e. ent s q = Some e \<and> fingerprint e \<in> F \<and> l2_index (fingerprint e) = b"
    "distinct (rcu_pending s)"
    "q \<in> set (rcu_pending s) \<Longrightarrow> q \<noteq> NULL \<and> ent s q \<noteq> None \<and> (\<forall>b. q \<notin> set (A b))"
  using assms by (auto simp: coherent_def)

lemma coherent_disjoint:
  assumes "coherent v F A s" and "b \<noteq> b'" and "q \<in> set (A b)"
  shows "q \<notin> set (A b')"
  using coherentD(7) [OF assms(1), of q b] coherentD(7) [OF assms(1), of q b'] assms(2,3) by auto

lemma fresh_coherent:
  assumes "c \<noteq> NULL" and "t \<noteq> NULL" and "0 < n" and "0 \<le> node v"
  shows "coherent v F (\<lambda>_. []) (fresh_cache c t n)"
proof -
  have b: "bucket_at (fresh_cache c t n) h = \<lparr>head = NULL, lock = False\<rparr>" for h
    by (cases h) (simp_all add: fresh_cache_def)
  then have "hfirst (fresh_cache c t n) h = NULL" for h by (simp add: hfirst_def)
  with b assms show ?thesis
    by (simp add: coherent_def l2_ready_def l3_ready_def twin_def hlist_def)
      (simp add: fresh_cache_def)
qed

text \<open>
  Nothing else is around: an allocated entry is on a list or waits for the grace period, and the
  heads no fingerprint of the workload maps to are NULL.
\<close>

definition tidy :: "env \<Rightarrow> u64 set \<Rightarrow> (nat \<Rightarrow> ptr list) \<Rightarrow> cache_state \<Rightarrow> bool" where
  "tidy v F A s \<longleftrightarrow>
     (\<forall>q. ent s q \<noteq> None \<longrightarrow> q \<in> set (rcu_pending s) \<or> (\<exists>b. q \<in> set (A b)))
     \<and> (\<forall>h. hfirst s h \<noteq> NULL \<longrightarrow> (\<exists>fp\<in>F. h = l2_head v s fp \<or> h = l3_head v s fp))"

lemma tidyD:
  assumes "tidy v F A s"
  shows "ent s q = Some e \<Longrightarrow> q \<in> set (rcu_pending s) \<or> (\<exists>b. q \<in> set (A b))"
    "hfirst s h \<noteq> NULL \<Longrightarrow> \<exists>fp\<in>F. h = l2_head v s fp \<or> h = l3_head v s fp"
  using assms by (auto simp: tidy_def)

lemma fresh_tidy: "tidy v F A (fresh_cache c t n)"
proof -
  have "bucket_at (fresh_cache c t n) h = \<lparr>head = NULL, lock = False\<rparr>" for h
    by (cases h) (simp_all add: fresh_cache_def)
  then show ?thesis by (simp add: tidy_def hfirst_def) (simp add: fresh_cache_def ent_def)
qed

lemma tidy_upd_stats [simp]: "tidy v F A (upd_stats c f s) = tidy v F A s"
  by (simp add: tidy_def l2_head_def l3_head_def socket_of_def)

section \<open>Lookups on coherent states\<close>

lemma abs_bucket_simps [simp]:
  "abs_bucket_of s [] = []"
  "abs_bucket_of s (q # qs) = abs_entry (the (ent s q)) # abs_bucket_of s qs"
  by (simp_all add: abs_bucket_of_def)

lemma abs_entry_payload:
  assumes "payload e = payload e'"
  shows "abs_entry e = abs_entry e'"
  by (simp add: abs_entry_def payload_key [OF assms] payload_eqD [OF assms])

lemma abs_bucket_frame:
  assumes "cache_frame s t" and "\<And>q. q \<in> set qs \<Longrightarrow> ent s q \<noteq> None"
  shows "abs_bucket_of t qs = abs_bucket_of s qs"
proof -
  have "abs_entry (the (ent t q)) = abs_entry (the (ent s q))" if "q \<in> set qs" for q
  proof -
    from assms(2) [OF that] obtain e where e: "ent s q = Some e" by auto
    from cache_frame_ent [OF assms(1) e] obtain e' where "ent t q = Some e'" "payload e' = payload e"
      by blast
    with e abs_entry_payload [of e' e] show ?thesis by simp
  qed
  then show ?thesis by (simp add: abs_bucket_of_def)
qed

lemma map_of_abs_other:
  assumes "\<And>q. q \<in> set qs \<Longrightarrow> ent s q \<noteq> None" and "Some k \<notin> set (entry_keys s qs)"
  shows "map_of (abs_bucket_of s qs) k = None"
  using assms
proof (induction qs)
  case (Cons q qs)
  then obtain e where "ent s q = Some e" by fastforce
  with Cons show ?case by (simp add: abs_entry_def)
qed simp

lemma first_match_Cons:
  "g q = Some e \<Longrightarrow> first_match g P (q # qs) = (if P e then q else first_match g P qs)"
  by (simp add: first_match_def)

lemma first_match_none:
  "(\<And>q e. q \<in> set qs \<Longrightarrow> g q = Some e \<Longrightarrow> \<not> P e) \<Longrightarrow> first_match g P qs = NULL"
  by (simp add: first_match_def find_None_iff [THEN iffD2] split: option.splits)

text \<open>A concrete answer \<open>p\<close> and an abstract one agree.\<close>

definition answers :: "cache_state \<Rightarrow> ptr \<Rightarrow> (u64 \<times> u8 list) option \<Rightarrow> bool" where
  "answers s p r \<longleftrightarrow>
     (case r of None \<Rightarrow> p = NULL
      | Some x \<Rightarrow> p \<noteq> NULL \<and> (\<exists>e. ent s p = Some e \<and> (expiry_jiffies e, result_union e) = x))"

text \<open>The search of the concrete list computes the abstract lookup.\<close>

lemma first_match_live:
  fixes fp :: u64 and m :: ptr and j :: u64
  assumes "\<And>q. q \<in> set qs \<Longrightarrow> q \<noteq> NULL \<and> ent s q \<noteq> None" and "distinct (entry_keys s qs)"
  defines "p \<equiv> first_match (ent s) (live_match fp m j) qs"
  shows "answers s p (mru_find j (fp, m) (abs_bucket_of s qs))"
  using assms(1,2) unfolding p_def answers_def
proof (induction qs)
  case Nil
  then show ?case by (simp add: mru_find_def first_match_def)
next
  case (Cons q qs)
  then obtain e where e: "q \<noteq> NULL" "ent s q = Some e" by fastforce
  have keys: "Some (key_of e) \<notin> set (entry_keys s qs)" using Cons.prems(2) e by simp
  show ?case
  proof (cases "key_of e = (fp, m)")
    case True
    then have k: "fingerprint e = fp" "mm e = m" by (simp_all add: key_of_def)
    show ?thesis
    proof (cases "time_before j (expiry_jiffies e)")
      case t: True
      then show ?thesis
        using e k by (simp add: first_match_Cons live_match_def mru_find_def abs_entry_def key_of_def)
    next
      case False
      have "\<not> live_match fp m j e'" if "q' \<in> set qs" "ent s q' = Some e'" for q' e'
        using that keys True by (force simp: live_match_def key_of_def entry_keys_def)
      then have "first_match (ent s) (live_match fp m j) qs = NULL" by (rule first_match_none)
      with False e k show ?thesis
        by (simp add: first_match_Cons live_match_def mru_find_def abs_entry_def key_of_def)
    qed
  next
    case False
    then have "\<not> live_match fp m j e" by (auto simp: live_match_def key_of_def)
    then have fm: "first_match (ent s) (live_match fp m j) (q # qs) =
        first_match (ent s) (live_match fp m j) qs"
      using first_match_Cons [of "ent s" q e] e(2) by simp
    have mf: "mru_find j (fp, m) (abs_bucket_of s (q # qs)) = mru_find j (fp, m) (abs_bucket_of s qs)"
      using e(2) False by (simp add: mru_find_def abs_entry_def)
    have "distinct (entry_keys s qs)" using Cons.prems(2) by simp
    then show ?thesis unfolding fm mf using Cons.prems(1) by (intro Cons.IH) simp_all
  qed
qed

text \<open>Counters are not part of coherence.\<close>

lemma coherent_upd_stats: "coherent v F A s \<Longrightarrow> coherent v F A (upd_stats c f s)"
  by (simp add: coherent_def l2_ready_def l3_ready_def twin_def l2_head_def l3_head_def
      socket_of_def hlist_def entry_keys_def)

lemma coherent_lookup:
  assumes co: "coherent v F A s" and fp: "fp \<in> F" and w: "same_cpu v w"
  defines "qs \<equiv> A (l2_index fp)"
  shows "\<exists>p t. lookup_unified w fp m s = Inr (p, t) \<and> coherent v F A t \<and> ent t = ent s
    \<and> tidy v F A t = tidy v F A s
    \<and> answers t p (mru_find (jiffies w) (fp, m) (abs_bucket_of s qs))"
proof -
  note cw = coherent_same_cpu [OF w co]
  have tw: "twin w s fp qs" using coherentD(5) [OF cw fp] by (simp add: qs_def)
  let ?p = "first_match (ent s) (live_match fp m (jiffies w)) qs"
  obtain t where t: "lookup_unified w fp m s = Inr (?p, t)" "coherent v F A t" "ent t = ent s"
    "tidy v F A t = tidy v F A s"
    using twin_lookup [OF tw coherentD(1,2) [OF cw], of m] co coherent_upd_stats
    by (cases "?p = NULL") auto
  have "\<And>q. q \<in> set qs \<Longrightarrow> q \<noteq> NULL \<and> ent s q \<noteq> None" using twin_alloc [OF tw] by blast
  moreover have "distinct (entry_keys s qs)" using coherentD(6) [OF co] by (simp add: qs_def)
  ultimately have "answers s ?p (mru_find (jiffies w) (fp, m) (abs_bucket_of s qs))"
    by (rule first_match_live)
  then have "answers t ?p (mru_find (jiffies w) (fp, m) (abs_bucket_of s qs))"
    unfolding answers_def t(3) .
  with t show ?thesis by blast
qed

section \<open>Stores on coherent states\<close>

text \<open>The L3 index determines the L2 index.\<close>

lemma l3_index_l2_index: "l3_index f = l3_index g \<Longrightarrow> l2_index f = l2_index g"
proof -
  have "l2_index f = l3_index f mod KCR_L2_ENTRIES" for f
    by (simp add: l2_index_def l3_index_def KCR_L2_ENTRIES_def KCR_L3_ENTRIES_def mod_mod_cancel)
  then show "l3_index f = l3_index g \<Longrightarrow> l2_index f = l2_index g" by metis
qed

lemma placed_coherent:
  assumes co: "coherent v F A s" and pl: "placed s s1 p e" and pA: "\<And>b. p \<notin> set (A b)"
  shows "coherent v F A s1" and "\<And>b. abs_bucket_of s1 (A b) = abs_bucket_of s (A b)"
proof -
  have es: "ent s1 = (ent s)(p \<mapsto> e)" and hf: "hfirst s1 = hfirst s"
    and pe: "rcu_pending s1 = rcu_pending s"
    and lk: "\<And>h. lock (bucket_at s1 h) = lock (bucket_at s h)"
    and xl: "\<And>i. \<not> ext_lock (tables s i) \<Longrightarrow> \<not> ext_lock (tables s1 i)"
    and gl: "caches s1 = caches s" "l3_tables s1 = l3_tables s" "num_sockets s1 = num_sockets s"
    using pl by (simp_all add: placed_def)
  have same: "ent s1 q = ent s q" if "q \<in> set (A b)" for q b using that pA es by auto
  have hl: "hlist s1 h (A b) = hlist s h (A b)" for h b
    using dlist_frame [of "A b" "ent s1" "ent s"] same by (simp add: hlist_def hf)
  have keys: "entry_keys s1 (A b) = entry_keys s (A b)" for b
    using same by (simp add: entry_keys_def)
  have heads: "l2_head v s1 fp = l2_head v s fp" "l3_head v s1 fp = l3_head v s fp" for fp
    by (simp_all add: l2_head_def l3_head_def socket_of_def gl)
  have "ent s1 q \<noteq> None" if "ent s q \<noteq> None" for q using that es by auto
  with co same show "coherent v F A s1"
    unfolding coherent_def twin_def heads hl keys hf pe lk
    by (auto simp: l2_ready_def l3_ready_def gl xl)
  show "abs_bucket_of s1 (A b) = abs_bucket_of s (A b)" for b
    using same by (simp add: abs_bucket_of_def)
qed

lemma coherent_placed:
  assumes co: "coherent v F A s" and pl: "placed s s1 p e" and new: "ent s p = None"
  shows "coherent v F A s1" and "\<And>b. p \<notin> set (A b)" and "p \<notin> set (rcu_pending s1)"
    and "\<And>b. abs_bucket_of s1 (A b) = abs_bucket_of s (A b)"
proof -
  show pA: "p \<notin> set (A b)" for b using coherentD(7) [OF co, of p b] new by auto
  show "p \<notin> set (rcu_pending s1)" using coherentD(9) [OF co, of p] new pl by (auto simp: placed_def)
  show "coherent v F A s1" "abs_bucket_of s1 (A b) = abs_bucket_of s (A b)" for b
    using placed_coherent [OF co pl pA] by simp_all
qed

text \<open>Removing the old entry and putting the new one in front is \<open>mru_store\<close>.\<close>

lemma abs_remove1:
  assumes "\<And>q. q \<in> set qs \<Longrightarrow> q \<noteq> NULL \<and> ent s q \<noteq> None" and "distinct (entry_keys s qs)"
    and "distinct qs"
  shows "abs_bucket_of s (remove1 (first_match (ent s) (same_key fp m) qs) qs)
    = filter (\<lambda>(k', _). k' \<noteq> (fp, m)) (abs_bucket_of s qs)"
  using assms
proof (induction qs)
  case (Cons q qs)
  then obtain e where e: "q \<noteq> NULL" "ent s q = Some e" by fastforce
  show ?case
  proof (cases "key_of e = (fp, m)")
    case True
    have "Some (fp, m) \<notin> set (entry_keys s qs)" using Cons.prems(2) e True by simp
    then have "\<forall>x\<in>set (abs_bucket_of s qs). fst x \<noteq> (fp, m)"
      using Cons.prems(1) by (force simp: abs_bucket_of_def entry_keys_def abs_entry_def)
    then have "filter (\<lambda>(k', _). k' \<noteq> (fp, m)) (abs_bucket_of s qs) = abs_bucket_of s qs"
      by (auto simp: filter_id_conv)
    moreover have "first_match (ent s) (same_key fp m) (q # qs) = q"
      using e True by (simp add: first_match_Cons same_key_iff)
    ultimately show ?thesis using e True by (simp add: abs_entry_def)
  next
    case False
    have fm: "first_match (ent s) (same_key fp m) (q # qs) = first_match (ent s) (same_key fp m) qs"
      using e False by (simp add: first_match_Cons same_key_iff)
    have ih: "abs_bucket_of s (remove1 (first_match (ent s) (same_key fp m) qs) qs)
      = filter (\<lambda>(k', _). k' \<noteq> (fp, m)) (abs_bucket_of s qs)"
      using Cons.prems by (intro Cons.IH) simp_all
    have "first_match (ent s) (same_key fp m) qs \<noteq> q"
    proof -
      have "first_match (ent s) (same_key fp m) qs \<in> insert NULL (set qs)"
        by (auto simp: first_match_def find_Some_iff split: option.splits)
      then show ?thesis using Cons.prems(3) e(1) by auto
    qed
    then show ?thesis using e False ih unfolding fm by (simp add: abs_entry_def)
  qed
qed simp

text \<open>The lists other than the one stored to, before and after.\<close>

definition after_store :: "(nat \<Rightarrow> ptr list) \<Rightarrow> nat \<Rightarrow> ptr \<Rightarrow> ptr \<Rightarrow> nat \<Rightarrow> ptr list" where
  "after_store A b p old = A(b := p # remove1 old (A b))"

lemma after_store_subset: "set (after_store A b p old b') \<subseteq> insert p (set (A b'))"
  using set_remove1_subset [of old "A b"] by (auto simp: after_store_def)

lemma after_store_simps [simp]:
  "after_store A b p old b = p # remove1 old (A b)"
  "b' \<noteq> b \<Longrightarrow> after_store A b p old b' = A b'"
  by (simp_all add: after_store_def)

lemma l2_head_eq_iff [simp]: "l2_head v s f = l2_head v t g \<longleftrightarrow> l2_index f = l2_index g"
  by (simp add: l2_head_def)

text \<open>
  Between the two insertions of a store: \<open>p\<close> is the first node of its L2 bucket, the list of the L3 bucket,
  without the replaced entry, is still to get \<open>p\<close> in front, and \<open>A\<close> is otherwise as in a coherent state.
\<close>

definition half_stored :: "env \<Rightarrow> u64 set \<Rightarrow> (nat \<Rightarrow> ptr list) \<Rightarrow> u64 \<Rightarrow> ptr \<Rightarrow> cache_state \<Rightarrow> bool" where
  "half_stored v F A fp p s \<longleftrightarrow>
     l2_ready v s \<and> l3_ready v s
     \<and> (\<forall>h. \<not> lock (bucket_at s h)) \<and> (\<forall>i. \<not> ext_lock (tables s i))
     \<and> hfirst s (l2_head v s fp) = p \<and> (\<exists>l. dlist (ent s) l (hfirst s (l3_head v s fp)) (A (l2_index fp)))
     \<and> (\<forall>f\<in>F. l2_index f \<noteq> l2_index fp \<longrightarrow> twin v s f (A (l2_index f)))
     \<and> (\<forall>b. distinct (entry_keys s (A b)))
     \<and> (\<forall>b. \<forall>q\<in>set (A b). \<exists>e. ent s q = Some e \<and> fingerprint e \<in> F \<and> l2_index (fingerprint e) = b)
     \<and> p \<noteq> NULL \<and> p \<notin> set (rcu_pending s) \<and> (\<forall>b. p \<notin> set (A b))
     \<and> (\<exists>e. ent s p = Some e \<and> fingerprint e = fp \<and> Some (key_of e) \<notin> set (entry_keys s (A (l2_index fp))))
     \<and> distinct (rcu_pending s)
     \<and> (\<forall>q\<in>set (rcu_pending s). q \<noteq> NULL \<and> ent s q \<noteq> None \<and> (\<forall>b. q \<notin> set (A b)))"

lemma half_storedD:
  assumes "half_stored v F A fp p s"
  shows "l2_ready v s" "l3_ready v s" "\<not> lock (bucket_at s h)" "\<not> ext_lock (tables s i)"
    "hfirst s (l2_head v s fp) = p" "\<exists>l. dlist (ent s) l (hfirst s (l3_head v s fp)) (A (l2_index fp))"
    "f \<in> F \<Longrightarrow> l2_index f \<noteq> l2_index fp \<Longrightarrow> twin v s f (A (l2_index f))"
    "distinct (entry_keys s (A b))"
    "q \<in> set (A b) \<Longrightarrow> \<exists>e. ent s q = Some e \<and> fingerprint e \<in> F \<and> l2_index (fingerprint e) = b"
    "p \<noteq> NULL" "p \<notin> set (rcu_pending s)" "p \<notin> set (A b)"
    "\<exists>e. ent s p = Some e \<and> fingerprint e = fp \<and> Some (key_of e) \<notin> set (entry_keys s (A (l2_index fp)))"
    "distinct (rcu_pending s)"
    "q \<in> set (rcu_pending s) \<Longrightarrow> q \<noteq> NULL \<and> ent s q \<noteq> None \<and> (\<forall>b. q \<notin> set (A b))"
  using assms unfolding half_stored_def by blast+

lemma l3_head_cong: "alias_free F \<Longrightarrow> f \<in> F \<Longrightarrow> g \<in> F \<Longrightarrow> l2_index f = l2_index g \<Longrightarrow> l3_head v s f = l3_head v s g"
  unfolding alias_free_def l3_head_def by metis

lemma l3_head_index: "l3_head v s f = l3_head v s g \<Longrightarrow> l2_index f = l2_index g"
  by (rule l3_index_l2_index) (simp add: l3_head_def)

lemma frame_heads: "cache_frame s t \<Longrightarrow> l2_head v t f = l2_head v s f" "cache_frame s t \<Longrightarrow> l3_head v t f = l3_head v s f"
  by (simp_all add: l2_head_def l3_head_def frame_socket)

lemma frame_ids:
  "cache_frame s t \<Longrightarrow> \<exists>e. ent s q = Some e \<and> fingerprint e \<in> F \<and> l2_index (fingerprint e) = b \<Longrightarrow>
   \<exists>e. ent t q = Some e \<and> fingerprint e \<in> F \<and> l2_index (fingerprint e) = b"
  by (metis cache_frame_ent payload_eqD(1))

text \<open>A list whose nodes and first pointer are as before is as before.\<close>

lemma twin_other:
  assumes "twin v s f qs" and "cache_frame s t" and "\<And>q. q \<in> set qs \<Longrightarrow> ent t q = ent s q"
    and "hfirst t (l2_head v s f) = hfirst s (l2_head v s f)" and "hfirst t (l3_head v s f) = hfirst s (l3_head v s f)"
  shows "twin v t f qs"
  using assms dlist_frame [of qs "ent t" "ent s"] by (simp add: twin_def frame_heads hlist_def)

text \<open>The first insertion.\<close>

lemma coherent_half:
  assumes co: "coherent v F A s" and F: "alias_free F" "fp \<in> F"
    and p: "p \<noteq> NULL" "ent s p = Some e" "fingerprint e = fp"
    and fresh: "\<And>b. p \<notin> set (A b)" "p \<notin> set (rcu_pending s)"
  defines "old \<equiv> first_match (ent s) (same_key fp (mm e)) (A (l2_index fp))"
  shows "\<exists>u. store_in_l2 (cpu v) p fp s = Inr u \<and> cache_frame s u
    \<and> half_stored v F (A(l2_index fp := remove1 old (A (l2_index fp)))) fp p u
    \<and> (\<forall>h. h \<noteq> l2_head v s fp \<and> h \<noteq> l3_head v s fp \<longrightarrow> hfirst u h = hfirst s h)
    \<and> rcu_pending u = rcu_pending s @ (if old \<noteq> NULL then [old] else [])"
proof -
  define b where "b = l2_index fp"
  let ?h2 = "l2_head v s fp" and ?h3 = "l3_head v s fp" and ?rs = "remove1 old (A b)" and ?A = "A(b := remove1 old (A b))"
  have tw: "twin v s fp (A b)" using coherentD(5) [OF co F(2)] by (simp add: b_def)
  then have wf: "hlist s ?h3 (A b)" and same_first: "hfirst s ?h2 = hfirst s ?h3" by (simp_all add: twin_def)
  have old: "old = first_match (ent s) (same_key fp (mm e)) (A b)" by (simp add: old_def b_def)
  from replace_through_alias [OF wf same_first _ coherentD(3) [OF co] p(1,2) fresh(1) old] obtain u l where
    u: "replace_in_bucket ?h2 p fp s = Inr u" "dlist (ent u) l (hfirst u ?h3) ?rs" "hfirst u ?h2 = p"
    and hd: "\<And>h. h \<noteq> ?h2 \<Longrightarrow> h \<noteq> ?h3 \<Longrightarrow> hfirst u h = hfirst s h"
    and en: "\<And>q. q \<notin> set (p # A b) \<Longrightarrow> ent u q = ent s q"
    and pe: "rcu_pending u = rcu_pending s @ (if old \<noteq> NULL then [old] else [])" by auto
  have fr: "cache_frame s u" by (rule replace_in_bucket_frame(1) [OF u(1)])
  have s2: "store_in_l2 (cpu v) p fp s = Inr u"
    using u(1) coherentD(1) [OF co] by (simp add: store_in_l2_def l2_ready_def l2_head_def)
  have ch: "chain (ent s) (hfirst s ?h3) (A b)" using twin_chain [OF tw] by simp
  have oldA: "old \<in> set (A b)" if "old \<noteq> NULL"
    using first_match_split [OF ch old [symmetric] that] by (metis in_set_conv_decomp)
  have keys: "distinct (Some (key_of e) # entry_keys s ?rs)"
    using keys_after_replace [OF ch coherentD(6) [OF co] old p(2,3)] p(2) by simp
  have sub: "set (?A b') \<subseteq> set (A b')" for b' using set_remove1_subset [of old "A b"] by simp
  from cache_frame_ent [OF fr p(2)] obtain e' where e': "ent u p = Some e'" "payload e' = payload e" .
  have others: "twin v u f (?A (l2_index f))" if f: "f \<in> F" "l2_index f \<noteq> b" for f
  proof -
    have "l3_head v s f \<noteq> ?h3" using l3_head_index [of v s f fp] f(2) by (auto simp: b_def)
    moreover have "l2_head v s f \<noteq> ?h2" using f(2) by (simp add: b_def)
    moreover have "ent u q = ent s q" if "q \<in> set (A (l2_index f))" for q
      using that coherent_disjoint [OF co f(2) that] fresh(1) by (intro en) auto
    ultimately have "twin v u f (A (l2_index f))"
      using coherentD(5) [OF co f(1)] by (intro twin_other [OF _ fr]) (auto intro: hd)
    with f(2) show ?thesis by simp
  qed
  have ids: "\<exists>e. ent u q = Some e \<and> fingerprint e \<in> F \<and> l2_index (fingerprint e) = b'"
    if "q \<in> set (?A b')" for q b'
    using that sub [of b'] coherentD(7) [OF co, of q b'] by (intro frame_ids [OF fr]) auto
  have dk: "distinct (entry_keys u (?A b'))" for b'
    unfolding entry_keys_frame [OF fr] using keys coherentD(6) [OF co] by simp
  have pd: "distinct (rcu_pending u)" unfolding pe using coherentD(8,9) [OF co] oldA by auto
  have pq: "q \<noteq> NULL \<and> ent u q \<noteq> None \<and> (\<forall>b'. q \<notin> set (?A b'))" if "q \<in> set (rcu_pending u)" for q
  proof (cases "q \<in> set (rcu_pending s)")
    case True
    with coherentD(9) [OF co True] sub show ?thesis using cache_frame_dom [OF fr, of q] by auto
  next
    case False
    then have q: "q = old" "old \<noteq> NULL" using that pe by (auto split: if_splits)
    have "old \<notin> set ?rs" using chain_distinct [OF ch] by simp
    moreover have "old \<notin> set (A b')" if "b' \<noteq> b" for b'
      by (rule coherent_disjoint [OF co that [symmetric] oldA [OF q(2)]])
    ultimately have "old \<notin> set (?A b')" for b' by (cases "b' = b") simp_all
    then show ?thesis using twin_alloc [OF tw oldA] q cache_frame_dom [OF fr] by simp
  qed
  have "p \<notin> set (rcu_pending u)" using pe fresh oldA by auto
  moreover have "p \<notin> set (?A b')" for b' using sub fresh(1) by blast
  moreover have "Some (key_of e') \<notin> set (entry_keys u ?rs)"
    unfolding entry_keys_frame [OF fr] payload_key [OF e'(2)] using keys by simp
  moreover have "fingerprint e' = fp" using p(3) payload_eqD [OF e'(2)] by simp
  ultimately have "half_stored v F ?A fp p u"
    unfolding half_stored_def frame_heads [OF fr] b_def [symmetric]
    using coherentD(1-4) [OF co] frame_ready [OF fr] fr u(2,3) others ids dk pd pq e'(1) p(1)
    by (simp add: cache_frame_def) blast
  with s2 fr hd pe show ?thesis unfolding b_def by blast
qed

text \<open>The second insertion.\<close>

lemma half_coherent:
  assumes ha: "half_stored v F A fp p s" and F: "alias_free F" "fp \<in> F"
  defines "B \<equiv> A(l2_index fp := p # A (l2_index fp))"
  shows "\<exists>t. store_in_l3 v p fp s = Inr t \<and> cache_frame s t \<and> coherent v F B t
    \<and> hfirst t = (hfirst s)(l3_head v s fp := p) \<and> rcu_pending t = rcu_pending s"
proof -
  define b where "b = l2_index fp"
  let ?h2 = "l2_head v s fp" and ?h3 = "l3_head v s fp"
  note D = half_storedD [OF ha, folded b_def]
  from D(6,13) obtain l e where l: "dlist (ent s) l (hfirst s ?h3) (A b)"
    and e: "ent s p = Some e" "fingerprint e = fp" "Some (key_of e) \<notin> set (entry_keys s (A b))" by blast
  have new: "first_match (ent s) (same_key fp (mm e)) (A b) = NULL"
  proof (rule first_match_none)
    fix q x assume "q \<in> set (A b)" "ent s q = Some x"
    then have "Some (key_of x) \<in> set (entry_keys s (A b))" by (force simp: entry_keys_def)
    with e(2,3) show "\<not> same_key fp (mm e) x" by (auto simp: same_key_def key_of_def)
  qed
  from insert_and_repair [OF l D(3) D(10) e(1) D(12) new] obtain t where
    t: "replace_in_bucket ?h3 p fp s = Inr t" "hlist t ?h3 (p # A b)" "hfirst t = (hfirst s)(?h3 := p)"
    and en: "\<And>q. q \<notin> set (p # A b) \<Longrightarrow> ent t q = ent s q" and pe: "rcu_pending t = rcu_pending s" by blast
  have fr: "cache_frame s t" by (rule replace_in_bucket_frame(1) [OF t(1)])
  have s3: "store_in_l3 v p fp s = Inr t"
    using t(1) D(2) by (simp add: store_in_l3_def l3_socket_ready l3_head_def)
  have disj: "q \<notin> set (A b')" if "q \<in> set (A b'')" "b'' \<noteq> b'" for q b' b''
    using D(9) [of q b''] D(9) [of q b'] that by auto
  have twins: "twin v t f (B (l2_index f))" if f: "f \<in> F" for f
  proof (cases "l2_index f = b")
    case True
    then have h: "l2_head v t f = ?h2" "l3_head v t f = ?h3"
      using l3_head_cong [OF F(1) f F(2), of v s] by (simp_all add: frame_heads [OF fr] b_def)
    show ?thesis using True t(2,3) D(5) unfolding twin_def h B_def b_def by simp
  next
    case False
    then have "l3_head v s f \<noteq> ?h3" using l3_head_index [of v s f fp] by (auto simp: b_def)
    moreover have "ent t q = ent s q" if "q \<in> set (A (l2_index f))" for q
      using that disj [OF that False] D(12) [of "l2_index f"] by (intro en) auto
    ultimately have "twin v t f (A (l2_index f))"
      using D(7) [OF f False] by (intro twin_other [OF _ fr]) (auto simp: t(3))
    with False show ?thesis by (simp add: B_def b_def)
  qed
  have ids: "\<exists>e. ent t q = Some e \<and> fingerprint e \<in> F \<and> l2_index (fingerprint e) = b'"
    if "q \<in> set (B b')" for q b'
    using that D(9) [of q b'] e(1,2) F(2)
    by (intro frame_ids [OF fr]) (auto simp: B_def b_def split: if_splits)
  have dk: "distinct (entry_keys t (B b'))" for b'
    unfolding entry_keys_frame [OF fr] using D(8) e(1,3) by (simp add: B_def b_def)
  have pq: "q \<noteq> NULL \<and> ent t q \<noteq> None \<and> (\<forall>b'. q \<notin> set (B b'))" if "q \<in> set (rcu_pending t)" for q
    using that D(11) D(15) [of q] cache_frame_dom [OF fr, of q] unfolding pe by (auto simp: B_def)
  have "coherent v F B t"
    using frame_ready [OF fr] D(1-4) fr twins ids dk pq D(14) pe by (simp add: coherent_def cache_frame_def)
  with s3 fr t(3) pe show ?thesis by blast
qed

lemma coherent_insert:
  assumes co: "coherent v F A s" and F: "alias_free F" "fp \<in> F"
    and p: "p \<noteq> NULL" "ent s p = Some e" "fingerprint e = fp"
    and fresh: "\<And>b. p \<notin> set (A b)" "p \<notin> set (rcu_pending s)"
  defines "b \<equiv> l2_index fp"
  defines "old \<equiv> first_match (ent s) (same_key fp (mm e)) (A b)"
  shows "\<exists>u t. store_in_l2 (cpu v) p fp s = Inr u \<and> store_in_l3 v p fp u = Inr t
    \<and> cache_frame s t \<and> coherent v F (after_store A b p old) t
    \<and> (\<forall>h. h \<noteq> l2_head v s fp \<and> h \<noteq> l3_head v s fp \<longrightarrow> hfirst t h = hfirst s h)
    \<and> rcu_pending t = rcu_pending s @ (if old \<noteq> NULL then [old] else [])"
proof -
  from coherent_half [OF co F p fresh] obtain u where
    u: "store_in_l2 (cpu v) p fp s = Inr u" "cache_frame s u" "half_stored v F (A(b := remove1 old (A b))) fp p u"
    "rcu_pending u = rcu_pending s @ (if old \<noteq> NULL then [old] else [])"
    and hd: "\<And>h. h \<noteq> l2_head v s fp \<Longrightarrow> h \<noteq> l3_head v s fp \<Longrightarrow> hfirst u h = hfirst s h"
    by (auto simp: b_def old_def)
  from half_coherent [OF u(3) F] obtain t where
    t: "store_in_l3 v p fp u = Inr t" "cache_frame u t" "coherent v F (after_store A b p old) t"
    "hfirst t = (hfirst u)(l3_head v u fp := p)" "rcu_pending t = rcu_pending u"
    by (auto simp: b_def after_store_def)
  show ?thesis
    using u(1,4) t(1,3,4,5) cache_frame_trans [OF u(2) t(2)] hd frame_heads [OF u(2)]
    by (intro exI [of _ u] exI [of _ t]) (auto simp: fun_upd_other)
qed

text \<open>\<open>s\<close> is tidy but for the new entry; \<open>t\<close> is the state after its insertion.\<close>

lemma tidy_insert:
  assumes co: "coherent v F A s" and fr: "cache_frame s t" and fp: "fp \<in> F"
    and td: "\<And>q. ent s q \<noteq> None \<Longrightarrow> q = p \<or> q \<in> set (rcu_pending s) \<or> (\<exists>b. q \<in> set (A b))"
      "\<And>h. hfirst s h \<noteq> NULL \<Longrightarrow> \<exists>fp\<in>F. h = l2_head v s fp \<or> h = l3_head v s fp"
    and hd: "\<And>h. h \<noteq> l2_head v s fp \<Longrightarrow> h \<noteq> l3_head v s fp \<Longrightarrow> hfirst t h = hfirst s h"
    and pe: "rcu_pending t = rcu_pending s @ (if old \<noteq> NULL then [old] else [])"
  shows "tidy v F (after_store A (l2_index fp) p old) t"
  unfolding tidy_def
proof (intro conjI allI impI)
  let ?b = "l2_index fp"
  fix q assume "ent t q \<noteq> None"
  then have "ent s q \<noteq> None" using cache_frame_dom [OF fr] by simp
  from td(1) [OF this] show "q \<in> set (rcu_pending t) \<or> (\<exists>b. q \<in> set (after_store A ?b p old b))"
  proof (elim disjE exE)
    assume "q = p"
    then have "q \<in> set (after_store A ?b p old ?b)" by simp
    then show ?thesis by blast
  next
    assume "q \<in> set (rcu_pending s)"
    then show ?thesis by (simp add: pe)
  next
    fix b assume q: "q \<in> set (A b)"
    have "q \<noteq> NULL"
      using coherentD(7) [OF co q] twin_alloc [OF coherentD(5) [OF co], of _ q] q by metis
    then have "q \<in> set (after_store A ?b p old b) \<or> q = old \<and> old \<noteq> NULL"
      using q by (cases "b = ?b"; cases "q = old") auto
    then show ?thesis by (auto simp: pe)
  qed
next
  have heads: "l2_head v t f = l2_head v s f" "l3_head v t f = l3_head v s f" for f
    using frame_socket [OF fr] by (simp_all add: l2_head_def l3_head_def)
  fix h assume "hfirst t h \<noteq> NULL"
  then have "hfirst s h \<noteq> NULL \<or> h = l2_head v s fp \<or> h = l3_head v s fp" using hd by metis
  then show "\<exists>fp\<in>F. h = l2_head v t fp \<or> h = l3_head v t fp"
    unfolding heads using td(2) fp by blast
qed

end
