(* ===== verification/Cache_Invalidate.thy ===== *)
theory Cache_Invalidate
  imports Cache_Quiet Cache_Flush
begin

text \<open>
  \<open>invalidate_range\<close> on the quiet workload. The L2 loop reaches the shared lists through the L2 heads,
  and unlinks the entries of the memory space from them; it does not move an L2 head, so the lists
  stay shared exactly if no L2 head points to an entry of the memory space. Under that condition
  an invalidation is a filter of the abstract buckets.
\<close>

section \<open>Flushing a shared list\<close>

definition no_newest :: "env \<Rightarrow> ptr \<Rightarrow> cache_state \<Rightarrow> bool" where
  "no_newest v m s \<longleftrightarrow> (\<forall>b<KCR_L2_ENTRIES. \<not> belongs s m (hfirst s (L2Head (cpu v) b)))"

definition keep_others :: "cache_state \<Rightarrow> ptr \<Rightarrow> ptr list \<Rightarrow> ptr list" where
  "keep_others s m = filter (\<lambda>q. \<not> belongs s m q)"

lemma keep_others_simps [simp]:
  "set (keep_others s m qs) = {q \<in> set qs. \<not> belongs s m q}"
  "keep_others s m (keep_others s m qs) = keep_others s m qs" "keep_others s m [] = []"
  by (simp_all add: keep_others_def)

lemma entry_keys_filter: "distinct (entry_keys s qs) \<Longrightarrow> distinct (entry_keys s (filter P qs))"
  by (induction qs) (auto simp: entry_keys_def)

lemma first_of_keep: "\<not> belongs s m (first_of qs) \<Longrightarrow> first_of (keep_others s m qs) = first_of qs"
  by (cases qs) (simp_all add: keep_others_def)

lemma hlist_first: "hlist s h qs \<Longrightarrow> hfirst s h = first_of qs"
  by (auto simp: hlist_def dest: dlist_first)

text \<open>The L2 bucket \<open>b\<close> of a coherent and tidy state is empty or shares the list of some L3 bucket.\<close>

lemma coherent_l2_bucket:
  assumes "coherent v F A s" and "tidy v F A s"
  obtains (empty) "hfirst s (L2Head (cpu v) b) = NULL"
  | (shared) fp where "fp \<in> F" "b = l2_index fp" "L2Head (cpu v) b = l2_head v s fp"
      "hfirst s (L2Head (cpu v) b) = hfirst s (l3_head v s fp)" "hlist s (l3_head v s fp) (A b)"
proof (cases "hfirst s (L2Head (cpu v) b) = NULL")
  case False
  from tidyD(2) [OF assms(2) this] obtain fp where fp: "fp \<in> F" "L2Head (cpu v) b = l2_head v s fp"
    by (auto simp: l3_head_def)
  then have b: "b = l2_index fp" by (simp add: l2_head_def)
  have "twin v s fp (A b)" using coherentD(5) [OF assms(1) fp(1)] by (simp only: b)
  then show thesis by (intro shared [OF fp(1) b fp(2)]) (simp_all only: twin_def fp(2))
qed (rule empty)

lemma coherent_empty:
  assumes "coherent v F A s" and "hfirst s (L2Head (cpu v) b) = NULL"
  shows "A b = []"
proof (rule ccontr)
  assume "A b \<noteq> []"
  then obtain q qs where q: "A b = q # qs" by (cases "A b") auto
  then have "q \<in> set (A b)" by simp
  from coherentD(7) [OF assms(1) this] obtain e :: kcr_entry where
    e: "fingerprint e \<in> F" "l2_index (fingerprint e) = b" by blast
  have "hfirst s (l2_head v s (fingerprint e)) = NULL" using assms(2) by (simp add: l2_head_def e(2))
  with coherentD(5) [OF assms(1) e(1)] show False by (auto simp: e(2) twin_def q hlist_def)
qed

text \<open>
  \<open>t\<close> is \<open>s\<close> after the flush of the L2 buckets \<open>bs\<close>: the L3 lists behind them are filtered and the
  removed entries are queued, once. No other head has moved, in particular no L2 head.
\<close>

definition flushed ::
    "env \<Rightarrow> u64 set \<Rightarrow> (nat \<Rightarrow> ptr list) \<Rightarrow> ptr \<Rightarrow> nat list \<Rightarrow> cache_state \<Rightarrow> cache_state \<Rightarrow> bool" where
  "flushed v F A m bs s t \<longleftrightarrow> cache_frame s t
     \<and> (\<forall>f\<in>F. hlist t (l3_head v s f)
          (if l2_index f \<in> set bs then keep_others s m (A (l2_index f)) else A (l2_index f)))
     \<and> (\<forall>h. (\<forall>f\<in>F. h \<noteq> l3_head v s f) \<longrightarrow> hfirst t h = hfirst s h)
     \<and> distinct (rcu_pending t)
     \<and> set (rcu_pending t) =
         set (rcu_pending s) \<union> {q. \<exists>b\<in>set bs. q \<in> set (A b) \<and> belongs s m q}"

lemma flushedD:
  assumes "flushed v F A m bs s t"
  shows "cache_frame s t"
    "f \<in> F \<Longrightarrow> l2_index f \<in> set bs \<Longrightarrow> hlist t (l3_head v s f) (keep_others s m (A (l2_index f)))"
    "f \<in> F \<Longrightarrow> l2_index f \<notin> set bs \<Longrightarrow> hlist t (l3_head v s f) (A (l2_index f))"
    "(\<And>f. f \<in> F \<Longrightarrow> h \<noteq> l3_head v s f) \<Longrightarrow> hfirst t h = hfirst s h"
    "hfirst t (L2Head c b) = hfirst s (L2Head c b)"
    "distinct (rcu_pending t)"
    "set (rcu_pending t) = set (rcu_pending s) \<union> {q. \<exists>b\<in>set bs. q \<in> set (A b) \<and> belongs s m q}"
proof -
  have l: "hlist t (l3_head v s f)
      (if l2_index f \<in> set bs then keep_others s m (A (l2_index f)) else A (l2_index f))" if "f \<in> F" for f
    using assms that by (simp only: flushed_def)
  show "f \<in> F \<Longrightarrow> l2_index f \<in> set bs \<Longrightarrow> hlist t (l3_head v s f) (keep_others s m (A (l2_index f)))"
    "f \<in> F \<Longrightarrow> l2_index f \<notin> set bs \<Longrightarrow> hlist t (l3_head v s f) (A (l2_index f))"
    using l [of f] by simp_all
qed (use assms in \<open>simp_all add: flushed_def l3_head_def\<close>)

lemma frame_lock: "cache_frame s t \<Longrightarrow> lock (bucket_at t h) = lock (bucket_at s h)"
  by (simp only: cache_frame_def)

lemma alias_free_l3: "alias_free F \<Longrightarrow> f \<in> F \<Longrightarrow> g \<in> F \<Longrightarrow> l2_index f = l2_index g \<Longrightarrow>
    l3_head v s f = l3_head v s g"
  unfolding alias_free_def l3_head_def by metis

lemma l3_head_l2_index: "l3_head v s f = l3_head v s g \<Longrightarrow> l2_index f = l2_index g"
  by (rule l3_index_l2_index) (simp add: l3_head_def)

lemma flush_one_empty:
  assumes co: "coherent v F A s" and fl: "flushed v F A m bs s t" and A: "A b = []"
    and empty: "hfirst s (L2Head (cpu v) b) = NULL"
  shows "flush_bucket m acc (L2Head (cpu v) b) t = Inr t" "flushed v F A m (bs @ [b]) s t"
proof -
  have "\<not> lock (bucket_at t (L2Head (cpu v) b))"
    using coherentD(3) [OF co] frame_lock [OF flushedD(1) [OF fl]] by metis
  with empty show "flush_bucket m acc (L2Head (cpu v) b) t = Inr t"
    by (intro flush_empty) (simp_all add: flushedD(5) [OF fl])
  have "hlist t (l3_head v s f)
      (if l2_index f \<in> set (bs @ [b]) then keep_others s m (A (l2_index f)) else A (l2_index f))"
    if "f \<in> F" for f
    using flushedD(2,3) [OF fl that] A by (cases "l2_index f = b") auto
  with fl A show "flushed v F A m (bs @ [b]) s t" by (simp add: flushed_def)
qed

lemma flush_one_more:
  assumes co: "coherent v F A s" and td: "tidy v F A s" and F: "alias_free F" and acc: "counts_only acc"
    and fl: "flushed v F A m bs s t" and b: "b \<notin> set bs"
  shows "\<exists>u. flush_bucket m acc (L2Head (cpu v) b) t = Inr u \<and> flushed v F A m (bs @ [b]) s u"
  using co td
proof (cases rule: coherent_l2_bucket [of v F A s b])
  case empty
  show ?thesis using flush_one_empty [OF co fl coherent_empty [OF co empty] empty] by blast
next
  case (shared fp)
  let ?h3 = "l3_head v s fp"
  note fr = flushedD(1) [OF fl]
  have wf: "hlist t ?h3 (A b)" using flushedD(3) [OF fl shared(1)] b by (simp add: shared(2))
  have first: "hfirst t (L2Head (cpu v) b) = first_of (A b)"
    using shared(4) hlist_first [OF shared(5)] by (simp add: flushedD(5) [OF fl])
  have lk: "\<not> lock (bucket_at t (L2Head (cpu v) b))"
    using coherentD(3) [OF co] frame_lock [OF fr] by metis
  from flush_bucket_through [OF wf first lk acc, of m] obtain u where
    u: "flush_bucket m acc (L2Head (cpu v) b) t = Inr u" "hlist u ?h3 (keep_others s m (A b))"
    "rcu_pending u = rcu_pending t @ filter (belongs s m) (A b)" "cache_frame t u"
    and hd: "\<And>h. h \<noteq> ?h3 \<Longrightarrow> hfirst u h = hfirst t h" and en: "\<And>q. q \<notin> set (A b) \<Longrightarrow> ent u q = ent t q"
    unfolding keep_others_def belongs_frame [OF fr] by blast
  have "hlist u (l3_head v s f)
      (if l2_index f \<in> set (bs @ [b]) then keep_others s m (A (l2_index f)) else A (l2_index f))"
    if f: "f \<in> F" for f
  proof (cases "l2_index f = b")
    case True
    then have "l3_head v s f = ?h3" using F f shared(1,2) by (intro alias_free_l3) simp_all
    with u(2) True show ?thesis by simp
  next
    case False
    let ?l = "if l2_index f \<in> set bs then keep_others s m (A (l2_index f)) else A (l2_index f)"
    have "l3_head v s f \<noteq> ?h3" using l3_head_l2_index False shared(2) by metis
    moreover have "ent u q = ent t q" if "q \<in> set ?l" for q
      using that coherent_disjoint [OF co False, of q] by (intro en) (auto split: if_splits)
    ultimately have "hlist u (l3_head v s f) ?l = hlist t (l3_head v s f) ?l"
      using dlist_frame [of ?l "ent u" "ent t"] by (simp add: hlist_def hd)
    with fl f False show ?thesis by (simp add: flushed_def)
  qed
  moreover have "distinct (rcu_pending u)"
  proof -
    have "q \<notin> set (rcu_pending t)" if q: "q \<in> set (A b)" for q
    proof -
      have "q \<notin> set (rcu_pending s)" using coherentD(9) [OF co, of q] q by blast
      moreover have "q \<notin> set (A b')" if "b' \<in> set bs" for b'
        using coherent_disjoint [OF co _ q] that b by metis
      ultimately show ?thesis unfolding flushedD(7) [OF fl] by blast
    qed
    then show ?thesis using flushedD(6) [OF fl] hlist_distinct [OF shared(5)] by (auto simp: u(3))
  qed
  moreover have "hfirst u h = hfirst s h" if "\<forall>f\<in>F. h \<noteq> l3_head v s f" for h
    using that hd [of h] flushedD(4) [OF fl, of h] shared(1) by metis
  moreover have "set (rcu_pending u) = set (rcu_pending s) \<union> {q. \<exists>b\<in>set (bs @ [b]). q \<in> set (A b) \<and> belongs s m q}"
    unfolding u(3) set_append flushedD(7) [OF fl] by auto
  ultimately have "flushed v F A m (bs @ [b]) s u"
    using cache_frame_trans [OF fr u(4)] unfolding flushed_def by blast
  with u(1) show ?thesis by blast
qed

text \<open>The loop over the L2 buckets.\<close>

lemma flush_l2_buckets:
  assumes "coherent v F A s" and "tidy v F A s" and "alias_free F" and "counts_only acc"
  shows "distinct bs \<Longrightarrow> \<exists>t. rfold (\<lambda>b. flush_bucket m acc (L2Head (cpu v) b)) bs s = Inr t
    \<and> flushed v F A m bs s t"
proof (induction bs rule: rev_induct)
  case Nil
  have "hlist s (l3_head v s f) (A (l2_index f))" if "f \<in> F" for f
    using coherentD(5) [OF assms(1) that] by (simp add: twin_def)
  then show ?case using coherentD(8) [OF assms(1)] by (simp add: flushed_def)
next
  case (snoc b bs)
  then obtain t where t: "rfold (\<lambda>b. flush_bucket m acc (L2Head (cpu v) b)) bs s = Inr t"
    "flushed v F A m bs s t" by auto
  from flush_one_more [OF assms t(2), of b] snoc.prems t(1) show ?case by (auto simp: rfold_append)
qed

text \<open>If no L2 head points to an entry of the memory space the result is coherent.\<close>

lemma flushed_coherent:
  assumes co: "coherent v F A s" and td: "tidy v F A s" and new: "no_newest v m s"
    and fl: "flushed v F A m [0..<KCR_L2_ENTRIES] s t"
  defines "B \<equiv> \<lambda>b. keep_others s m (A b)"
  shows "coherent v F B t" and "tidy v F B t"
proof -
  note fr = flushedD(1) [OF fl]
  have idx: "l2_index f < KCR_L2_ENTRIES" for f by (simp add: l2_index_def KCR_L2_ENTRIES_def)
  have pend: "q \<in> set (rcu_pending t) \<longleftrightarrow> q \<in> set (rcu_pending s) \<or> (\<exists>b. q \<in> set (A b) \<and> belongs s m q)" for q
  proof -
    have "b < KCR_L2_ENTRIES" if "q \<in> set (A b)" for b using coherentD(7) [OF co that] idx by auto
    then show ?thesis unfolding flushedD(7) [OF fl] by auto
  qed
  have al: "q \<noteq> NULL \<and> ent s q \<noteq> None" if "q \<in> set (A b)" for q b
    using coherentD(7) [OF co that] twin_alloc [OF coherentD(5) [OF co]] that by fastforce
  have heads: "l2_head v t f = l2_head v s f" "l3_head v t f = l3_head v s f" for f
    using frame_socket [OF fr] by (simp_all add: l2_head_def l3_head_def)
  have twins: "twin v t f (B (l2_index f))" if f: "f \<in> F" for f
  proof -
    let ?qs = "A (l2_index f)"
    have wf: "hlist t (l3_head v s f) (keep_others s m ?qs)"
      using flushedD(2) [OF fl f] idx [of f] by simp
    have h2: "hfirst t (l2_head v s f) = hfirst s (l2_head v s f)"
      by (simp add: l2_head_def flushedD(5) [OF fl])
    have "hfirst s (l2_head v s f) = first_of ?qs"
      using coherentD(5) [OF co f] hlist_first by (auto simp: twin_def)
    moreover have "\<not> belongs s m (hfirst s (l2_head v s f))"
      using new idx [of f] by (simp add: no_newest_def l2_head_def)
    ultimately show ?thesis using hlist_first [OF wf] first_of_keep [of s m ?qs] wf
      by (simp add: twin_def heads h2 B_def)
  qed
  have sub: "set (B b) \<subseteq> set (A b)" for b by (auto simp: B_def)
  have ids: "\<exists>e. ent t q = Some e \<and> fingerprint e \<in> F \<and> l2_index (fingerprint e) = b"
    if "q \<in> set (B b)" for q b
  proof -
    from that sub have "q \<in> set (A b)" by blast
    from coherentD(7) [OF co this] show ?thesis by (metis cache_frame_ent [OF fr] payload_eqD(1))
  qed
  have dk: "distinct (entry_keys t (B b))" for b
    unfolding entry_keys_frame [OF fr] using coherentD(6) [OF co]
    by (simp add: B_def keep_others_def entry_keys_filter)
  have pd: "q \<noteq> NULL \<and> ent t q \<noteq> None \<and> (\<forall>b. q \<notin> set (B b))" if "q \<in> set (rcu_pending t)" for q
    using that coherentD(9) [OF co, of q] al [of q] cache_frame_dom [OF fr, of q]
    unfolding pend by (auto simp: B_def)
  show "coherent v F B t"
    using frame_ready [OF fr] coherentD(1-4) [OF co] fr twins ids dk pd flushedD(6) [OF fl]
    by (simp add: coherent_def cache_frame_def)
  show "tidy v F B t"
    unfolding tidy_def heads
  proof (intro conjI allI impI)
    fix q assume "ent t q \<noteq> None"
    then have "ent s q \<noteq> None" using cache_frame_dom [OF fr, of q] by simp
    with tidyD(1) [OF td, of q] show "q \<in> set (rcu_pending t) \<or> (\<exists>b. q \<in> set (B b))"
      unfolding pend by (auto simp: B_def)
  next
    fix h assume "hfirst t h \<noteq> NULL"
    then show "\<exists>fp\<in>F. h = l2_head v s fp \<or> h = l3_head v s fp"
      using tidyD(2) [OF td, of h] flushedD(4) [OF fl, of h] by (cases "\<exists>f\<in>F. h = l3_head v s f") auto
  qed
qed

text \<open>A bucket without entries of the memory space is left as it is.\<close>

lemma hlist_flush_none:
  "chain (ent s) p qs \<Longrightarrow> length qs < k \<Longrightarrow> (\<And>q. q \<in> set qs \<Longrightarrow> \<not> belongs s m q) \<Longrightarrow>
   hlist_flush k m acc p s = Inr s"
proof (induction qs arbitrary: p k)
  case Nil
  then show ?case by (cases k) auto
next
  case (Cons q qs)
  then obtain j e where k: "k = Suc j" "p = q" "q \<noteq> NULL" "ent s q = Some e" "chain (ent s) (node_next e) qs"
    by (cases k) auto
  moreover have "mm e \<noteq> m" using Cons.prems(3) [of q] k(4) by (simp add: belongs_def)
  ultimately show ?case using Cons by simp
qed

lemma flush_bucket_none:
  assumes "hlist s h qs" and "\<not> lock (bucket_at s h)" and "\<And>q. q \<in> set qs \<Longrightarrow> \<not> belongs s m q"
  shows "flush_bucket m acc h s = Inr s"
proof -
  define s1 where "s1 = put_bucket h ((bucket_at s h)\<lparr>lock := True\<rparr>) s"
  have e: "ent s1 = ent s" "hfirst s1 = hfirst s" by (simp_all add: s1_def)
  have c: "chain (ent s1) (hfirst s1 h) qs" using hlist_chain [OF assms(1)] by (simp add: e)
  have "length qs < fuel s1" by (rule chain_length [OF c])
  also have "fuel s1 \<le> fuel s1 * fuel s1" by (simp add: fuel_def)
  finally have "hlist_flush (fuel s1 * fuel s1) m acc (hfirst s1 h) s1 = Inr s1"
    using c assms(3) by (intro hlist_flush_none) (auto simp: belongs_def e)
  then have "flush_bucket m acc h s = Inr (spin_unlock h s1)"
    using assms(2) by (simp add: flush_bucket_def spin_lock_def s1_def)
  moreover have "(bucket_at s h)\<lparr>lock := False\<rparr> = bucket_at s h" using assms(2) by simp
  ultimately show ?thesis by (simp add: s1_def spin_unlock_def put_bucket_twice put_bucket_same)
qed

text \<open>The loop over the L3 buckets finds nothing left to do.\<close>

lemma flush_l3_buckets:
  assumes co: "coherent v F A s" and td: "tidy v F A s"
    and fl: "flushed v F A m [0..<KCR_L2_ENTRIES] s t"
  shows "rfold (\<lambda>b. flush_bucket m acc (L3Head i b)) bs t = Inr t"
proof (rule rfold_no_change)
  fix b
  let ?h = "L3Head i b"
  have lk: "\<not> lock (bucket_at t ?h)"
    using coherentD(3) [OF co] frame_lock [OF flushedD(1) [OF fl]] by metis
  show "flush_bucket m acc ?h t = Inr t"
  proof (cases "\<exists>f\<in>F. ?h = l3_head v s f")
    case True
    then obtain f where f: "f \<in> F" "?h = l3_head v s f" by blast
    have "hlist t ?h (keep_others s m (A (l2_index f)))"
      using flushedD(2) [OF fl f(1)] unfolding f(2) by (simp add: l2_index_def KCR_L2_ENTRIES_def)
    then show ?thesis
      using lk by (rule flush_bucket_none) (simp add: belongs_frame [OF flushedD(1) [OF fl]])
  next
    case False
    then have "hfirst s ?h = NULL" using tidyD(2) [OF td, of ?h] by (auto simp: l2_head_def)
    then have "hfirst t ?h = NULL" using flushedD(4) [OF fl, of ?h] False by auto
    then show ?thesis using lk by (rule flush_empty)
  qed
qed

section \<open>External slots\<close>

text \<open>
  Every slot in use on the CPU's socket holds a buffer that is allocated, and no two hold the same.
\<close>

definition slots_ok :: "env \<Rightarrow> cache_state \<Rightarrow> bool" where
  "slots_ok v s \<longleftrightarrow>
     (let slot = ext_slots (tables s (socket_of v s)) in
      \<forall>j<KCR_EXT_SLOTS. slot j \<noteq> NULL \<longrightarrow>
        map_of (bufs s) (slot j) \<noteq> None \<and> (\<forall>k<KCR_EXT_SLOTS. slot k = slot j \<longrightarrow> k = j))"

lemma slots_okD:
  assumes "slots_ok v s" and "j < KCR_EXT_SLOTS" and "ext_slots (tables s (socket_of v s)) j \<noteq> NULL"
  shows "map_of (bufs s) (ext_slots (tables s (socket_of v s)) j) \<noteq> None"
    "k < KCR_EXT_SLOTS \<Longrightarrow>
      ext_slots (tables s (socket_of v s)) k = ext_slots (tables s (socket_of v s)) j \<Longrightarrow> k = j"
  using assms unfolding slots_ok_def Let_def by blast+

lemma free_ext_slots_total:
  assumes "distinct js"
    and "\<And>j. j \<in> set js \<Longrightarrow> ext_slots (tables s i) j \<noteq> NULL \<Longrightarrow>
      map_of (bufs s) (ext_slots (tables s i) j) \<noteq> None
      \<and> (\<forall>k\<in>set js. ext_slots (tables s i) k = ext_slots (tables s i) j \<longrightarrow> k = j)"
  shows "\<exists>t. rfold (free_ext_slot i) js s = Inr t"
  using assms
proof (induction js arbitrary: s)
  case (Cons j js)
  let ?x = "ext_slots (tables s i) j"
  have "\<exists>u. free_ext_slot i j s = Inr u \<and> (\<forall>k. k \<noteq> j \<longrightarrow> ext_slots (tables u i) k = ext_slots (tables s i) k)
    \<and> (\<forall>p. p \<noteq> ?x \<longrightarrow> map_of (bufs u) p = map_of (bufs s) p)"
    using Cons.prems(2) [of j]
    by (cases "?x = NULL") (auto simp: free_ext_slot_def kvfree_def upd_table_def delete_conv')
  then obtain u where u: "free_ext_slot i j s = Inr u"
    "\<And>k. k \<noteq> j \<Longrightarrow> ext_slots (tables u i) k = ext_slots (tables s i) k"
    "\<And>p. p \<noteq> ?x \<Longrightarrow> map_of (bufs u) p = map_of (bufs s) p" by blast
  have "\<exists>t. rfold (free_ext_slot i) js u = Inr t"
  proof (rule Cons.IH)
    fix k assume k: "k \<in> set js" "ext_slots (tables u i) k \<noteq> NULL"
    then have kj: "k \<noteq> j" using Cons.prems(1) by auto
    then have "ext_slots (tables s i) k \<noteq> ?x"
      using Cons.prems(2) [of k] k u(2) by auto
    then show "map_of (bufs u) (ext_slots (tables u i) k) \<noteq> None
      \<and> (\<forall>k'\<in>set js. ext_slots (tables u i) k' = ext_slots (tables u i) k \<longrightarrow> k' = k)"
      using Cons.prems k kj u(2,3) by (metis distinct.simps(2) list.set_intros(2))
  qed (use Cons.prems(1) in simp)
  with u(1) show ?case by simp
qed simp

lemma slots_ok_frame: "cache_frame s t \<Longrightarrow> slots_ok v t = slots_ok v s"
  using frame_socket [of s t v] by (simp add: slots_ok_def cache_frame_def)

lemma slots_ok_same_cpu: "same_cpu v w \<Longrightarrow> slots_ok w s = slots_ok v s"
  by (simp add: slots_ok_def same_cpu_def socket_of_def)

lemma fresh_slots_ok: "slots_ok v (fresh_cache c t n)"
  by (simp add: slots_ok_def) (simp add: fresh_cache_def)

lemma slots_ok_upd_stats [simp]: "slots_ok v (upd_stats c f s) = slots_ok v s"
  by (simp add: slots_ok_def socket_of_def)

text \<open>Placing the data of a store keeps the slots in order if the allocator returns free memory.\<close>

lemma free_slot_lock [simp]: "free_slot (t\<lparr>ext_lock := b\<rparr>) = free_slot t"
  by (simp add: free_slot_def)

lemma store_external_slots:
  assumes "store_external v p d len s = Inr (ok, t)"
  defines "i \<equiv> socket_of v s"
  defines "slot \<equiv> ext_slots (tables s i)"
  shows "num_sockets t = num_sockets s \<and>
    (bufs t = bufs s \<and> ext_slots (tables t i) = slot
     \<or> (\<exists>bytes. kvmalloc_ret v \<noteq> NULL \<and> bufs t = (kvmalloc_ret v, bytes) # bufs s
          \<and> ext_slots (tables t i) = slot(free_slot (tables s i) := kvmalloc_ret v)))"
proof -
  have "l3_socket v s = Inr i" using assms(1) l3_socket_Inr [of v s]
    by (auto simp: store_external_def rbind_Inr_iff i_def)
  then show ?thesis
    using assms(1) free_slot_NULL [of "tables s i"] unfolding slot_def
    by (auto simp: store_external_def res_simps Let_def ext_spin_lock_def ext_spin_unlock_def
        upd_table_def frame_simps memcpy_from_def fun_upd_idem split: if_splits)
qed

lemma slots_ok_place:
  assumes "place_data v p d len s = Inr (ok, t)" and "slots_ok v s"
    and new: "kvmalloc_ret v = NULL \<or> map_of (bufs s) (kvmalloc_ret v) = None"
  shows "slots_ok v t"
proof (cases "KCR_RESULT_SIZE_MAX < unat len")
  case True
  let ?b = "kvmalloc_ret v" and ?i = "socket_of v s"
  from True assms(1) have "store_external v p d len s = Inr (ok, t)" by simp
  from store_external_slots [OF this] consider
    "num_sockets t = num_sockets s" "bufs t = bufs s" "ext_slots (tables t ?i) = ext_slots (tables s ?i)"
    | bytes where "num_sockets t = num_sockets s" "?b \<noteq> NULL" "bufs t = (?b, bytes) # bufs s"
      "ext_slots (tables t ?i) = (ext_slots (tables s ?i))(free_slot (tables s ?i) := ?b)" by blast
  then show ?thesis
  proof cases
    case 1
    then show ?thesis using assms(2) by (simp add: slots_ok_def socket_of_def)
  next
    case 2
    have sock: "socket_of v t = ?i" using 2(1) by (simp add: socket_of_def)
    from new 2(2) have "map_of (bufs s) ?b = None" by simp
    then have nb: "ext_slots (tables s ?i) j \<noteq> ?b" if "j < KCR_EXT_SLOTS" for j
      using slots_okD(1) [OF assms(2) that] 2(2) by metis
    have "map_of (bufs t) (ext_slots (tables t ?i) j) \<noteq> None
        \<and> (\<forall>k<KCR_EXT_SLOTS. ext_slots (tables t ?i) k = ext_slots (tables t ?i) j \<longrightarrow> k = j)"
      if j: "j < KCR_EXT_SLOTS" "ext_slots (tables t ?i) j \<noteq> NULL" for j
    proof (cases "j = free_slot (tables s ?i)")
      case True
      then show ?thesis using nb by (auto simp: 2(3,4))
    next
      case False
      then have "ext_slots (tables s ?i) j \<noteq> NULL" using j(2) by (simp add: 2(4))
      from slots_okD [OF assms(2) j(1) this] False nb [OF j(1)] show ?thesis
        by (auto simp: 2(3,4))
    qed
    then show ?thesis unfolding slots_ok_def Let_def sock by blast
  qed
next
  case False
  with assms(1) have "store_inline p d len s = Inr (ok, t)" by simp
  then have "bufs t = bufs s" "tables t = tables s" "num_sockets t = num_sockets s"
    by (auto simp: store_inline_def res_simps Let_def frame_simps memcpy_from_def split: if_splits)
  with assms(2) show ?thesis by (simp add: slots_ok_def socket_of_def)
qed

section \<open>The whole invalidation\<close>

text \<open>Coherence reads the lists, the locks and the callback queue, and nothing else.\<close>

lemma coherent_views:
  assumes "ent t = ent s" and "hfirst t = hfirst s" and "rcu_pending t = rcu_pending s"
    and "caches t = caches s" and "l3_tables t = l3_tables s" and "num_sockets t = num_sockets s"
  shows "coherent v F A s \<Longrightarrow> \<forall>h. \<not> lock (bucket_at t h) \<Longrightarrow> \<forall>i. \<not> ext_lock (tables t i) \<Longrightarrow>
      coherent v F A t"
    and "tidy v F A t = tidy v F A s"
proof -
  have heads: "l2_head v t = l2_head v s" "l3_head v t = l3_head v s"
    by (simp_all add: l2_head_def l3_head_def socket_of_def assms(6) fun_eq_iff)
  have hl: "hlist t = hlist s" by (simp add: hlist_def assms(1,2) fun_eq_iff)
  show "coherent v F A s \<Longrightarrow> \<forall>h. \<not> lock (bucket_at t h) \<Longrightarrow> \<forall>i. \<not> ext_lock (tables t i) \<Longrightarrow>
      coherent v F A t"
    by (simp add: coherent_def twin_def l2_ready_def l3_ready_def entry_keys_def heads hl assms)
  show "tidy v F A t = tidy v F A s" by (simp add: tidy_def heads assms)
qed

lemma free_ext_slots_locks:
  assumes "rfold (free_ext_slot i) js s = Inr t"
  shows "(\<forall>h. lock (bucket_at t h) = lock (bucket_at s h)) \<and> (\<forall>k. ext_lock (tables t k) = ext_lock (tables s k))"
  using assms
proof (rule rfold_invariant)
  fix j x y assume y: "free_ext_slot i j x = Inr y"
  assume "(\<forall>h. lock (bucket_at x h) = lock (bucket_at s h)) \<and> (\<forall>k. ext_lock (tables x k) = ext_lock (tables s k))"
  with y show "(\<forall>h. lock (bucket_at y h) = lock (bucket_at s h)) \<and> (\<forall>k. ext_lock (tables y k) = ext_lock (tables s k))"
    by (auto simp: free_ext_slot_def kvfree_def rbind_Inr_iff split: if_splits)
qed simp

lemma abs_keep_others:
  assumes "\<And>q. q \<in> set qs \<Longrightarrow> ent s q \<noteq> None"
  shows "abs_bucket_of s (keep_others s m qs) = filter (\<lambda>((_, m'), _). m' \<noteq> m) (abs_bucket_of s qs)"
  using assms
proof (induction qs)
  case (Cons q qs)
  then obtain e where e: "ent s q = Some e" by fastforce
  then have "belongs s m q \<longleftrightarrow> mm e = m" by (simp add: belongs_def)
  with Cons e show ?case by (simp add: keep_others_def abs_entry_def key_of_def)
qed simp

text \<open>
  An invalidation on a coherent state returns, and leaves the lists, heads and the callback queue as
  the L2 loop does.
\<close>

lemma invalidate_returns:
  assumes co: "coherent v F A s" and td: "tidy v F A s" and sl: "slots_ok v s" and F: "alias_free F"
  shows "\<exists>s1 t. invalidate_range v m a b s = Inr t \<and> flushed v F A m [0..<KCR_L2_ENTRIES] s s1
    \<and> ent t = ent s1 \<and> hfirst t = hfirst s1 \<and> rcu_pending t = rcu_pending s1
    \<and> caches t = caches s1 \<and> l3_tables t = l3_tables s1 \<and> num_sockets t = num_sockets s1
    \<and> (\<forall>h. \<not> lock (bucket_at t h)) \<and> (\<forall>k. \<not> ext_lock (tables t k)) \<and> slots_ok v t"
proof -
  let ?i = "socket_of v s"
  from flush_l2_buckets [OF co td F counts_only_simps(2)] obtain s1 where
    s1: "rfold (\<lambda>b. flush_bucket m (count_invalidation (cpu v)) (L2Head (cpu v) b)) [0..<KCR_L2_ENTRIES] s
      = Inr s1" and fl: "flushed v F A m [0..<KCR_L2_ENTRIES] s s1" by (metis distinct_upt)
  note fr = flushedD(1) [OF fl]
  have s2: "rfold (\<lambda>b. flush_bucket m id (L3Head ?i b)) [0..<KCR_L3_ENTRIES] s1 = Inr s1"
    by (rule flush_l3_buckets [OF co td fl])
  have i: "l3_socket v s1 = Inr ?i" "socket_of v s1 = ?i"
    using coherentD(2) [OF co] frame_ready [OF fr] frame_socket [OF fr] by (simp_all add: l3_socket_Inr)
  let ?s3 = "upd_table ?i (\<lambda>t. t\<lparr>ext_lock := True\<rparr>) s1"
  have ul: "\<not> ext_lock (tables s1 k)" "\<not> lock (bucket_at s1 h)" for k h
    using coherentD(3,4) [OF co] fr by (simp_all add: cache_frame_def)
  then have s3: "ext_spin_lock ?i s1 = Inr ?s3" by (simp add: ext_spin_lock_def)
  have sl1: "slots_ok v s1" using sl slots_ok_frame [OF fr] by simp
  have "\<exists>s4. rfold (free_ext_slot ?i) [0..<KCR_EXT_SLOTS] ?s3 = Inr s4"
  proof (rule free_ext_slots_total)
    fix j assume "j \<in> set [0..<KCR_EXT_SLOTS]" "ext_slots (tables ?s3 ?i) j \<noteq> NULL"
    then have "j < KCR_EXT_SLOTS" "ext_slots (tables s1 ?i) j \<noteq> NULL" by simp_all
    from slots_okD [OF sl1 this [folded i(2)]]
    show "map_of (bufs ?s3) (ext_slots (tables ?s3 ?i) j) \<noteq> None
      \<and> (\<forall>k\<in>set [0..<KCR_EXT_SLOTS]. ext_slots (tables ?s3 ?i) k = ext_slots (tables ?s3 ?i) j \<longrightarrow> k = j)"
      by (simp add: i(2))
  qed simp
  then obtain s4 where s4: "rfold (free_ext_slot ?i) [0..<KCR_EXT_SLOTS] ?s3 = Inr s4" by blast
  let ?t = "ext_spin_unlock ?i s4"
  note v4 = free_ext_slots [OF s4] and k4 = free_ext_slots_locks [OF s4]
  have vt: "ent ?t = ent s1" "hfirst ?t = hfirst s1" "rcu_pending ?t = rcu_pending s1"
    "caches ?t = caches s1" "l3_tables ?t = l3_tables s1" "num_sockets ?t = num_sockets s1"
    using v4 by (simp_all add: ext_spin_unlock_def)
  have lt: "\<forall>h. \<not> lock (bucket_at ?t h)" "\<forall>k. \<not> ext_lock (tables ?t k)"
    using k4 ul by (simp_all add: ext_spin_unlock_def)
  have "invalidate_range v m a b s = Inr ?t"
    using coherentD(1) [OF co] s1 s2 s3 s4 i by (simp add: invalidate_range_def l2_ready_def)
  moreover have "slots_ok v ?t"
  proof -
    have "socket_of v ?t = ?i" using vt(6) i(2) by (simp add: socket_of_def)
    moreover have "ext_slots (tables ?t ?i) j = NULL" if "j < KCR_EXT_SLOTS" for j
      using v4 that by (simp add: ext_spin_unlock_def)
    ultimately show ?thesis by (simp add: slots_ok_def)
  qed
  ultimately show ?thesis using fl vt lt by blast
qed

lemma coherent_invalidate:
  assumes co: "coherent v F A s" and td: "tidy v F A s" and sl: "slots_ok v s" and F: "alias_free F"
    and new: "no_newest v m s"
  shows "\<exists>t B. invalidate_range v m a b s = Inr t \<and> coherent v F B t \<and> tidy v F B t \<and> slots_ok v t
    \<and> (\<lambda>b. abs_bucket_of t (B b)) =
        (\<lambda>b. filter (\<lambda>((_, m'), _). m' \<noteq> m) (abs_bucket_of s (A b)))"
proof -
  let ?B = "\<lambda>b. keep_others s m (A b)"
  from invalidate_returns [OF co td sl F] obtain s1 t where
    t: "invalidate_range v m a b s = Inr t" "slots_ok v t" and fl: "flushed v F A m [0..<KCR_L2_ENTRIES] s s1"
    and vt: "ent t = ent s1" "hfirst t = hfirst s1" "rcu_pending t = rcu_pending s1"
      "caches t = caches s1" "l3_tables t = l3_tables s1" "num_sockets t = num_sockets s1"
    and lt: "\<forall>h. \<not> lock (bucket_at t h)" "\<forall>k. \<not> ext_lock (tables t k)" by blast
  note s1 = flushed_coherent [OF co td new fl]
  have "coherent v F ?B t" by (rule coherent_views(1) [OF vt s1(1) lt])
  moreover have "tidy v F ?B t" using coherent_views(2) [OF vt] s1(2) by simp
  moreover have "abs_bucket_of t (?B b) = filter (\<lambda>((_, m'), _). m' \<noteq> m) (abs_bucket_of s (A b))" for b
  proof -
    have al: "ent s q \<noteq> None" if "q \<in> set (A b)" for q using coherentD(7) [OF co that] by auto
    have "abs_bucket_of t (?B b) = abs_bucket_of s1 (?B b)" by (simp add: abs_bucket_of_def vt(1))
    also have "\<dots> = abs_bucket_of s (?B b)" using al by (intro abs_bucket_frame [OF flushedD(1) [OF fl]]) simp
    also have "\<dots> = filter (\<lambda>((_, m'), _). m' \<noteq> m) (abs_bucket_of s (A b))" by (rule abs_keep_others [OF al])
    finally show ?thesis .
  qed
  ultimately show ?thesis using t by (intro exI [of _ t] exI [of _ ?B]) simp
qed

text \<open>An entry of the memory space that an L2 head points to is queued for freeing.\<close>

lemma newest_is_queued:
  assumes co: "coherent v F A s" and td: "tidy v F A s" and bl: "belongs s m (hfirst s (L2Head (cpu v) b))"
    and fl: "flushed v F A m [0..<KCR_L2_ENTRIES] s t" and b: "b < KCR_L2_ENTRIES"
  shows "hfirst s (L2Head (cpu v) b) \<in> set (rcu_pending t)" and "hfirst s (L2Head (cpu v) b) \<noteq> NULL"
proof -
  let ?q = "hfirst s (L2Head (cpu v) b)"
  from bl obtain e where e: "ent s ?q = Some e" by (auto simp: belongs_def split: option.splits)
  have nn: "q \<noteq> NULL" if "q \<in> set (A b')" for q b'
    using coherentD(7) [OF co that] twin_alloc [OF coherentD(5) [OF co]] that by fastforce
  show q0: "?q \<noteq> NULL" using tidyD(1) [OF td e] coherentD(9) [OF co, of ?q] nn by metis
  from co td have "?q \<in> set (A b)"
  proof (cases rule: coherent_l2_bucket [of v F A s b])
    case empty
    with q0 show ?thesis by simp
  next
    case (shared fp)
    then have "?q = first_of (A b)" using hlist_first by simp
    with q0 show ?thesis by (cases "A b") simp_all
  qed
  with bl b show "?q \<in> set (rcu_pending t)" unfolding flushedD(7) [OF fl] by auto
qed

end
