(* ===== verification/Cache_Run.thy ===== *)
theory Cache_Run
  imports Cache_Invalidate
begin

text \<open>
  Sequences of requests on the quiet workload of \<open>Cache_Quiet\<close>: a specification as a step relation
  on abstract caches, and the proof that the concrete cache never faults and only gives replies
  the specification allows.
\<close>

section \<open>Requests\<close>

text \<open>
  Each request carries the context it runs in. \<open>Grace\<close> is the end of an RCU grace period. The reply
  to a lookup is what the caller can read through the returned pointer.
\<close>

datatype request =
    Lookup env u64 ptr
  | Store env u64 "u8 list option" u32 ptr
  | Invalidate env ptr u64 u64
  | Grace

datatype reply = Hit "(u64 \<times> u8 list) option" | Code int | Done | Freed

definition read_reply :: "cache_state \<Rightarrow> ptr \<Rightarrow> (u64 \<times> u8 list) option" where
  "read_reply s p =
     (if p = NULL then None else map_option (\<lambda>e. (expiry_jiffies e, result_union e)) (ent s p))"

fun perform :: "request \<Rightarrow> cache_state \<Rightarrow> (reply \<times> cache_state) res" where
  "perform (Lookup w fp m) s =
     rbind (lookup_unified w fp m s) (\<lambda>(p, s). Inr (Hit (read_reply s p), s))"
| "perform (Store w fp data len m) s =
     rbind (store_result w fp data len m s) (\<lambda>(r, s). Inr (Code r, s))"
| "perform (Invalidate w m a b) s = rbind (invalidate_range w m a b s) (\<lambda>s. Inr (Done, s))"
| "perform Grace s = rbind (rcu_grace_period s) (\<lambda>s. Inr (Freed, s))"

fun perform_all :: "request list \<Rightarrow> cache_state \<Rightarrow> (reply list \<times> cache_state) res" where
  "perform_all [] s = Inr ([], s)"
| "perform_all (r # rs) s =
     rbind (perform r s) (\<lambda>(y, s). rbind (perform_all rs s) (\<lambda>(ys, s). Inr (y # ys, s)))"

lemma perform_all_append:
  "perform_all (rs @ rs') s = rbind (perform_all rs s) (\<lambda>(ys, s).
     rbind (perform_all rs' s) (\<lambda>(zs, s). Inr (ys @ zs, s)))"
proof (induction rs arbitrary: s)
  case Nil
  show ?case by (cases "perform_all rs' s") auto
next
  case (Cons r rs)
  show ?case
  proof (cases "perform r s")
    case (Inr x)
    obtain y t where x: "x = (y, t)" by (cases x)
    show ?thesis
    proof (cases "perform_all rs t")
      case (Inr z)
      then show ?thesis
        using \<open>perform r s = Inr x\<close> Cons.IH [of t] x
        by (cases z; cases "perform_all rs' (snd z)") auto
    qed (use \<open>perform r s = Inr x\<close> Cons.IH [of t] x in simp)
  qed simp
qed

lemma perform_all_snoc:
  "perform_all (rs @ [r]) s =
     rbind (perform_all rs s) (\<lambda>(ys, t). rbind (perform r t) (\<lambda>(y, u). Inr (ys @ [y], u)))"
proof (induction rs arbitrary: s)
  case Nil
  show ?case by (cases "perform r s") auto
next
  case (Cons q rs)
  show ?case
  proof (cases "perform q s")
    case (Inr x)
    obtain y t where x: "x = (y, t)" by (cases x)
    show ?thesis by (cases "perform_all rs t"; cases "perform r (snd (projr (perform_all rs t)))")
        (auto simp: Inr x Cons)
  qed simp
qed

lemma perform_all_length: "perform_all rs s = Inr (ys, t) \<Longrightarrow> length ys = length rs"
  by (induction rs arbitrary: s ys) (auto simp: rbind_Inr_iff)

text \<open>
  What the workload promises about the next request: it comes from the CPU \<open>v\<close>, its fingerprint is in
  \<open>F\<close>, the length does not exceed the caller's buffer, the allocators return memory that is not in use,
  and no L2 bucket of the CPU has an entry of an invalidated memory space as its newest.
\<close>

fun admissible :: "env \<Rightarrow> u64 set \<Rightarrow> cache_state \<Rightarrow> request \<Rightarrow> bool" where
  "admissible v F s (Lookup w fp m) \<longleftrightarrow> same_cpu v w \<and> fp \<in> F"
| "admissible v F s (Store w fp data len m) \<longleftrightarrow> same_cpu v w \<and> fp \<in> F
     \<and> (case data of None \<Rightarrow> True | Some d \<Rightarrow> unat len \<le> length d) \<and> ent s (kzalloc_ret w) = None
     \<and> (kvmalloc_ret w = NULL \<or> map_of (bufs s) (kvmalloc_ret w) = None)"
| "admissible v F s (Invalidate w m a b) \<longleftrightarrow> same_cpu v w \<and> no_newest v m s"
| "admissible v F s Grace \<longleftrightarrow> True"

fun quiet :: "env \<Rightarrow> u64 set \<Rightarrow> request list \<Rightarrow> cache_state \<Rightarrow> bool" where
  "quiet v F [] s \<longleftrightarrow> True"
| "quiet v F (r # rs) s \<longleftrightarrow> admissible v F s r
     \<and> (case perform r s of Inl _ \<Rightarrow> True | Inr (_, t) \<Rightarrow> quiet v F rs t)"

section \<open>The specification\<close>

type_synonym abs_cache = "nat \<Rightarrow> abs_bucket"

definition stored_union :: "env \<Rightarrow> u8 list \<Rightarrow> u32 \<Rightarrow> u8 list" where
  "stored_union w d len =
     (if KCR_RESULT_SIZE_MAX < unat len then external_union (kvmalloc_ret w) len
      else inline_union (take (unat len) d))"

inductive spec_step :: "abs_cache \<Rightarrow> request \<Rightarrow> reply \<Rightarrow> abs_cache \<Rightarrow> bool" where
  lookup: "spec_step a (Lookup w fp m) (Hit (mru_find (jiffies w) (fp, m) (a (l2_index fp)))) a"
| store: "len \<noteq> 0 \<Longrightarrow> kzalloc_ret w \<noteq> NULL \<Longrightarrow>
    x = (jiffies w + msecs_to_jiffies w 1000, stored_union w d len) \<Longrightarrow>
    spec_step a (Store w fp (Some d) len m) (Code 0)
      (a(l2_index fp := mru_store (fp, m) x (a (l2_index fp))))"
| invalid: "data = None \<or> len = 0 \<Longrightarrow> spec_step a (Store w fp data len m) (Code (- EINVAL)) a"
| no_memory: "data \<noteq> None \<Longrightarrow> len \<noteq> 0 \<Longrightarrow>
    kzalloc_ret w = NULL \<or> KCR_RESULT_SIZE_MAX < unat len \<Longrightarrow>
    spec_step a (Store w fp data len m) (Code (- ENOMEM)) a"
| invalidate: "spec_step a (Invalidate w m l u) Done
    (\<lambda>i. filter (\<lambda>((_, m'), _). m' \<noteq> m) (a i))"
| grace: "spec_step a Grace Freed a"

inductive spec_run :: "abs_cache \<Rightarrow> request list \<Rightarrow> reply list \<Rightarrow> abs_cache \<Rightarrow> bool" where
  stop: "spec_run a [] [] a"
| go: "spec_step a r y b \<Longrightarrow> spec_run b rs ys c \<Longrightarrow> spec_run a (r # rs) (y # ys) c"

inductive_cases spec_lookupE: "spec_step a (Lookup w fp m) y b"
inductive_cases spec_storeE: "spec_step a (Store w fp data len m) y b"
inductive_cases spec_invalidateE: "spec_step a (Invalidate w m l u) y b"
inductive_simps spec_run_Nil: "spec_run a [] ys c"
inductive_simps spec_run_Cons: "spec_run a (r # rs) ys c"

text \<open>The abstraction relation.\<close>

definition simulates :: "env \<Rightarrow> u64 set \<Rightarrow> cache_state \<Rightarrow> abs_cache \<Rightarrow> bool" where
  "simulates v F s a \<longleftrightarrow>
     (\<exists>A. coherent v F A s \<and> tidy v F A s \<and> slots_ok v s \<and> a = (\<lambda>b. abs_bucket_of s (A b)))"

section \<open>Each request preserves the relation\<close>

lemma answers_read: "answers s p r \<Longrightarrow> read_reply s p = r"
  by (auto simp: answers_def read_reply_def split: option.splits)

lemma coherent_alloc: "coherent v F A s \<Longrightarrow> q \<in> set (A b) \<Longrightarrow> ent s q \<noteq> None"
  using coherentD(7) by fastforce

lemma simulates_lookup:
  assumes "simulates v F s a" and "admissible v F s (Lookup w fp m)"
  shows "\<exists>y t. perform (Lookup w fp m) s = Inr (y, t) \<and> spec_step a (Lookup w fp m) y a
    \<and> simulates v F t a"
proof -
  from assms(1) obtain A where A: "coherent v F A s" "a = (\<lambda>b. abs_bucket_of s (A b))" "tidy v F A s"
    and sl: "slots_ok v s" by (auto simp: simulates_def)
  from assms(2) have w: "same_cpu v w" "fp \<in> F" by simp_all
  from coherent_lookup [OF A(1) w(2,1), of m] obtain p t where
    t: "lookup_unified w fp m s = Inr (p, t)" "coherent v F A t" "ent t = ent s" "tidy v F A t"
    "answers t p (mru_find (jiffies w) (fp, m) (abs_bucket_of s (A (l2_index fp))))" using A(3) by blast
  have "perform (Lookup w fp m) s = Inr (Hit (mru_find (jiffies w) (fp, m) (a (l2_index fp))), t)"
    using answers_read [OF t(5)] by (simp add: t(1) A(2))
  moreover have "simulates v F t a"
    unfolding simulates_def A(2) slots_ok_frame [OF lookup_unified_frame(1) [OF t(1)]]
    using t(2-4) sl by (intro exI [of _ A]) (simp add: abs_bucket_of_def)
  ultimately show ?thesis using spec_step.lookup by blast
qed

lemma place_data_placed:
  assumes "place_data v p d len (put_ent p (new_entry v fp m) s) = Inr (True, s1)"
  shows "placed s s1 p ((new_entry v fp m)\<lparr>result_union := stored_union v d len\<rparr>)"
proof (cases "KCR_RESULT_SIZE_MAX < unat len")
  case True
  with assms have "store_external v p d len (put_ent p (new_entry v fp m) s) = Inr (True, s1)" by simp
  from store_external_placed [OF this] True show ?thesis by (simp add: stored_union_def)
next
  case False
  with assms have "store_inline p d len (put_ent p (new_entry v fp m) s) = Inr (True, s1)" by simp
  from store_inline_placed [OF this] False show ?thesis by (simp add: stored_union_def)
qed

text \<open>The four ways a store can end.\<close>

lemma store_result_cases:
  assumes "store_result v fp data len m s = Inr (r, t)"
  obtains (rejected) "data = None \<or> len = 0" "r = - EINVAL" "t = s"
  | (no_entry) d where "data = Some d" "len \<noteq> 0" "kzalloc_ret v = NULL" "r = - ENOMEM" "t = s"
  | (no_slot) d where "data = Some d" "len \<noteq> 0" "kzalloc_ret v \<noteq> NULL" "r = - ENOMEM"
      "kfree_entry (kzalloc_ret v) (put_ent (kzalloc_ret v) (new_entry v fp m) s) = Inr t"
  | (stored) d s1 s2 where "data = Some d" "len \<noteq> 0" "kzalloc_ret v \<noteq> NULL" "r = 0"
      "placed s s1 (kzalloc_ret v) ((new_entry v fp m)\<lparr>result_union := stored_union v d len\<rparr>)"
      "store_in_l2 (cpu v) (kzalloc_ret v) fp s1 = Inr s2" "store_in_l3 v (kzalloc_ret v) fp s2 = Inr t"
      "place_data v (kzalloc_ret v) d len (put_ent (kzalloc_ret v) (new_entry v fp m) s) = Inr (True, s1)"
proof -
  let ?p = "kzalloc_ret v" and ?s0 = "put_ent (kzalloc_ret v) (new_entry v fp m) s"
  consider (invalid) "data = None \<or> len = 0" | (null) d where "data = Some d" "len \<noteq> 0" "?p = NULL"
    | (place) d where "data = Some d" "len \<noteq> 0" "?p \<noteq> NULL"
    by (metis option.exhaust)
  then show thesis
  proof cases
    case invalid
    with assms show ?thesis by (intro rejected) (auto simp: store_result_def split: option.splits)
  next
    case null
    with assms show ?thesis by (intro no_entry) (auto simp: store_result_def)
  next
    case place
    with assms obtain ok s1 where pl: "place_data v ?p d len ?s0 = Inr (ok, s1)"
      and k: "(if \<not> ok then rbind (kfree_entry ?p s1) (\<lambda>s. Inr (- ENOMEM, s))
        else rbind (store_in_l2 (cpu v) ?p fp s1) (\<lambda>s. rbind (store_in_l3 v ?p fp s) (\<lambda>s. Inr (0, s))))
        = Inr (r, t)"
      by (auto simp: store_result_def Let_def rbind_Inr_iff)
    show ?thesis
    proof (cases ok)
      case True
      with k obtain s2 where "r = 0" "store_in_l2 (cpu v) ?p fp s1 = Inr s2"
        "store_in_l3 v ?p fp s2 = Inr t" by (auto simp: rbind_Inr_iff)
      moreover have "placed s s1 ?p ((new_entry v fp m)\<lparr>result_union := stored_union v d len\<rparr>)"
        using pl True by (simp add: place_data_placed)
      moreover have "place_data v ?p d len ?s0 = Inr (True, s1)" using pl True by simp
      ultimately show ?thesis using place by (intro stored)
    next
      case False
      with pl have pl: "place_data v ?p d len ?s0 = Inr (False, s1)" by simp
      then have "KCR_RESULT_SIZE_MAX < unat len"
        using store_inline_placed [of ?p d len v fp m s False s1] by (auto split: if_splits)
      with pl have "s1 = ?s0" using store_external_failed [OF _ new_entry_no_ext] by simp
      with k False place show ?thesis by (intro no_slot) (auto simp: rbind_Inr_iff)
    qed
  qed
qed

lemma slots_ok_store:
  assumes "store_result v fp data len m s = Inr (r, t)" and "slots_ok v s"
    and "kvmalloc_ret v = NULL \<or> map_of (bufs s) (kvmalloc_ret v) = None"
  shows "slots_ok v t"
  using assms(1)
proof (cases rule: store_result_cases)
  case no_slot
  then have "num_sockets t = num_sockets s" "tables t = tables s" "bufs t = bufs s"
    by (auto simp: kfree_entry_def frame_simps split: if_splits)
  with assms(2) show ?thesis by (simp add: slots_ok_def socket_of_def)
next
  case (stored d s1 s2)
  let ?s0 = "put_ent (kzalloc_ret v) (new_entry v fp m) s"
  have "slots_ok v ?s0" using assms(2) by (simp add: slots_ok_def socket_of_def frame_simps)
  then have "slots_ok v s1" using assms(3) by (intro slots_ok_place [OF stored(8)]) (simp_all add: frame_simps)
  then show ?thesis
    using slots_ok_frame [OF store_in_l2_frame [OF stored(6)]] slots_ok_frame [OF store_in_l3_frame [OF stored(7)]]
    by simp
qed (use assms(2) in simp_all)

lemma coherent_store:
  assumes co: "coherent v F A s" and td: "tidy v F A s" and F: "alias_free F" "fp \<in> F" and w: "same_cpu v w"
    and pl: "placed s s1 p e" and new: "ent s p = None" "p \<noteq> NULL" "fingerprint e = fp" "mm e = m"
  shows "\<exists>u t B. store_in_l2 (cpu w) p fp s1 = Inr u \<and> store_in_l3 w p fp u = Inr t
    \<and> coherent v F B t \<and> tidy v F B t
    \<and> (\<lambda>b. abs_bucket_of t (B b)) = (\<lambda>b. abs_bucket_of s (A b))(l2_index fp :=
        mru_store (fp, m) (expiry_jiffies e, result_union e) (abs_bucket_of s (A (l2_index fp))))"
proof -
  let ?b = "l2_index fp"
  have cw: "coherent w F A s" by (rule coherent_same_cpu [OF w co])
  note c1 = coherent_placed [OF cw pl new(1)]
  have e: "ent s1 p = Some e" using pl by (simp add: placed_def)
  let ?old = "first_match (ent s1) (same_key fp (mm e)) (A ?b)"
  let ?B = "after_store A ?b p ?old"
  from coherent_insert [OF c1(1) F new(2) e new(3) c1(2,3)] obtain u t where
    t: "store_in_l2 (cpu w) p fp s1 = Inr u" "store_in_l3 w p fp u = Inr t" "cache_frame s1 t"
    "coherent w F ?B t"
    and hd: "\<And>h. h \<noteq> l2_head w s1 fp \<Longrightarrow> h \<noteq> l3_head w s1 fp \<Longrightarrow> hfirst t h = hfirst s1 h"
    and pe: "rcu_pending t = rcu_pending s1 @ (if ?old \<noteq> NULL then [?old] else [])" by blast
  have vw: "same_cpu w v" using w by (simp add: same_cpu_def)
  have tdw: "tidy w F A s" using td by (simp add: tidy_def same_cpu_heads [OF w])
  have s1: "ent s1 = (ent s)(p \<mapsto> e)" "hfirst s1 = hfirst s" "rcu_pending s1 = rcu_pending s"
    "l2_head w s1 f = l2_head w s f" "l3_head w s1 f = l3_head w s f" for f
    using pl by (simp_all add: placed_def l2_head_def l3_head_def socket_of_def)
  have "tidy w F ?B t"
  proof (rule tidy_insert [OF c1(1) t(3) F(2) _ _ hd pe])
    show "q = p \<or> q \<in> set (rcu_pending s1) \<or> (\<exists>b. q \<in> set (A b))" if "ent s1 q \<noteq> None" for q
      using that tidyD(1) [OF tdw, of q] by (auto simp: s1 split: if_splits)
    show "\<exists>fp\<in>F. h = l2_head w s1 fp \<or> h = l3_head w s1 fp" if "hfirst s1 h \<noteq> NULL" for h
      using that tidyD(2) [OF tdw, of h] by (simp add: s1)
  qed
  then have tt: "tidy v F ?B t" by (simp add: tidy_def same_cpu_heads [OF w])
  have all1: "ent s1 q \<noteq> None" if "q \<in> set (?B b)" for q b
    using coherent_alloc [OF t(4) that] cache_frame_dom [OF t(3)] by simp
  have abs: "abs_bucket_of t (?B b) = abs_bucket_of s1 (?B b)" for b
    by (rule abs_bucket_frame [OF t(3) all1])
  have tw: "twin w s1 fp (A ?b)" by (rule coherentD(5) [OF c1(1) F(2)])
  have rm: "abs_bucket_of s1 (remove1 ?old (A ?b))
      = filter (\<lambda>(k', _). k' \<noteq> (fp, mm e)) (abs_bucket_of s1 (A ?b))"
    using twin_alloc [OF tw] coherentD(6) [OF c1(1)] twin_chain [OF tw]
    by (intro abs_remove1) (blast dest: chain_distinct)+
  have "abs_bucket_of t (?B b) = ((\<lambda>b. abs_bucket_of s (A b))(?b :=
      mru_store (fp, m) (expiry_jiffies e, result_union e) (abs_bucket_of s (A ?b)))) b" for b
    unfolding abs using new(3,4) rm
    by (cases "b = ?b") (simp_all add: c1(4) e mru_store_def abs_entry_def key_of_def)
  then show ?thesis
    using t(1,2) tt coherent_same_cpu [OF vw t(4)]
    by (intro exI [of _ u] exI [of _ t] exI [of _ ?B]) (simp add: fun_eq_iff)
qed

lemma simulates_place:
  assumes sim: "simulates v F s a" and F: "alias_free F"
    and adm: "admissible v F s (Store w fp (Some d) len m)" and len: "len \<noteq> 0" and p: "kzalloc_ret w \<noteq> NULL"
  shows "\<exists>y t b. perform (Store w fp (Some d) len m) s = Inr (y, t)
    \<and> spec_step a (Store w fp (Some d) len m) y b \<and> simulates v F t b"
proof -
  let ?p = "kzalloc_ret w" and ?e = "new_entry w fp m"
  let ?s0 = "put_ent ?p ?e s" and ?r = "Store w fp (Some d) len m"
  from sim obtain A where A: "coherent v F A s" "a = (\<lambda>b. abs_bucket_of s (A b))" "tidy v F A s"
    and sl: "slots_ok v s" by (auto simp: simulates_def)
  from adm have w: "same_cpu v w" "fp \<in> F" and new: "ent s ?p = None" and ld: "unat len \<le> length d" by simp_all
  have "placed s ?s0 ?p ?e" by (simp add: placed_def frame_simps)
  note c0 = coherent_placed(1) [OF coherent_same_cpu [OF w(1) A(1)] this new]
  from place_data_total [OF coherentD(2,4) [OF c0] p _ ld] obtain ok s1 where
    s1: "place_data w ?p d len ?s0 = Inr (ok, s1)" by auto
  show ?thesis
  proof (cases ok)
    case True
    let ?b = "a(l2_index fp := mru_store (fp, m) (jiffies w + msecs_to_jiffies w 1000, stored_union w d len) (a (l2_index fp)))"
    from s1 True have pl: "placed s s1 ?p (?e\<lparr>result_union := stored_union w d len\<rparr>)"
      by (intro place_data_placed) simp
    from coherent_store [OF A(1,3) F w(2,1) pl new p, of m] obtain u t B where
      t: "store_in_l2 (cpu w) ?p fp s1 = Inr u" "store_in_l3 w ?p fp u = Inr t" "coherent v F B t" "tidy v F B t"
      and B: "(\<lambda>b. abs_bucket_of t (B b)) = ?b" by (auto simp: new_entry_def A(2))
    have st: "store_result w fp (Some d) len m s = Inr (0, t)"
      using s1 True t(1,2) len p by (simp add: store_result_def Let_def)
    have "slots_ok v t" using slots_ok_store [OF st] adm sl slots_ok_same_cpu [OF w(1)] by simp
    then have "perform ?r s = Inr (Code 0, t)" "simulates v F t ?b"
      unfolding simulates_def using st t(3,4) B [symmetric] by (simp, blast)
    then show ?thesis using spec_step.store [OF len p refl] by blast
  next
    case False
    with s1 have pl: "place_data w ?p d len ?s0 = Inr (False, s1)" by simp
    have big: "KCR_RESULT_SIZE_MAX < unat len"
      using pl store_inline_placed [of ?p d len w fp m s False s1] by (auto split: if_splits)
    have "perform ?r s = Inr (Code (- ENOMEM), s)"
      using pl len p big failed_placement_undone [OF pl p new] by (simp add: store_result_def Let_def)
    moreover have "spec_step a ?r (Code (- ENOMEM)) a" using len big by (intro spec_step.no_memory) auto
    ultimately show ?thesis using sim by blast
  qed
qed

lemma simulates_store:
  assumes sim: "simulates v F s a" and F: "alias_free F"
    and adm: "admissible v F s (Store w fp data len m)"
  shows "\<exists>y t b. perform (Store w fp data len m) s = Inr (y, t)
    \<and> spec_step a (Store w fp data len m) y b \<and> simulates v F t b"
proof -
  consider (invalid) "data = None \<or> len = 0"
    | (no_entry) d where "data = Some d" "len \<noteq> 0" "kzalloc_ret w = NULL"
    | (place) d where "data = Some d" "len \<noteq> 0" "kzalloc_ret w \<noteq> NULL"
    by (metis option.exhaust)
  then show ?thesis
  proof cases
    case invalid
    then have "store_result w fp data len m s = Inr (- EINVAL, s)"
      by (auto simp: store_result_def split: option.split)
    then have "perform (Store w fp data len m) s = Inr (Code (- EINVAL), s)" by simp
    with sim invalid show ?thesis by (blast intro: spec_step.invalid)
  next
    case no_entry
    then have "perform (Store w fp data len m) s = Inr (Code (- ENOMEM), s)"
      by (simp add: store_result_def)
    with sim no_entry show ?thesis by (blast intro: spec_step.no_memory)
  next
    case place
    then show ?thesis using simulates_place [OF sim F] adm by simp
  qed
qed

text \<open>A grace period frees exactly the queued entries.\<close>

lemma free_all:
  assumes "distinct ps" and "\<And>q. q \<in> set ps \<Longrightarrow> q \<noteq> NULL \<and> ent s q \<noteq> None"
  shows "\<exists>es. rfold free_entry_rcu ps s = Inr (s\<lparr>entries := es\<rparr>)
    \<and> (\<forall>q. map_of es q = (if q \<in> set ps then None else ent s q))"
  using assms
proof (induction ps arbitrary: s)
  case Nil
  then show ?case by (intro exI [of _ "entries s"]) (simp add: ent_def)
next
  case (Cons p ps)
  let ?s = "s\<lparr>entries := AList.delete p (entries s)\<rparr>"
  have es: "ent ?s q = (if q = p then None else ent s q)" for q
    by (simp add: ent_def delete_conv')
  have "free_entry_rcu p s = Inr ?s"
    using Cons.prems(2) [of p] by (simp add: free_entry_rcu_def kfree_entry_def)
  moreover from Cons.prems es have "\<And>q. q \<in> set ps \<Longrightarrow> q \<noteq> NULL \<and> ent ?s q \<noteq> None" by auto
  with Cons.IH [of ?s] Cons.prems(1) obtain es' where
    "rfold free_entry_rcu ps ?s = Inr (s\<lparr>entries := es'\<rparr>)"
    "\<forall>q. map_of es' q = (if q \<in> set ps then None else ent ?s q)" by auto
  ultimately show ?case by (intro exI [of _ es']) (auto simp: es)
qed

text \<open>\<open>t\<close> is \<open>s\<close> after queued entries have been freed; those of \<open>qs\<close> are still queued.\<close>

definition thinned :: "ptr list \<Rightarrow> cache_state \<Rightarrow> cache_state \<Rightarrow> bool" where
  "thinned qs s t \<longleftrightarrow> distinct qs \<and> set qs \<subseteq> set (rcu_pending s)
     \<and> (\<exists>es. t = s\<lparr>entries := es, rcu_pending := qs\<rparr>
       \<and> (\<forall>q. map_of es q = (if q \<in> set (rcu_pending s) - set qs then None else ent s q)))"

lemma grace_thinned:
  assumes "distinct (rcu_pending s)" and "\<And>q. q \<in> set (rcu_pending s) \<Longrightarrow> q \<noteq> NULL \<and> ent s q \<noteq> None"
  shows "\<exists>t. rcu_grace_period s = Inr t \<and> thinned [] s t"
proof -
  let ?s = "s\<lparr>rcu_pending := []\<rparr>"
  have e: "ent ?s = ent s" by (simp add: ent_def)
  from free_all [of "rcu_pending s" ?s] assms obtain es where
    es: "rfold free_entry_rcu (rcu_pending s) ?s = Inr (?s\<lparr>entries := es\<rparr>)"
    "\<forall>q. map_of es q = (if q \<in> set (rcu_pending s) then None else ent s q)" unfolding e by blast
  let ?t = "s\<lparr>entries := es, rcu_pending := []\<rparr>"
  have "rcu_grace_period s = Inr ?t" using es(1) by (simp add: rcu_grace_period_def)
  moreover have "thinned [] s ?t" using es(2) by (auto simp: thinned_def)
  ultimately show ?thesis by blast
qed

lemma thinned_views:
  assumes "thinned qs s t"
  shows "ent t q = (if q \<in> set (rcu_pending s) - set qs then None else ent s q)" "rcu_pending t = qs"
    "bucket_at t h = bucket_at s h" "hfirst t h = hfirst s h" "tables t = tables s" "percpu t = percpu s"
    "caches t = caches s" "l3_tables t = l3_tables s" "num_sockets t = num_sockets s" "bufs t = bufs s"
    "l2_head v t f = l2_head v s f" "l3_head v t f = l3_head v s f"
    "l2_ready v t = l2_ready v s" "l3_ready v t = l3_ready v s" "slots_ok v t = slots_ok v s"
  using assms by (cases h; auto simp: thinned_def ent_def hfirst_def l2_head_def l3_head_def socket_of_def
      l2_ready_def l3_ready_def slots_ok_def)+

text \<open>The queue is still in order, and what it holds is still allocated.\<close>

lemma thinned_queue:
  assumes "thinned qs s t"
  shows "distinct (rcu_pending t)" "q \<in> set (rcu_pending t) \<Longrightarrow> q \<in> set (rcu_pending s) \<and> ent t q = ent s q"
  using assms thinned_views(1,2) [OF assms] by (auto simp: thinned_def)

text \<open>Lists without queued entries are as before.\<close>

lemma thinned_lists:
  assumes "thinned ps s t" and "\<And>q. q \<in> set qs \<Longrightarrow> q \<notin> set (rcu_pending s)"
  shows "dlist (ent t) l p qs = dlist (ent s) l p qs" "hlist t h qs = hlist s h qs"
    "entry_keys t qs = entry_keys s qs" "abs_bucket_of t qs = abs_bucket_of s qs" "twin v t f qs = twin v s f qs"
proof -
  have same: "ent t q = ent s q" if "q \<in> set qs" for q using assms that by (simp add: thinned_views)
  then show d: "dlist (ent t) l p qs = dlist (ent s) l p qs" for l p by (rule dlist_frame)
  show h: "hlist t h qs = hlist s h qs" for h by (simp add: hlist_def d thinned_views(4) [OF assms(1)])
  show "twin v t f qs = twin v s f qs" by (simp add: twin_def h thinned_views [OF assms(1)])
  show "entry_keys t qs = entry_keys s qs" "abs_bucket_of t qs = abs_bucket_of s qs"
    using same by (simp_all add: entry_keys_def abs_bucket_of_def)
qed

lemma coherent_thinned:
  assumes co: "coherent v F A s" and th: "thinned qs s t"
  shows "coherent v F A t" "abs_bucket_of t (A b) = abs_bucket_of s (A b)"
    "qs = [] \<Longrightarrow> tidy v F A s \<Longrightarrow> tidy v F A t"
proof -
  have live: "q \<notin> set (rcu_pending s)" if "q \<in> set (A b)" for q b using that coherentD(9) [OF co, of q] by blast
  note same = thinned_lists [OF th live] thinned_views [OF th]
  show "abs_bucket_of t (A b) = abs_bucket_of s (A b)" by (simp add: same)
  have "\<exists>e. ent t q = Some e \<and> fingerprint e \<in> F \<and> l2_index (fingerprint e) = b" if "q \<in> set (A b)" for q b
    using coherentD(7) [OF co that] live [OF that] by (simp add: thinned_views(1) [OF th])
  moreover have "q \<noteq> NULL \<and> ent t q \<noteq> None \<and> (\<forall>b. q \<notin> set (A b))" if "q \<in> set (rcu_pending t)" for q
    using thinned_queue(2) [OF th that] coherentD(9) [OF co, of q] by simp
  ultimately show "coherent v F A t"
    using co thinned_queue(1) [OF th] unfolding coherent_def
    by (simp add: thinned_lists [OF th live] thinned_views(3-14) [OF th])
  show "tidy v F A t" if "qs = []" "tidy v F A s"
    using that unfolding tidy_def by (simp add: same) blast
qed

lemma simulates_grace:
  assumes "simulates v F s a"
  shows "\<exists>y t. perform Grace s = Inr (y, t) \<and> spec_step a Grace y a \<and> simulates v F t a"
proof -
  from assms obtain A where co: "coherent v F A s" and td: "tidy v F A s" and sl: "slots_ok v s"
    and a: "a = (\<lambda>b. abs_bucket_of s (A b))"
    by (auto simp: simulates_def)
  from grace_thinned [OF coherentD(8) [OF co]] coherentD(9) [OF co] obtain t where
    t: "rcu_grace_period s = Inr t" "thinned [] s t" by blast
  have "simulates v F t a"
    unfolding simulates_def a using coherent_thinned [OF co t(2)] td sl thinned_views(15) [OF t(2)]
    by (intro exI [of _ A]) simp
  moreover have "perform Grace s = Inr (Freed, t)" using t(1) by simp
  ultimately show ?thesis using spec_step.grace by blast
qed

lemma simulates_invalidate:
  assumes "simulates v F s a" and F: "alias_free F" and adm: "admissible v F s (Invalidate w m l u)"
  shows "\<exists>y t b. perform (Invalidate w m l u) s = Inr (y, t) \<and> spec_step a (Invalidate w m l u) y b
    \<and> simulates v F t b"
proof -
  from assms(1) obtain A where A: "coherent v F A s" "tidy v F A s" "slots_ok v s"
    and a: "a = (\<lambda>b. abs_bucket_of s (A b))" by (auto simp: simulates_def)
  from adm have w: "same_cpu v w" "same_cpu w v" and new: "no_newest w m s"
    by (simp_all add: same_cpu_def no_newest_def)
  have "tidy w F A s" using A(2) by (simp add: tidy_def same_cpu_heads [OF w(1)])
  moreover have "slots_ok w s" using A(3) slots_ok_same_cpu [OF w(1)] by simp
  ultimately obtain t B where t: "invalidate_range w m l u s = Inr t" "coherent w F B t" "tidy w F B t"
      "slots_ok w t"
    and B: "(\<lambda>b. abs_bucket_of t (B b)) = (\<lambda>b. filter (\<lambda>((_, m'), _). m' \<noteq> m) (abs_bucket_of s (A b)))"
    using coherent_invalidate [OF coherent_same_cpu [OF w(1) A(1)] _ _ F new] by blast
  have "tidy v F B t" using t(3) by (simp add: tidy_def same_cpu_heads [OF w(2)])
  moreover have "slots_ok v t" using t(4) slots_ok_same_cpu [OF w(1)] by simp
  ultimately have "simulates v F t (\<lambda>i. filter (\<lambda>((_, m'), _). m' \<noteq> m) (a i))"
    unfolding simulates_def a B [symmetric] using coherent_same_cpu [OF w(2) t(2)]
    by (intro exI [of _ B]) simp
  moreover have "perform (Invalidate w m l u) s = Inr (Done, t)" using t(1) by simp
  ultimately show ?thesis using spec_step.invalidate by blast
qed

lemma simulates_step:
  assumes "simulates v F s a" and "alias_free F" and "admissible v F s r"
  shows "\<exists>y t b. perform r s = Inr (y, t) \<and> spec_step a r y b \<and> simulates v F t b"
proof (cases r)
  case (Lookup w fp m)
  then show ?thesis using simulates_lookup [OF assms(1) assms(3) [unfolded Lookup]] by blast
next
  case (Store w fp data len m)
  then show ?thesis using simulates_store [OF assms(1,2) assms(3) [unfolded Store]] by blast
next
  case (Invalidate w m l u)
  then show ?thesis using simulates_invalidate [OF assms(1,2) assms(3) [unfolded Invalidate]] by blast
next
  case Grace
  then show ?thesis using simulates_grace [OF assms(1)] by blast
qed

lemma simulates_run:
  assumes "simulates v F s a" and "alias_free F" and "quiet v F rs s"
  shows "\<exists>ys t b. perform_all rs s = Inr (ys, t) \<and> spec_run a rs ys b \<and> simulates v F t b"
  using assms(1,3)
proof (induction rs arbitrary: s a)
  case Nil
  then show ?case using spec_run.stop by auto
next
  case (Cons r rs)
  from Cons.prems(2) have adm: "admissible v F s r" by simp
  from simulates_step [OF Cons.prems(1) assms(2) adm] obtain y t b where
    t: "perform r s = Inr (y, t)" "spec_step a r y b" "simulates v F t b" by blast
  with Cons.prems(2) have "quiet v F rs t" by simp
  from Cons.IH [OF t(3) this] obtain ys u c where
    u: "perform_all rs t = Inr (ys, u)" "spec_run b rs ys c" "simulates v F u c" by blast
  with t spec_run.go [OF t(2) u(2)] show ?case by auto
qed

lemma fresh_simulates:
  assumes "c \<noteq> NULL" and "t \<noteq> NULL" and "0 < n" and "0 \<le> node v"
  shows "simulates v F (fresh_cache c t n) (\<lambda>_. [])"
  unfolding simulates_def using fresh_coherent [OF assms] fresh_tidy fresh_slots_ok
  by (intro exI [of _ "\<lambda>_. []"]) simp

lemma simulates_stray [simp]: "simulates v F (s\<lparr>stray := w\<rparr>) a = simulates v F s a"
  by (simp add: simulates_def coherent_def tidy_def slots_ok_def l2_ready_def l3_ready_def twin_def
      l2_head_def l3_head_def socket_of_def hlist_def entry_keys_def abs_bucket_of_def)

section \<open>Runs from a fresh cache\<close>

text \<open>The run of a quiet sequence is unique, so what the specification allows is what happens.\<close>

lemma quiet_spec_run:
  assumes "c \<noteq> NULL" and "t3 \<noteq> NULL" and "0 < n" and "0 \<le> node v"
    and "alias_free F" and "quiet v F rs (fresh_cache c t3 n)"
    and "perform_all rs (fresh_cache c t3 n) = Inr (ys, t)"
  shows "\<exists>b. spec_run (\<lambda>_. []) rs ys b"
  using simulates_run [OF fresh_simulates [OF assms(1-4)] assms(5,6)] assms(7) by auto

lemma spec_run_append:
  "spec_run a (rs @ rs') ys c \<longleftrightarrow>
     (\<exists>ys1 ys2 b. ys = ys1 @ ys2 \<and> spec_run a rs ys1 b \<and> spec_run b rs' ys2 c)"
proof (induction rs arbitrary: a ys)
  case Nil
  then show ?case by (auto simp: spec_run_Nil)
next
  case (Cons r rs)
  show ?case
  proof
    assume "spec_run a ((r # rs) @ rs') ys c"
    then obtain y zs b where "ys = y # zs" "spec_step a r y b" "spec_run b (rs @ rs') zs c"
      by (auto simp: spec_run_Cons)
    with Cons.IH obtain ys1 ys2 d where
      "ys = (y # ys1) @ ys2" "spec_run a (r # rs) (y # ys1) d" "spec_run d rs' ys2 c"
      by (auto intro: spec_run.go)
    then show "\<exists>ys1 ys2 b. ys = ys1 @ ys2 \<and> spec_run a (r # rs) ys1 b \<and> spec_run b rs' ys2 c"
      by blast
  next
    assume "\<exists>ys1 ys2 b. ys = ys1 @ ys2 \<and> spec_run a (r # rs) ys1 b \<and> spec_run b rs' ys2 c"
    then obtain y zs ys2 d b where "ys = y # zs @ ys2" "spec_step a r y d" "spec_run d rs zs b"
      "spec_run b rs' ys2 c" by (auto simp: spec_run_Cons)
    with Cons.IH show "spec_run a ((r # rs) @ rs') ys c" by (auto simp: spec_run_Cons)
  qed
qed

lemma spec_run_length: "spec_run a rs ys b \<Longrightarrow> length ys = length rs"
  by (induction rule: spec_run.induct) simp_all

fun stores_key :: "u64 \<times> ptr \<Rightarrow> request \<Rightarrow> bool" where
  "stores_key k (Store w fp data len m) \<longleftrightarrow> k = (fp, m)"
| "stores_key k _ \<longleftrightarrow> False"

fun drops_key :: "u64 \<times> ptr \<Rightarrow> request \<Rightarrow> bool" where
  "drops_key k (Invalidate w m l u) \<longleftrightarrow> snd k = m"
| "drops_key k _ \<longleftrightarrow> False"

lemma map_of_mru_store:
  "map_of (mru_store k x l) k' = (if k' = k then Some x else map_of l k')"
proof -
  have "map_of (filter (\<lambda>(k'', _). k'' \<noteq> k) l) k' = map_of l k'" if "k' \<noteq> k"
    using that by (induction l) auto
  then show ?thesis by (simp add: mru_store_def)
qed

lemma map_of_filter_mm:
  "map_of (filter (\<lambda>((_, m'), _). m' \<noteq> m) l) k = (if snd k = m then None else map_of l k)"
  by (induction l) auto

lemma spec_step_keeps:
  assumes "spec_step a r y b" and "\<not> stores_key k r"
  shows "map_of (b i) k = (if drops_key k r then None else map_of (a i) k)"
  using assms by (cases rule: spec_step.cases) (auto simp: map_of_mru_store map_of_filter_mm)

lemma spec_run_keeps:
  "spec_run a rs ys b \<Longrightarrow> \<forall>r\<in>set rs. \<not> stores_key k r \<and> \<not> drops_key k r \<Longrightarrow>
     map_of (b i) k = map_of (a i) k"
  by (induction rule: spec_run.induct) (auto simp: spec_step_keeps)

lemma spec_run_keeps_none:
  "spec_run a rs ys b \<Longrightarrow> \<forall>r\<in>set rs. \<not> stores_key k r \<Longrightarrow> map_of (a i) k = None \<Longrightarrow>
     map_of (b i) k = None"
  by (induction rule: spec_run.induct) (auto simp: spec_step_keeps)

text \<open>
  C2. Last write wins: on the same workload, a lookup that follows a successful store of its key,
  with no later store of that key and no invalidation of its memory space in between, returns the expiry and the bytes that store left in
  the entry if the clock is before the expiry, and misses otherwise; whatever other stores,
  lookups, invalidations and grace periods happened.
\<close>

theorem quiet_last_write:
  assumes "c \<noteq> NULL" and "t3 \<noteq> NULL" and "0 < n" and "0 \<le> node v" and "alias_free F"
    and "quiet v F (rs @ Store w fp (Some d) len m # rs' @ [Lookup w' fp m]) (fresh_cache c t3 n)"
    and "perform_all (rs @ Store w fp (Some d) len m # rs' @ [Lookup w' fp m]) (fresh_cache c t3 n)
        = Inr (ys, t)"
    and "ys ! length rs = Code 0" and "\<forall>r\<in>set rs'. \<not> stores_key (fp, m) r \<and> \<not> drops_key (fp, m) r"
  shows "last ys = Hit (let x = jiffies w + msecs_to_jiffies w 1000 in
    if time_before (jiffies w') x then Some (x, stored_union w d len) else None)"
proof -
  let ?k = "(fp, m)" and ?i = "l2_index fp"
  let ?x = "(jiffies w + msecs_to_jiffies w 1000, stored_union w d len)"
  from quiet_spec_run [OF assms(1-7)] obtain ys1 y ys2 z a b e g where
    ys: "ys = ys1 @ y # ys2 @ [z]" and one: "spec_run (\<lambda>_. []) rs ys1 a"
    and st: "spec_step a (Store w fp (Some d) len m) y b" and two: "spec_run b rs' ys2 e"
    and lk: "spec_step e (Lookup w' fp m) z g"
    by (auto simp: spec_run_append spec_run_Cons spec_run_Nil)
  have "y = Code 0" using assms(8) spec_run_length [OF one] by (simp add: ys nth_append)
  with st have "map_of (b ?i) ?k = Some ?x"
    by (auto elim!: spec_storeE simp: map_of_mru_store)
  then have e: "map_of (e ?i) ?k = Some ?x" using spec_run_keeps [OF two assms(9)] by simp
  from lk have "z = Hit (mru_find (jiffies w') ?k (e ?i))" by (auto elim: spec_lookupE)
  with e show ?thesis by (simp add: ys mru_find_def Let_def)
qed

lemma invalidated_misses:
  assumes "c \<noteq> NULL" and "t3 \<noteq> NULL" and "0 < n" and "0 \<le> node v" and "alias_free F"
    and "quiet v F (rs @ Invalidate w m l u # rs' @ [Lookup w' fp m]) (fresh_cache c t3 n)"
    and "\<forall>r\<in>set rs'. \<not> stores_key (fp, m) r"
  shows "\<exists>ys t. perform_all (rs @ Invalidate w m l u # rs' @ [Lookup w' fp m]) (fresh_cache c t3 n)
      = Inr (ys, t) \<and> last ys = Hit None"
proof -
  from simulates_run [OF fresh_simulates [OF assms(1-4)] assms(5,6)] obtain ys t g where
    run: "perform_all (rs @ Invalidate w m l u # rs' @ [Lookup w' fp m]) (fresh_cache c t3 n) = Inr (ys, t)"
    "spec_run (\<lambda>_. []) (rs @ Invalidate w m l u # rs' @ [Lookup w' fp m]) ys g" by blast
  then obtain ys1 y ys2 z a b e where
    ys: "ys = ys1 @ y # ys2 @ [z]" and inv: "spec_step a (Invalidate w m l u) y b"
    and two: "spec_run b rs' ys2 e" and lk: "spec_step e (Lookup w' fp m) z g"
    by (auto simp: spec_run_append spec_run_Cons spec_run_Nil)
  from spec_step_keeps [OF inv, of "(fp, m)"] have "map_of (b (l2_index fp)) (fp, m) = None" by simp
  then have "map_of (e (l2_index fp)) (fp, m) = None" by (rule spec_run_keeps_none [OF two assms(7)])
  with lk have "z = Hit None" by (auto elim: spec_lookupE simp: mru_find_def)
  with run(1) ys show ?thesis by simp
qed

text \<open>
  C3. Invalidation takes effect: on the same workload, a lookup that follows an invalidation of its
  memory space, with no later store of its key in between, misses. (The workload invalidates a memory
  space only while none of its entries is the newest of an L2 bucket of the CPU.)
\<close>

theorem quiet_invalidate_then_miss:
  assumes "c \<noteq> NULL" and "t3 \<noteq> NULL" and "0 < n" and "0 \<le> node v" and "alias_free F"
    and "quiet v F (rs @ Invalidate w m l u # rs' @ [Lookup w' fp m]) (fresh_cache c t3 n)"
    and "\<forall>r\<in>set rs'. \<not> stores_key (fp, m) r"
  shows "\<exists>ys t. perform_all (rs @ Invalidate w m l u # rs' @ [Lookup w' fp m]) (fresh_cache c t3 n)
      = Inr (ys, t) \<and> last ys = Hit None"
  by (rule invalidated_misses [OF assms])

section \<open>Symbolic execution\<close>

text \<open>The definitions that let \<open>simp\<close> run a sequence of requests on a fresh cache.\<close>

lemmas kcr_eval =
  store_result_def store_inline_def memcpy_from_def new_entry_def zero_entry_def set_ext_data_def
  set_ext_size_def KCR_RESULT_SIZE_MAX_def store_in_l2_def store_in_l3_def l3_socket_def
  replace_in_bucket_def spin_lock_def spin_unlock_def get_ent_def put_ent_def ent_def fuel_def
  hfirst_def set_first_def hlist_add_head_rcu_def set_next_def set_pprev_def hlist_del_rcu_def
  call_rcu_def fresh_cache_def Let_def same_key_def live_match_def lookup_unified_def lookup_l2_def
  lookup_l3_def upd_stats_def promote_to_l2_def rcu_grace_period_def free_entry_rcu_def
  kfree_entry_def read_reply_def

lemmas index_eval = ctx_def l2_index_def l3_index_def KCR_L2_ENTRIES_def KCR_L3_ENTRIES_def

section \<open>A concrete quiet run\<close>

definition demo_requests :: "request list" where
  "demo_requests =
     [Store (ctx 0 100 8192 0) 5 (Some (replicate 16 7)) 16 4096, Lookup (ctx 0 110 0 0) 6 4096,
      Store (ctx 0 120 8448 0) 6 (Some (replicate 16 9)) 16 4096, Grace,
      Lookup (ctx 0 349 0 0) 5 4096]"

lemma demo_quiet:
  "alias_free {5, 6}" "quiet (ctx 0 0 0 0) {5, 6} demo_requests (fresh_cache 16 32 1)"
proof -
  show "alias_free {5, 6}" by (simp add: alias_free_def l2_index_def KCR_L2_ENTRIES_def)
  show "quiet (ctx 0 0 0 0) {5, 6} demo_requests (fresh_cache 16 32 1)"
    by (simp add: demo_requests_def kcr_eval index_eval same_cpu_def time_before_iff)
qed

theorem quiet_last_write_witness:
  "\<exists>ys t. perform_all demo_requests (fresh_cache 16 32 1) = Inr (ys, t)
     \<and> last ys = Hit (Some (350, stored_union (ctx 0 100 8192 0) (replicate 16 7) 16))"
proof -
  let ?rs = "[Lookup (ctx 0 110 0 0) 6 4096,
      Store (ctx 0 120 8448 0) 6 (Some (replicate 16 9)) 16 4096, Grace]"
  have sp: "demo_requests = [] @ Store (ctx 0 100 8192 0) 5 (Some (replicate 16 7)) 16 4096
      # ?rs @ [Lookup (ctx 0 349 0 0) 5 4096]" by (simp add: demo_requests_def)
  let ?run = "perform_all demo_requests (fresh_cache 16 32 1)"
  have "map_sum id (\<lambda>x. fst x ! 0) ?run = Inr (Code 0)"
    by (simp add: demo_requests_def kcr_eval index_eval time_before_iff)
  then obtain ys t where r: "?run = Inr (ys, t)" and y: "ys ! 0 = Code 0" by (cases ?run) auto
  have k: "\<forall>r\<in>set ?rs. \<not> stores_key (5, 4096) r \<and> \<not> drops_key (5, 4096) r" by simp
  have live: "time_before 349 350" by code_simp
  from quiet_last_write [OF _ _ _ _ demo_quiet(1) demo_quiet(2) [unfolded sp] r [unfolded sp] _ k] y
  have "last ys = Hit (Some (350, stored_union (ctx 0 100 8192 0) (replicate 16 7) 16))"
    by (simp add: ctx_def live)
  with r show ?thesis by blast
qed

text \<open>Two memory spaces store the same fingerprint, and the older one is invalidated.\<close>

definition demo_invalidate :: "request list" where
  "demo_invalidate =
     [Store (ctx 0 100 8192 0) 5 (Some [7, 8]) 2 4096, Store (ctx 0 110 8448 0) 5 (Some [9]) 1 8192,
      Invalidate (ctx 0 115 0 0) 4096 0 0, Grace, Lookup (ctx 0 120 0 0) 5 4096]"

lemma demo_invalidate_quiet:
  "alias_free {5}" "quiet (ctx 0 0 0 0) {5} demo_invalidate (fresh_cache 16 32 1)"
proof -
  show "alias_free {5}" by (simp add: alias_free_def)
  show "quiet (ctx 0 0 0 0) {5} demo_invalidate (fresh_cache 16 32 1)"
    by (simp add: demo_invalidate_def kcr_eval index_eval same_cpu_def no_newest_def belongs_def
        split: sum.split)
qed

theorem quiet_invalidate_then_miss_witness:
  "\<exists>ys t. perform_all demo_invalidate (fresh_cache 16 32 1) = Inr (ys, t) \<and> last ys = Hit None"
proof -
  have sp: "demo_invalidate = [Store (ctx 0 100 8192 0) 5 (Some [7, 8]) 2 4096,
      Store (ctx 0 110 8448 0) 5 (Some [9]) 1 8192] @ Invalidate (ctx 0 115 0 0) 4096 0 0
      # [Grace] @ [Lookup (ctx 0 120 0 0) 5 4096]" by (simp add: demo_invalidate_def)
  from quiet_invalidate_then_miss [OF _ _ _ _ demo_invalidate_quiet(1) demo_invalidate_quiet(2) [unfolded sp]]
  show ?thesis unfolding sp by (simp add: ctx_def)
qed

end
