(* ===== verification/List_Walk.thy ===== *)
theory List_Walk
  imports Cache_Ops
begin

text \<open>
  Why the fuel of the list walks (\<open>hlist_find\<close>) is not an artefact of the model: a walk that ends at
  all ends within it.
\<close>

section \<open>The fuel of a list walk is exact\<close>

text \<open>
  The heap as a walk with the test \<open>P\<close> sees it: a node it stops at (a match, or freed memory, where
  it faults) has no successor.
\<close>

definition walk_view :: "(kcr_entry \<Rightarrow> bool) \<Rightarrow> cache_state \<Rightarrow> ptr \<Rightarrow> kcr_entry option" where
  "walk_view P s q =
     (case ent s q of None \<Rightarrow> Some zero_entry | Some e \<Rightarrow> Some (if P e then e\<lparr>node_next := NULL\<rparr> else e))"

definition stops :: "(kcr_entry \<Rightarrow> bool) \<Rightarrow> cache_state \<Rightarrow> ptr \<Rightarrow> bool" where
  "stops P s q \<longleftrightarrow> (case ent s q of None \<Rightarrow> True | Some e \<Rightarrow> P e)"

lemma walk_view_simps:
  "ent s q = None \<Longrightarrow> walk_view P s q = Some zero_entry"
  "ent s q = Some e \<Longrightarrow> walk_view P s q = Some (if P e then e\<lparr>node_next := NULL\<rparr> else e)"
  by (simp_all add: walk_view_def)

lemma walk_ends_chain:
  "hlist_find k P s p \<noteq> Inl EndlessLoop \<Longrightarrow> \<exists>qs. chain (walk_view P s) p qs"
proof (induction k arbitrary: p)
  case (Suc k)
  show ?case
  proof (cases "p = NULL \<or> stops P s p")
    case True
    then show ?thesis
      by (intro exI [of _ "if p = NULL then [] else [p]"])
        (auto simp: walk_view_def stops_def zero_entry_def split: option.splits)
  next
    case False
    then obtain e where e: "ent s p = Some e" "\<not> P e" by (auto simp: stops_def split: option.splits)
    with False Suc.prems have "hlist_find k P s (node_next e) \<noteq> Inl EndlessLoop" by simp
    from Suc.IH [OF this] obtain qs where "chain (walk_view P s) (node_next e) qs" by blast
    with False e show ?thesis by (intro exI [of _ "p # qs"]) (simp add: walk_view_simps)
  qed
qed simp

text \<open>With enough fuel for the nodes of the walk the result no longer depends on it.\<close>

lemma walk_result:
  "chain (walk_view P s) p qs \<Longrightarrow> length qs < k \<or> length qs = k \<and> qs \<noteq> [] \<and> stops P s (last qs) \<Longrightarrow>
    hlist_find k P s p = hlist_find (Suc (length qs)) P s p"
proof (induction qs arbitrary: p k)
  case Nil
  then show ?case by (cases k) auto
next
  case (Cons q qs)
  then obtain j where k: "k = Suc j" by (cases k) auto
  from Cons.prems(1) have q: "p = q" "q \<noteq> NULL" by simp_all
  show ?case
  proof (cases "stops P s q")
    case True
    then show ?thesis using q by (auto simp: k stops_def get_ent_def split: option.splits)
  next
    case False
    then obtain e where e: "ent s q = Some e" "\<not> P e" by (auto simp: stops_def split: option.splits)
    with Cons.prems(1) have ch: "chain (walk_view P s) (node_next e) qs"
      by (auto simp: walk_view_simps)
    with False Cons.prems(2) have "length qs < j \<or> length qs = j \<and> qs \<noteq> [] \<and> stops P s (last qs)"
      by (cases "qs = []") (auto simp: k)
    from Cons.IH [OF ch this] show ?thesis using q e by (simp add: k)
  qed
qed

lemma walk_inner_alloc:
  "chain (walk_view P s) p qs \<Longrightarrow> q \<in> set (butlast qs) \<Longrightarrow> ent s q \<noteq> None"
proof (induction qs arbitrary: p)
  case (Cons a qs)
  then show ?case
    by (cases qs) (auto simp: walk_view_def zero_entry_def split: option.splits if_splits)
qed simp

lemma walk_length:
  assumes "chain (walk_view P s) p qs"
  shows "length qs < fuel s \<or> length qs = fuel s \<and> qs \<noteq> [] \<and> stops P s (last qs)"
proof -
  have bound: "length xs < fuel s" if "distinct xs" "set xs \<subseteq> dom (ent s)" for xs
  proof -
    have "card (set xs) \<le> card (dom (ent s))"
      using that(2) by (simp add: card_mono ent_def finite_dom_map_of)
    also have "\<dots> \<le> length (entries s)" by (simp add: ent_def card_dom_map_of)
    finally show ?thesis using that(1) by (simp add: distinct_card fuel_def)
  qed
  have d: "distinct qs" by (rule chain_distinct [OF assms])
  have inner: "set (butlast qs) \<subseteq> dom (ent s)" using walk_inner_alloc [OF assms] by auto
  show ?thesis
  proof (cases "qs = []")
    case False
    show ?thesis
    proof (cases "ent s (last qs)")
      case None
      have "length (butlast qs) < fuel s" by (rule bound [OF distinct_butlast [OF d] inner])
      with None False show ?thesis by (auto simp: stops_def)
    next
      case (Some e)
      then have "set qs \<subseteq> dom (ent s)"
        using inner False by (metis append_butlast_last_id domI insert_subset list.simps(15) set_append
            Un_subset_iff empty_subsetI list.set(1))
      with bound d show ?thesis by blast
    qed
  qed (simp add: fuel_def)
qed

text \<open>
  If the walk stops after any number of turns at all, with a result or a fault, then the model gives
  exactly that, in any state and for lists of any shape.
\<close>

lemma walk_fuel:
  assumes "hlist_find k P s p \<noteq> Inl EndlessLoop"
  shows "hlist_find (fuel s) P s p = hlist_find k P s p"
proof -
  from walk_ends_chain [OF assms] obtain qs where qs: "chain (walk_view P s) p qs" by blast
  have fuel: "hlist_find (fuel s) P s p = hlist_find (Suc (length qs)) P s p"
    by (rule walk_result [OF qs walk_length [OF qs]])
  have mono: "hlist_find (j + i) P s q = hlist_find j P s q" if "hlist_find j P s q \<noteq> Inl EndlessLoop" for i j q
    using that
  proof (induction j arbitrary: q)
    case (Suc j)
    then show ?case
      by (cases "get_ent s q") (auto split: if_splits)
  qed simp
  let ?n = "Suc (length qs)"
  have "hlist_find (k + ?n) P s p = hlist_find ?n P s p" by (rule walk_result [OF qs]) simp
  with mono [OF assms, of ?n] fuel show ?thesis by simp
qed

end
