(* ===== verification/Cache_Faults.thy ===== *)
theory Cache_Faults
  imports Cache_Run Cache_Flush List_Walk
begin

text \<open>
  Where the cache as written goes wrong: a second CPU, two fingerprints that share an L2 bucket but
  not an L3 bucket, and invalidation. All runs start from a cache \<open>kcr_init\<close> has just set up, with
  small results, and are executed symbolically: contexts, keys, data and addresses are arbitrary.
\<close>

section \<open>A second CPU\<close>

text \<open>A store of a small result whose allocation succeeds, on a CPU of node 0.\<close>

definition small_store :: "env \<Rightarrow> u8 list \<Rightarrow> u32 \<Rightarrow> bool" where
  "small_store v d len \<longleftrightarrow> len \<noteq> 0 \<and> unat len \<le> 64 \<and> unat len \<le> length d
     \<and> kzalloc_ret v \<noteq> NULL \<and> node v = 0"

text \<open>
  C9. A key stored on one CPU and stored again on another of the same node is a trap for the first
  CPU: the second store unlinks the first entry from L3 and queues it for freeing, but the first
  CPU's L2 bucket still points to it. The next store of the key on the first CPU dereferences the
  list poison, and a lookup of it there after a grace period reads freed memory.
\<close>

theorem second_cpu_faults:
  assumes "small_store v d len" and "small_store w d' len'" and "small_store u d'' len''"
    and "cpu v \<noteq> cpu w" and "cpu u = cpu v" and "distinct [kzalloc_ret v, kzalloc_ret w, kzalloc_ret u]"
    and "c \<noteq> NULL" and "t3 \<noteq> NULL" and "0 < n"
  shows "perform_all [Store v fp (Some d) len m, Store w fp (Some d') len' m,
           Store u fp (Some d'') len'' m] (fresh_cache c t3 n) = Inl PoisonAccess
    \<and> perform_all [Store v fp (Some d) len m, Store w fp (Some d') len' m, Grace,
           Lookup u fp m] (fresh_cache c t3 n) = Inl UseAfterFree"
proof -
  have "kzalloc_ret w \<noteq> kzalloc_ret v" "kzalloc_ret u \<noteq> kzalloc_ret w" "kzalloc_ret u \<noteq> kzalloc_ret v"
    using assms(6) by auto
  with assms show ?thesis by (simp add: kcr_eval small_store_def)
qed

section \<open>Two fingerprints in one L2 bucket\<close>

text \<open>
  C10. On one CPU, the condition on fingerprints in the refinement theorem is needed: when \<open>f\<close> and \<open>g\<close>
  share an L2 bucket but not an L3 bucket, storing \<open>f\<close>, \<open>g\<close>, \<open>f\<close>, \<open>f\<close> queues one entry twice, and
  the next grace period frees it twice.
\<close>

theorem shared_l2_bucket_double_free:
  assumes "small_store v1 d1 n1" and "small_store v2 d2 n2" and "small_store v3 d3 n3"
    and "small_store v4 d4 n4" and "cpu v2 = cpu v1" and "cpu v3 = cpu v1" and "cpu v4 = cpu v1"
    and "distinct [kzalloc_ret v1, kzalloc_ret v2, kzalloc_ret v3, kzalloc_ret v4]"
    and "l2_index f = l2_index g" and "l3_index f \<noteq> l3_index g"
    and "c \<noteq> NULL" and "t3 \<noteq> NULL" and "0 < n"
  shows "perform_all [Store v1 f (Some d1) n1 m, Store v2 g (Some d2) n2 m, Store v3 f (Some d3) n3 m,
           Store v4 f (Some d4) n4 m, Grace] (fresh_cache c t3 n) = Inl DoubleFree"
proof -
  have "f \<noteq> g" "g \<noteq> f" "l3_index g \<noteq> l3_index f" using assms by auto
  moreover have "kzalloc_ret v2 \<noteq> kzalloc_ret v1" "kzalloc_ret v3 \<noteq> kzalloc_ret v1"
    "kzalloc_ret v4 \<noteq> kzalloc_ret v1" "kzalloc_ret v3 \<noteq> kzalloc_ret v2"
    "kzalloc_ret v4 \<noteq> kzalloc_ret v2" "kzalloc_ret v4 \<noteq> kzalloc_ret v3"
    using assms by auto
  ultimately show ?thesis using assms by (simp add: kcr_eval small_store_def)
qed

section \<open>A cycle in a list\<close>

lemma cycle_run:
  assumes "small_store v1 d1 n1" and "small_store v2 d2 n2" and "small_store v3 d3 n3"
    and "small_store v4 d4 n4" and "small_store v5 d5 n5"
    and "cpu v4 = cpu v1" and "cpu w2 = cpu v1" and "cpu v2 \<noteq> cpu v1" and "cpu v3 = cpu v2"
    and "cpu w1 = cpu v2" and "cpu v5 = cpu v2" and "node w1 = 0" and "node w2 = 0"
    and "distinct [kzalloc_ret v1, kzalloc_ret v2, kzalloc_ret v3, kzalloc_ret v4, kzalloc_ret v5]"
    and "l2_index g = l2_index f" and "l2_index h = l2_index f"
    and "distinct [l3_index f, l3_index g, l3_index h]" and "m' \<noteq> m"
    and "c \<noteq> NULL" and "t3 \<noteq> NULL" and "0 < n"
    and "time_before (jiffies w1) (jiffies v1 + msecs_to_jiffies v1 1000)"
  shows "\<exists>ys s. perform_all
     [Store v1 f (Some d1) n1 m, Store v2 f (Some d2) n2 m', Store v3 g (Some d3) n3 m',
      Store v4 h (Some d4) n4 m, Lookup w1 f m, Store v5 f (Some d5) n5 m'] (fresh_cache c t3 n) = Inr (ys, s)
     \<and> hlist_find (fuel s) (live_match g m (jiffies w2)) s (hfirst s (L3Head 0 (l3_index g))) = Inl EndlessLoop
     \<and> lookup_unified w2 g m s = Inl EndlessLoop"
proof -
  have "f \<noteq> g" "g \<noteq> f" "f \<noteq> h" "h \<noteq> f" "g \<noteq> h" "h \<noteq> g" "m \<noteq> m'" "cpu v1 \<noteq> cpu v2"
    "l3_index g \<noteq> l3_index f" "l3_index h \<noteq> l3_index f" "l3_index h \<noteq> l3_index g" using assms by auto
  moreover have
    "kzalloc_ret v2 \<noteq> kzalloc_ret v1" "kzalloc_ret v3 \<noteq> kzalloc_ret v1"
    "kzalloc_ret v4 \<noteq> kzalloc_ret v1" "kzalloc_ret v3 \<noteq> kzalloc_ret v2"
    "kzalloc_ret v4 \<noteq> kzalloc_ret v2" "kzalloc_ret v4 \<noteq> kzalloc_ret v3"
    "kzalloc_ret v5 \<noteq> kzalloc_ret v1" "kzalloc_ret v5 \<noteq> kzalloc_ret v2"
    "kzalloc_ret v5 \<noteq> kzalloc_ret v3" "kzalloc_ret v5 \<noteq> kzalloc_ret v4"
    using assms by auto
  ultimately show ?thesis using assms by (simp add: kcr_eval small_store_def)
qed

text \<open>
  C29. On two CPUs of one node, with three fingerprints \<open>f\<close>, \<open>g\<close>, \<open>h\<close> that share an L2 bucket but no L3
  bucket and two memory spaces, five stores and one lookup succeed and leave a cycle behind the head
  of the L3 bucket of \<open>g\<close>: the loop of a lookup there is not over after any number of turns, so the
  lookup of \<open>g\<close> that follows never returns.
\<close>

theorem list_cycle_endless_loop:
  assumes "small_store v1 d1 n1" and "small_store v2 d2 n2" and "small_store v3 d3 n3"
    and "small_store v4 d4 n4" and "small_store v5 d5 n5"
    and "cpu v4 = cpu v1" and "cpu w2 = cpu v1" and "cpu v2 \<noteq> cpu v1" and "cpu v3 = cpu v2"
    and "cpu w1 = cpu v2" and "cpu v5 = cpu v2" and "node w1 = 0" and "node w2 = 0"
    and "distinct [kzalloc_ret v1, kzalloc_ret v2, kzalloc_ret v3, kzalloc_ret v4, kzalloc_ret v5]"
    and "l2_index g = l2_index f" and "l2_index h = l2_index f"
    and "distinct [l3_index f, l3_index g, l3_index h]" and "m' \<noteq> m"
    and "c \<noteq> NULL" and "t3 \<noteq> NULL" and "0 < n"
    and "time_before (jiffies w1) (jiffies v1 + msecs_to_jiffies v1 1000)"
  shows "\<exists>ys s. perform_all
     [Store v1 f (Some d1) n1 m, Store v2 f (Some d2) n2 m', Store v3 g (Some d3) n3 m',
      Store v4 h (Some d4) n4 m, Lookup w1 f m, Store v5 f (Some d5) n5 m'] (fresh_cache c t3 n) = Inr (ys, s)
     \<and> (\<forall>turns. hlist_find turns (live_match g m (jiffies w2)) s (hfirst s (L3Head 0 (l3_index g)))
          = Inl EndlessLoop)
     \<and> lookup_unified w2 g m s = Inl EndlessLoop"
proof -
  have "\<forall>turns. hlist_find turns P s p = Inl EndlessLoop" if "hlist_find (fuel s) P s p = Inl EndlessLoop" for P s p
    using that walk_fuel by metis
  with cycle_run [OF assms] show ?thesis by blast
qed

section \<open>Promotion\<close>

lemma promotion_moves:
  assumes "small_store v d len" and "cpu w \<noteq> cpu v" and "cpu x \<noteq> cpu v" and "cpu x \<noteq> cpu w"
    and "node w = 0" and "node x = 0" and "c \<noteq> NULL" and "t3 \<noteq> NULL" and "0 < n"
    and "time_before (jiffies w) (jiffies v + msecs_to_jiffies v 1000)"
    and "time_before (jiffies x) (jiffies v + msecs_to_jiffies v 1000)"
  shows "let hit = Hit (Some (jiffies v + msecs_to_jiffies v 1000, stored_union v d len)) in
    map_sum id fst (perform_all [Store v fp (Some d) len m, Lookup w fp m, Lookup x fp m]
      (fresh_cache c t3 n)) = Inr [Code 0, hit, Hit None]
    \<and> map_sum id fst (perform_all [Store v fp (Some d) len m, Lookup x fp m] (fresh_cache c t3 n))
      = Inr [Code 0, hit]"
  using assms by (simp add: kcr_eval small_store_def stored_union_def inline_union_def)

text \<open>
  C16. Promotion takes the entry away from the socket: after a lookup on a second CPU of the node has
  found a key in L3 and promoted it, a third CPU of the node misses the key, which it would have
  found in L3 without that lookup.
\<close>

theorem promotion_empties_l3:
  assumes "small_store v d len" and "cpu w \<noteq> cpu v" and "cpu x \<noteq> cpu v" and "cpu x \<noteq> cpu w"
    and "node w = 0" and "node x = 0" and "c \<noteq> NULL" and "t3 \<noteq> NULL" and "0 < n"
    and "time_before (jiffies w) (jiffies v + msecs_to_jiffies v 1000)"
    and "time_before (jiffies x) (jiffies v + msecs_to_jiffies v 1000)"
  shows "let hit = Hit (Some (jiffies v + msecs_to_jiffies v 1000, stored_union v d len)) in
    map_sum id fst (perform_all [Store v fp (Some d) len m, Lookup w fp m, Lookup x fp m]
      (fresh_cache c t3 n)) = Inr [Code 0, hit, Hit None]
    \<and> map_sum id fst (perform_all [Store v fp (Some d) len m, Lookup x fp m] (fresh_cache c t3 n))
      = Inr [Code 0, hit]"
  by (rule promotion_moves [OF assms])

section \<open>Invalidation that does not invalidate\<close>

text \<open>
  One entry in the cache, stored by CPU \<open>c\<close> of node 0: the only bucket heads that are not NULL are
  that of the L2 bucket \<open>b2\<close> of \<open>c\<close> and that of the L3 bucket \<open>b3\<close> of socket 0, and only the L3
  bucket is a well-formed list.
\<close>

definition one_entry :: "nat \<Rightarrow> nat \<Rightarrow> nat \<Rightarrow> ptr \<Rightarrow> cache_state \<Rightarrow> bool" where
  "one_entry c b2 b3 p s \<longleftrightarrow> caches s \<noteq> NULL \<and> (\<forall>h. \<not> lock (bucket_at s h))
     \<and> hfirst s (L2Head c b2) = p \<and> hlist s (L3Head 0 b3) [p]
     \<and> (\<forall>h. h \<noteq> L2Head c b2 \<and> h \<noteq> L3Head 0 b3 \<longrightarrow> hfirst s h = NULL)"

text \<open>Flushing the L2 buckets of any CPU leaves the L2 head, and at most one entry in L3.\<close>

lemma flush_l2_one:
  fixes c' :: nat and m :: ptr
  assumes "one_entry c b2 b3 p s" and "b2 < KCR_L2_ENTRIES"
  defines "hit \<equiv> c' = c \<and> belongs s m p"
  shows "\<exists>t. rfold (\<lambda>b. flush_bucket m (count_invalidation c') (L2Head c' b)) [0..<KCR_L2_ENTRIES] s = Inr t
    \<and> cache_frame s t \<and> hlist t (L3Head 0 b3) (if hit then [] else [p])
    \<and> rcu_pending t = rcu_pending s @ (if hit then [p] else [])
    \<and> (\<forall>h. h \<noteq> L3Head 0 b3 \<longrightarrow> hfirst t h = hfirst s h)"
proof (cases "c' = c")
  case False
  then have "\<And>b. b \<in> set [0..<KCR_L2_ENTRIES] \<Longrightarrow>
      hfirst s (L2Head c' b) = NULL \<and> \<not> lock (bucket_at s (L2Head c' b))"
    using assms(1) by (auto simp: one_entry_def simp del: bucket_at.simps)
  then have "rfold (\<lambda>b. flush_bucket m (count_invalidation c') (L2Head c' b)) [0..<KCR_L2_ENTRIES] s = Inr s"
    by (rule flush_all_empty)
  then show ?thesis using assms(1) False by (auto simp: one_entry_def hit_def)
next
  case True
  from assms(1) have l3: "hlist s (L3Head 0 b3) [p]" and l2: "hfirst s (L2Head c' b2) = first_of [p]"
    and lk: "\<not> lock (bucket_at s (L2Head c' b2))"
    using True by (simp_all add: one_entry_def del: bucket_at.simps)
  from flush_bucket_through [OF l3 l2 lk counts_only_simps(2), of m c'] obtain t where
    t: "flush_bucket m (count_invalidation c') (L2Head c' b2) s = Inr t"
    "hlist t (L3Head 0 b3) (if hit then [] else [p])"
    "rcu_pending t = rcu_pending s @ (if hit then [p] else [])"
    "\<forall>h. h \<noteq> L3Head 0 b3 \<longrightarrow> hfirst t h = hfirst s h" "cache_frame s t"
    using True by (auto simp: hit_def split: if_splits)
  have "rfold (\<lambda>b. flush_bucket m (count_invalidation c') (L2Head c' b)) [0..<KCR_L2_ENTRIES] s = Inr t"
    using assms(1,2) t(1,4) frame_lock [OF t(5)] True
    by (intro flush_all_one [of b2]) (auto simp: one_entry_def simp del: bucket_at.simps)
  with t show ?thesis by blast
qed

lemma flush_l3_one:
  assumes "hlist s (L3Head 0 b3) qs" and "b3 < KCR_L3_ENTRIES"
    and "\<And>h. \<not> lock (bucket_at s h)" and "\<And>i b. L3Head i b \<noteq> L3Head 0 b3 \<Longrightarrow> hfirst s (L3Head i b) = NULL"
  shows "\<exists>t. rfold (\<lambda>b. flush_bucket m id (L3Head i b)) [0..<KCR_L3_ENTRIES] s = Inr t
    \<and> cache_frame s t
    \<and> rcu_pending t = rcu_pending s @ (if i = 0 then filter (belongs s m) qs else [])
    \<and> (\<forall>h. h \<noteq> L3Head 0 b3 \<longrightarrow> hfirst t h = hfirst s h)"
proof (cases "i = 0")
  case False
  then have "rfold (\<lambda>b. flush_bucket m id (L3Head i b)) [0..<KCR_L3_ENTRIES] s = Inr s"
    using assms(3,4) by (intro flush_all_empty) (auto simp del: bucket_at.simps)
  then show ?thesis using False by auto
next
  case True
  have first: "hfirst s (L3Head 0 b3) = first_of qs"
    using assms(1) by (auto simp: hlist_def dest: dlist_first)
  from flush_bucket_through [OF assms(1) first assms(3) counts_only_simps(1), of m] obtain t where
    t: "flush_bucket m id (L3Head 0 b3) s = Inr t"
    "rcu_pending t = rcu_pending s @ filter (belongs s m) qs"
    "\<forall>h. h \<noteq> L3Head 0 b3 \<longrightarrow> hfirst t h = hfirst s h" "cache_frame s t" by blast
  have "rfold (\<lambda>b. flush_bucket m id (L3Head 0 b)) [0..<KCR_L3_ENTRIES] s = Inr t"
    using assms(2-4) t(1,3) frame_lock [OF t(4)] 
    by (intro flush_all_one [of b3]) (auto simp del: bucket_at.simps)
  with t True show ?thesis by auto
qed

text \<open>The whole invalidation, when no external slot is in use.\<close>

lemma invalidate_one:
  assumes "one_entry c b2 b3 p s" and "b2 < KCR_L2_ENTRIES" and "b3 < KCR_L3_ENTRIES"
    and "l3_ready w s" and "\<And>i. \<not> ext_lock (tables s i)" and "\<And>i j. ext_slots (tables s i) j = NULL"
    and "belongs s m p" and "rcu_pending s = []"
  shows "\<exists>t. invalidate_range w m a b s = Inr t \<and> hfirst t (L2Head c b2) = p
    \<and> map_option payload (ent t p) = map_option payload (ent s p)
    \<and> caches t = caches s
    \<and> (socket_of w s = 0 \<longrightarrow> rcu_pending t = [p])"
proof -
  let ?i = "socket_of w s" and ?hit = "cpu w = c \<and> belongs s m p"
  from flush_l2_one [OF assms(1,2), where c' = "cpu w" and m = m] obtain s1 where
    s1: "rfold (\<lambda>b. flush_bucket m (count_invalidation (cpu w)) (L2Head (cpu w) b)) [0..<KCR_L2_ENTRIES] s
      = Inr s1" "cache_frame s s1" "hlist s1 (L3Head 0 b3) (if ?hit then [] else [p])"
    "rcu_pending s1 = rcu_pending s @ (if ?hit then [p] else [])"
    "\<And>h. h \<noteq> L3Head 0 b3 \<Longrightarrow> hfirst s1 h = hfirst s h" by blast
  have un: "\<And>h. \<not> lock (bucket_at s1 h)"
    using frame_lock [OF s1(2)] assms(1) by (simp add: one_entry_def)
  have em: "\<And>i b. L3Head i b \<noteq> L3Head 0 b3 \<Longrightarrow> hfirst s1 (L3Head i b) = NULL"
    using s1(5) assms(1) by (simp add: one_entry_def)
  from flush_l3_one [OF s1(3) assms(3) un em, of m ?i] obtain s2 where
    s2: "rfold (\<lambda>b. flush_bucket m id (L3Head ?i b)) [0..<KCR_L3_ENTRIES] s1 = Inr s2" "cache_frame s1 s2"
    "rcu_pending s2 = rcu_pending s1
      @ (if ?i = 0 then filter (belongs s1 m) (if ?hit then [] else [p]) else [])"
    "\<And>h. h \<noteq> L3Head 0 b3 \<Longrightarrow> hfirst s2 h = hfirst s1 h" by blast
  have fr: "cache_frame s s2" using s1(2) s2(2) by (rule cache_frame_trans)
  let ?s3 = "upd_table ?i (\<lambda>t. t\<lparr>ext_lock := True\<rparr>) s2"
  have sl: "rfold (free_ext_slot ?i) [0..<KCR_EXT_SLOTS] ?s3 = Inr ?s3"
    using fr assms(6) by (intro rfold_no_change) (simp add: free_ext_slot_def cache_frame_def)
  have "ext_spin_lock ?i s2 = Inr ?s3"
    using fr assms(5) by (simp add: ext_spin_lock_def cache_frame_def)
  moreover have "l3_socket w s1 = Inr ?i"
    using assms(4) frame_ready [OF s1(2)] frame_socket [OF s1(2)] by (simp add: l3_socket_ready)
  ultimately have "invalidate_range w m a b s = Inr (ext_spin_unlock ?i ?s3)"
    using s1(1) s2(1) sl assms(1) by (simp add: invalidate_range_def one_entry_def)
  moreover have "rcu_pending s2 = [p]" if "?i = 0"
    using that s1(4) s2(3) assms(7,8) belongs_frame [OF s1(2)] by auto
  moreover have "hfirst s2 (L2Head c b2) = p" using s1(5) s2(4) assms(1) by (simp add: one_entry_def)
  moreover have "map_option payload (ent s2 p) = map_option payload (ent s p)" "caches s2 = caches s"
    using fr by (simp_all add: cache_frame_def)
  ultimately show ?thesis
    by (intro exI [of _ "ext_spin_unlock ?i ?s3"]) (simp add: ext_spin_unlock_def)
qed

text \<open>The first store into a fresh cache.\<close>

lemma first_store:
  assumes "small_store v d len" and "c \<noteq> NULL" and "t3 \<noteq> NULL" and "0 < n"
  shows "\<exists>s e. store_result v fp (Some d) len m (fresh_cache c t3 n) = Inr (0, s)
    \<and> one_entry (cpu v) (l2_index fp) (l3_index fp) (kzalloc_ret v) s
    \<and> ent s (kzalloc_ret v) = Some e \<and> fingerprint e = fp \<and> mm e = m
    \<and> expiry_jiffies e = jiffies v + msecs_to_jiffies v 1000
    \<and> (\<forall>i. \<not> ext_lock (tables s i)) \<and> (\<forall>i j. ext_slots (tables s i) j = NULL)
    \<and> rcu_pending s = [] \<and> caches s = c \<and> l3_tables s = t3 \<and> num_sockets s = n"
proof -
  let ?p = "kzalloc_ret v"
  let ?e = "(new_entry v fp m)\<lparr>result_union := inline_union (take (unat len) d),
    node_pprev := LFirst (L3Head 0 (l3_index fp))\<rparr>"
  let ?k = "\<lparr>head = ?p, lock = False\<rparr>" and ?f = "fresh_cache c t3 n"
  let ?s = "?f\<lparr>percpu := (percpu ?f)(cpu v := (percpu ?f (cpu v))\<lparr>l2 := (\<lambda>_. \<lparr>head = NULL, lock = False\<rparr>)(l2_index fp := ?k)\<rparr>),
    tables := (tables ?f)(0 := (tables ?f 0)\<lparr>buckets := (\<lambda>_. \<lparr>head = NULL, lock = False\<rparr>)(l3_index fp := ?k)\<rparr>),
    entries := [(?p, ?e)]\<rparr>"
  have st: "store_result v fp (Some d) len m ?f = Inr (0, ?s)"
    using assms by (simp add: kcr_eval small_store_def inline_union_def)
  have hd: "hfirst ?s h = (if h = L2Head (cpu v) (l2_index fp) \<or> h = L3Head 0 (l3_index fp) then ?p else NULL)"
    and lk: "\<not> lock (bucket_at ?s h)" for h
    by (cases h; simp add: hfirst_def fresh_cache_def)+
  have e: "ent ?s ?p = Some ?e" by (simp add: ent_def)
  have "hlist ?s (L3Head 0 (l3_index fp)) [?p]"
    unfolding hlist_def hd using assms(1) e by (simp add: small_store_def new_entry_def zero_entry_def)
  then have "one_entry (cpu v) (l2_index fp) (l3_index fp) ?p ?s"
    unfolding one_entry_def using hd lk assms(2) by (simp add: fresh_cache_def del: bucket_at.simps)
  with st e show ?thesis
    by (intro exI [of _ ?s] exI [of _ ?e]) (simp add: fresh_cache_def new_entry_def)
qed

text \<open>
  Invalidation does not reach a cached entry: a small result stored on CPU \<open>cpu v\<close> of node 0 is
  still returned by a lookup there after \<open>invalidate_range\<close> for its memory space has run, on
  whatever CPU and node it ran, as long as the entry is not expired. If the invalidation ran on
  the same node, the entry is also queued for freeing, and the same lookup after the grace period
  reads freed memory.
\<close>

lemma invalidated_entry_still_hits:
  assumes "small_store v d len" and "0 \<le> node w" and "cpu u = cpu v"
    and "time_before (jiffies u) (jiffies v + msecs_to_jiffies v 1000)"
    and "c \<noteq> NULL" and "t3 \<noteq> NULL" and "0 < n"
  shows "\<exists>s t. store_result v fp (Some d) len m (fresh_cache c t3 n) = Inr (0, s)
    \<and> invalidate_range w m a b s = Inr t
    \<and> (\<exists>t'. lookup_unified u fp m t = Inr (kzalloc_ret v, t'))
    \<and> (node w = 0 \<or> n \<le> node w \<longrightarrow> rbind (rcu_grace_period t) (lookup_unified u fp m) = Inl UseAfterFree)"
proof -
  let ?p = "kzalloc_ret v" and ?b2 = "l2_index fp"
  from first_store [OF assms(1,5-7), of fp m] obtain s e where
    s: "store_result v fp (Some d) len m (fresh_cache c t3 n) = Inr (0, s)"
    "one_entry (cpu v) ?b2 (l3_index fp) ?p s"
    and e: "ent s ?p = Some e" "fingerprint e = fp" "mm e = m"
      "expiry_jiffies e = jiffies v + msecs_to_jiffies v 1000"
    and st: "\<And>i. \<not> ext_lock (tables s i)" "\<And>i j. ext_slots (tables s i) j = NULL" "rcu_pending s = []"
      "caches s = c" "l3_tables s = t3" "num_sockets s = n" by blast
  have p: "?p \<noteq> NULL" using assms(1) by (simp add: small_store_def)
  have "l3_ready w s" using assms(2,6,7) by (simp add: l3_ready_def st)
  moreover have "belongs s m ?p" using e by (simp add: belongs_def)
  moreover have "?b2 < KCR_L2_ENTRIES" "l3_index fp < KCR_L3_ENTRIES"
    by (simp_all add: l2_index_def l3_index_def KCR_L2_ENTRIES_def KCR_L3_ENTRIES_def)
  ultimately have "\<exists>t. invalidate_range w m a b s = Inr t \<and> hfirst t (L2Head (cpu v) ?b2) = ?p
    \<and> map_option payload (ent t ?p) = map_option payload (ent s ?p) \<and> caches t = caches s
    \<and> (socket_of w s = 0 \<longrightarrow> rcu_pending t = [?p])"
    by (intro invalidate_one [OF s(2) _ _ _ st(1,2) _ st(3)])
  then obtain t where
    t: "invalidate_range w m a b s = Inr t" "hfirst t (L2Head (cpu v) ?b2) = ?p"
    "map_option payload (ent t ?p) = map_option payload (ent s ?p)" "caches t = c"
    "socket_of w s = 0 \<longrightarrow> rcu_pending t = [?p]"
    using st(4) by auto
  from t(3) e(1) obtain e' where e': "ent t ?p = Some e'" "payload e' = payload e" by auto
  have "live_match fp m (jiffies u) e'"
    using e assms(4) payload_eqD [OF e'(2)] by (simp add: live_match_def)
  then have "hlist_find (fuel t) (live_match fp m (jiffies u)) t ?p = Inr ?p"
    by (rule hlist_find_first [OF p e'(1)])
  then have "\<exists>t'. lookup_unified u fp m t = Inr (?p, t')"
    using p t(2,4) assms(3,5) by (simp add: lookup_unified_def lookup_l2_def)
  moreover have "rbind (rcu_grace_period t) (lookup_unified u fp m) = Inl UseAfterFree"
    if "node w = 0 \<or> n \<le> node w"
  proof -
    have "socket_of w s = 0" using that st(6) by (auto simp: socket_of_def)
    let ?g = "t\<lparr>rcu_pending := [], entries := AList.delete ?p (entries t)\<rparr>"
    have g: "rcu_grace_period t = Inr ?g"
      using t(5) \<open>socket_of w s = 0\<close> e'(1) p
      by (simp add: rcu_grace_period_def free_entry_rcu_def kfree_entry_def)
    have "bucket_at ?g (L2Head (cpu v) ?b2) = bucket_at t (L2Head (cpu v) ?b2)" by simp
    then have "hfirst ?g (L2Head (cpu v) ?b2) = ?p" using t(2) by (simp add: hfirst_def)
    moreover have "ent ?g ?p = None" by (simp add: ent_def delete_conv')
    ultimately have "hlist_find (fuel ?g) (live_match fp m (jiffies u)) ?g (hfirst ?g (L2Head (cpu v) ?b2))
        = Inl UseAfterFree"
      using p by (simp add: fuel_def get_ent_def)
    then show ?thesis
      using t(4) assms(3,5) by (simp add: g lookup_unified_def lookup_l2_def)
  qed
  ultimately show ?thesis using s(1) t(1) by auto
qed

text \<open>
  C17. The workload's condition on invalidations is necessary: after any run of it, invalidate a memory
  space that does have the newest entry of an L2 bucket of the CPU. The invalidation and the next
  grace period succeed, and then every lookup on that CPU in that bucket, of whatever fingerprint
  and memory space, reads freed memory.
\<close>

theorem invalidated_newest_faults:
  assumes "c \<noteq> NULL" and "t3 \<noteq> NULL" and "0 < n" and "0 \<le> node v" and "alias_free F"
    and "quiet v F rs (fresh_cache c t3 n)" and "perform_all rs (fresh_cache c t3 n) = Inr (ys, s)"
    and "same_cpu v w" and "belongs s m (hfirst s (L2Head (cpu v) (l2_index fp)))" and "cpu x = cpu v"
  shows "\<exists>t. perform_all [Invalidate w m l u, Grace] s = Inr ([Done, Freed], t)
    \<and> (\<forall>m'. perform (Lookup x fp m') t = Inl UseAfterFree)"
proof -
  let ?h = "L2Head (cpu v) (l2_index fp)"
  let ?q = "hfirst s ?h"
  from simulates_run [OF fresh_simulates [OF assms(1-4)] assms(5,6)] assms(7) obtain A where
    A: "coherent v F A s" "tidy v F A s" "slots_ok v s" by (auto simp: simulates_def)
  have w: "cpu w = cpu v" using assms(8) by (simp add: same_cpu_def)
  have Aw: "coherent w F A s" "tidy w F A s" "slots_ok w s"
    using A coherent_same_cpu [OF assms(8)] slots_ok_same_cpu [OF assms(8)]
    by (simp_all add: tidy_def same_cpu_heads [OF assms(8)])
  from invalidate_returns [OF Aw assms(5), of m l u] obtain s1 t where
    t: "invalidate_range w m l u s = Inr t" and fl: "flushed w F A m [0..<KCR_L2_ENTRIES] s s1"
    and vt: "ent t = ent s1" "hfirst t = hfirst s1" "rcu_pending t = rcu_pending s1" "caches t = caches s1"
    by blast
  note fr = flushedD(1) [OF fl]
  have "l2_index fp < KCR_L2_ENTRIES" by (simp add: l2_index_def KCR_L2_ENTRIES_def)
  from newest_is_queued [OF Aw(1,2) _ fl this] assms(9)
  have q: "?q \<in> set (rcu_pending t)" "?q \<noteq> NULL" by (simp_all add: w vt(3))
  let ?t = "t\<lparr>rcu_pending := []\<rparr>"
  have "p \<noteq> NULL \<and> ent ?t p \<noteq> None" if "p \<in> set (rcu_pending t)" for p
  proof -
    have "p \<in> set (rcu_pending s) \<or> (\<exists>b. p \<in> set (A b))" using that flushedD(7) [OF fl] vt(3) by auto
    then have "p \<noteq> NULL \<and> ent s p \<noteq> None"
      using coherentD(9) [OF A(1), of p] coherentD(7) [OF A(1), of p] twin_alloc [OF coherentD(5) [OF A(1)], of _ p]
      by fastforce
    then show ?thesis using cache_frame_dom [OF fr, of p] by (simp add: vt(1))
  qed
  from free_all [of "rcu_pending t" ?t, OF _ this] flushedD(6) [OF fl] obtain es where
    es: "rfold free_entry_rcu (rcu_pending t) ?t = Inr (?t\<lparr>entries := es\<rparr>)"
    "\<And>p. map_of es p = (if p \<in> set (rcu_pending t) then None else ent ?t p)" by (auto simp: vt(3))
  let ?u = "?t\<lparr>entries := es\<rparr>"
  have run: "perform_all [Invalidate w m l u, Grace] s = Inr ([Done, Freed], ?u)"
    using t es(1) by (simp add: rcu_grace_period_def)
  have "hfirst ?u ?h = hfirst t ?h" by (simp add: hfirst_def)
  also have "\<dots> = ?q" by (simp only: vt(2) flushedD(5) [OF fl])
  finally have hf: "hfirst ?u ?h = ?q" .
  have "ent ?u ?q = None" using q(1) by (simp add: ent_def es(2))
  then have "hlist_find (fuel ?u) (live_match fp m' (jiffies x)) ?u ?q = Inl UseAfterFree" for m'
    using q(2) by (simp add: fuel_def get_ent_def)
  moreover have "caches ?u \<noteq> NULL"
    using coherentD(1) [OF A(1)] frame_ready [OF fr, of v] by (simp add: l2_ready_def vt(4))
  ultimately have "perform (Lookup x fp m') ?u = Inl UseAfterFree" for m'
    using hf assms(10) by (simp add: lookup_unified_def lookup_l2_def)
  with run show ?thesis by blast
qed

section \<open>Instances\<close>

lemma ctx_small_store: "p \<noteq> NULL \<Longrightarrow> small_store (ctx c j p b) [7, 8] 2"
  by (simp add: small_store_def ctx_def)

theorem second_cpu_faults_witness:
  "perform_all [Store (ctx 0 100 32 0) 5 (Some [7, 8]) 2 4096, Store (ctx 1 110 48 0) 5 (Some [7, 8]) 2 4096,
     Store (ctx 0 120 64 0) 5 (Some [7, 8]) 2 4096] (fresh_cache 16 32 1) = Inl PoisonAccess"
  by (rule second_cpu_faults [THEN conjunct1])
    (simp_all add: ctx_small_store, simp_all add: ctx_def)

theorem promotion_empties_l3_witness:
  "\<exists>x. map_sum id fst (perform_all [Store (ctx 0 100 32 0) 5 (Some [7, 8]) 2 4096,
         Lookup (ctx 1 110 0 0) 5 4096, Lookup (ctx 2 120 0 0) 5 4096] (fresh_cache 16 32 1))
       = Inr [Code 0, Hit (Some (350, x)), Hit None]"
proof -
  have st: "small_store (ctx 0 100 32 0) [7, 8] 2" by (rule ctx_small_store) simp
  have "time_before 110 350" "time_before 120 350" by code_simp+
  with promotion_empties_l3 [OF st, of "ctx 1 110 0 0" "ctx 2 120 0 0" 16 32 1 5 4096]
  show ?thesis by (simp add: ctx_simps Let_def) (simp add: ctx_def)
qed

theorem list_cycle_endless_loop_witness:
  "\<exists>ys s. perform_all
     [Store (ctx 1 100 32 0) 64 (Some [7, 8]) 2 16, Store (ctx 0 100 48 0) 64 (Some [7, 8]) 2 32,
      Store (ctx 0 100 64 0) 512 (Some [7, 8]) 2 32, Store (ctx 1 100 80 0) 128 (Some [7, 8]) 2 16,
      Lookup (ctx 0 100 0 0) 64 16, Store (ctx 0 100 96 0) 64 (Some [7, 8]) 2 32] (fresh_cache 16 32 1) = Inr (ys, s)
    \<and> lookup_unified (ctx 1 100 0 0) 512 16 s = Inl EndlessLoop"
proof -
  have st: "small_store (ctx c 100 p 0) [7, 8] 2" if "p \<noteq> NULL" for c p by (rule ctx_small_store [OF that])
  have t: "time_before (jiffies (ctx 0 100 0 0)) (jiffies (ctx 1 100 32 0) + msecs_to_jiffies (ctx 1 100 32 0) 1000)"
    by code_simp
  have i: "l2_index 512 = l2_index 64" "l2_index 128 = l2_index 64" "distinct [l3_index 64, l3_index 512, l3_index 128]"
    by code_simp+
  have s: "small_store (ctx 1 100 32 0) [7, 8] 2" "small_store (ctx 0 100 48 0) [7, 8] 2"
    "small_store (ctx 0 100 64 0) [7, 8] 2" "small_store (ctx 1 100 80 0) [7, 8] 2"
    "small_store (ctx 0 100 96 0) [7, 8] 2" by (rule st; simp)+
  have kz: "kzalloc_ret (ctx c j p b) = p" for c j p b by (simp add: ctx_def)
  from list_cycle_endless_loop [OF s, of "ctx 1 100 0 0" "ctx 0 100 0 0" 512 64 128 32 16 16 32 1] i t
  show ?thesis by (simp add: ctx_simps kz del: perform_all.simps) blast
qed

theorem shared_l2_bucket_double_free_witness:
  "perform_all [Store (ctx 0 100 32 0) 0 (Some [7, 8]) 2 4096, Store (ctx 0 110 48 0) 64 (Some [7, 8]) 2 4096,
     Store (ctx 0 120 64 0) 0 (Some [7, 8]) 2 4096, Store (ctx 0 130 80 0) 0 (Some [7, 8]) 2 4096, Grace]
     (fresh_cache 16 32 1) = Inl DoubleFree"
  by (rule shared_l2_bucket_double_free)
    (simp_all add: ctx_small_store, simp_all add: index_eval)

theorem invalidated_newest_faults_witness:
  "\<exists>ys s t. perform_all [Store (ctx 0 100 8192 0) 5 (Some [7, 8]) 2 4096] (fresh_cache 16 32 1) = Inr (ys, s)
     \<and> perform_all [Invalidate (ctx 0 110 0 0) 4096 0 0, Grace] s = Inr ([Done, Freed], t)
     \<and> perform (Lookup (ctx 0 120 0 0) 5 16) t = Inl UseAfterFree"
proof -
  let ?rs = "[Store (ctx 0 100 8192 0) 5 (Some [7, 8]) 2 4096]"
  have "\<exists>ys s. perform_all ?rs (fresh_cache 16 32 1) = Inr (ys, s)
      \<and> belongs s 4096 (hfirst s (L2Head 0 (l2_index 5)))"
    by (simp add: kcr_eval index_eval belongs_def)
  then obtain ys s where s: "perform_all ?rs (fresh_cache 16 32 1) = Inr (ys, s)"
    "belongs s 4096 (hfirst s (L2Head 0 (l2_index 5)))" by blast
  have q: "quiet (ctx 0 0 0 0) {5} ?rs (fresh_cache 16 32 1)"
    by (simp add: kcr_eval index_eval same_cpu_def)
  have F: "alias_free {5}" by (simp add: alias_free_def)
  have "same_cpu (ctx 0 0 0 0) (ctx 0 110 0 0)" by (simp add: same_cpu_def ctx_def)
  from invalidated_newest_faults [OF _ _ _ _ F q s(1) this, of 4096 5 "ctx 0 120 0 0" 0 0] s
  show ?thesis by (auto simp: ctx_simps)
qed

end
