(* ===== verification/Cache_Entries.thy ===== *)
theory Cache_Entries
  imports KCR_Lifecycle Cache_Faults
begin

text \<open>
  What holds of every entry in every state the cache operations can reach, on any number of CPUs
  and whatever happened to the lists: the type invariant of \<open>struct kcr_entry\<close>. With it the hit
  path composes: what \<open>lookup_unified\<close> returns is accepted by \<open>validate_entry\<close> and can be injected.
\<close>

section \<open>Properties of all entries\<close>

definition all_entries :: "(kcr_entry \<Rightarrow> bool) \<Rightarrow> cache_state \<Rightarrow> bool" where
  "all_entries P s \<longleftrightarrow> (\<forall>p e. ent s p = Some e \<longrightarrow> P e)"

lemma all_entries_fresh: "all_entries P (fresh_cache c t3 n)"
  by (simp add: all_entries_def fresh_cache_def ent_def)

text \<open>
  A property of entries that does not mention the list links. No operation writes anything but the
  links of an entry after \<open>store_result\<close> has filled it in, so such a property holds of all entries
  once it holds of those that are stored.
\<close>

locale entry_property =
  fixes P :: "kcr_entry \<Rightarrow> bool"
  assumes payload_only: "payload e = payload e' \<Longrightarrow> P e \<Longrightarrow> P e'"
begin

lemma holds_frame:
  assumes "cache_frame s t" and "all_entries P s"
  shows "all_entries P t"
  unfolding all_entries_def
proof (intro allI impI)
  fix p e assume e: "ent t p = Some e"
  then have "ent s p \<noteq> None" using cache_frame_dom [OF assms(1), of p] by auto
  then obtain e0 where e0: "ent s p = Some e0" by auto
  from cache_frame_ent [OF assms(1) e0] obtain e' where "ent t p = Some e'" "payload e' = payload e0"
    by blast
  with e have "payload e0 = payload e" by simp
  moreover have "P e0" using e0 assms(2) unfolding all_entries_def by blast
  ultimately show "P e" by (rule payload_only)
qed

lemma holds_subset:
  "all_entries P s \<Longrightarrow> (\<And>q. ent t q = None \<or> ent t q = ent s q) \<Longrightarrow> all_entries P t"
  by (metis all_entries_def option.distinct(1))

lemma holds_store:
  assumes "store_result v fp data len m s = Inr (r, t)" and "all_entries P s"
    and "\<And>d. data = Some d \<Longrightarrow> r = 0 \<Longrightarrow> P ((new_entry v fp m)\<lparr>result_union := stored_union v d len\<rparr>)"
  shows "all_entries P t"
  using assms(1)
proof (cases rule: store_result_cases)
  case no_slot
  then have "ent t q = None \<or> ent t q = ent s q" for q
    by (auto simp: kfree_entry_def ent_def put_ent_def update_conv' delete_conv' split: if_splits)
  with assms(2) show ?thesis by (rule holds_subset)
next
  case (stored d s1 s2)
  then have "ent s1 = (ent s)(kzalloc_ret v \<mapsto> (new_entry v fp m)\<lparr>result_union := stored_union v d len\<rparr>)"
    unfolding placed_def by blast
  then have "all_entries P s1"
    using assms(2) assms(3) [OF stored(1,4)] unfolding all_entries_def
    by (metis fun_upd_apply option.inject)
  with stored(6,7) show ?thesis by (metis holds_frame store_in_l2_frame store_in_l3_frame)
qed (use assms(2) in simp_all)

lemma holds_invalidate:
  assumes "invalidate_range v m a b s = Inr t" and "all_entries P s"
  shows "all_entries P t"
  using assms(1)
proof (rule invalidate_range_lists)
  fix s2 assume fr: "cache_frame s s2" and t: "ent t = ent s2"
  from fr assms(2) have "all_entries P s2" by (rule holds_frame)
  with t show ?thesis by (simp add: all_entries_def)
qed

lemma holds_free:
  "rfold free_entry_rcu ps u = Inr t \<Longrightarrow> all_entries P u \<Longrightarrow> all_entries P t"
proof (induction ps arbitrary: u)
  case (Cons p ps)
  from Cons.prems(1) obtain w where w: "free_entry_rcu p u = Inr w" "rfold free_entry_rcu ps w = Inr t"
    by (auto simp: rbind_Inr_iff)
  have "ent w q = None \<or> ent w q = ent u q" for q
    using w(1) by (auto simp: free_entry_rcu_def kfree_entry_def ent_def delete_conv' split: if_splits)
  from Cons.IH [OF w(2) holds_subset [OF Cons.prems(2) this]] show ?case .
qed simp

lemma holds_grace: "rcu_grace_period s = Inr t \<Longrightarrow> all_entries P s \<Longrightarrow> all_entries P t"
  using holds_free [of "rcu_pending s" "s\<lparr>rcu_pending := []\<rparr>" t]
  by (simp add: rcu_grace_period_def all_entries_def)

lemma holds_perform:
  assumes "perform r s = Inr (y, t)" and "all_entries P s"
    and "\<And>v fp d len m. r = Store v fp (Some d) len m \<Longrightarrow> y = Code 0 \<Longrightarrow>
      P ((new_entry v fp m)\<lparr>result_union := stored_union v d len\<rparr>)"
  shows "all_entries P t"
proof (cases r)
  case (Lookup w fp m)
  with assms(1) obtain p where "lookup_unified w fp m s = Inr (p, t)" by (auto simp: rbind_Inr_iff)
  with assms(2) show ?thesis using holds_frame lookup_unified_frame(1) by blast
next
  case (Store w fp data len m)
  with assms(1) obtain x where x: "store_result w fp data len m s = Inr (x, t)" "y = Code x"
    by (auto simp: rbind_Inr_iff)
  show ?thesis by (rule holds_store [OF x(1) assms(2)]) (use assms(3) Store x(2) in simp)
qed (use assms in \<open>auto simp: rbind_Inr_iff intro: holds_invalidate holds_grace\<close>)

end

section \<open>Well-formed entries\<close>

definition entry_ok :: "kcr_entry \<Rightarrow> bool" where
  "entry_ok e \<longleftrightarrow> mm_generation e = mm e \<and> eflags e = KCR_FLAG_VALID \<and> register_mask e = KCR_MASK_RAX
     \<and> fragment_length e = 0 \<and> hit_count e = 0 \<and> length (result_union e) = 64"

interpretation ok: entry_property entry_ok
proof
  fix e e' assume "payload e = payload e'" "entry_ok e"
  then show "entry_ok e'" using payload_eqD [of e e'] by (simp add: entry_ok_def)
qed

lemma entry_ok_stored: "entry_ok ((new_entry v fp m)\<lparr>result_union := stored_union v d len\<rparr>)"
  by (auto simp: entry_ok_def new_entry_def stored_union_def external_union_def inline_union_bytes
      KCR_RESULT_SIZE_MAX_def)

lemma cache_op_perform: "cache_op s t \<Longrightarrow> \<exists>r y. perform r s = Inr (y, t)"
proof (induction rule: cache_op.induct)
  case (op_lookup v fp m s p t)
  then show ?case by (intro exI [of _ "Lookup v fp m"]) simp
next
  case (op_store v fp data len m s r t)
  then show ?case by (intro exI [of _ "Store v fp data len m"]) simp
next
  case (op_invalidate v m a b s t)
  then show ?case by (intro exI [of _ "Invalidate v m a b"]) simp
next
  case (op_grace s t)
  then show ?case by (intro exI [of _ Grace]) simp
qed

lemma entries_ok_op: "cache_op s t \<Longrightarrow> all_entries entry_ok s \<Longrightarrow> all_entries entry_ok t"
  by (metis cache_op_perform ok.holds_perform entry_ok_stored)

inductive cache_reach :: "cache_state \<Rightarrow> bool" where
  init: "cache_reach (fresh_cache c t3 n)"
| step: "cache_reach s \<Longrightarrow> cache_op s t \<Longrightarrow> cache_reach t"

lemma reach_entries_ok: "cache_reach s \<Longrightarrow> all_entries entry_ok s"
  by (induction rule: cache_reach.induct) (simp_all add: all_entries_fresh entries_ok_op)

section \<open>Properties\<close>

text \<open>
  C20. The type invariant of entries: in every state reached from a fresh cache by lookups, stores,
  invalidations and grace periods, on any CPUs and in any order, every allocated entry carries the
  VALID flag and the RAX mask, its generation equals its memory space pointer, its fragment length
  and hit count are 0, and its result area is 64 bytes.
\<close>

theorem entries_invariant:
  assumes "cache_reach s" and "ent s p = Some e"
  shows "entry_ok e"
  using reach_entries_ok [OF assms(1)] assms(2) by (simp add: all_entries_def)

lemma before_or_at_iff:
  "\<not> time_after j x \<longleftrightarrow> j - x \<noteq> 2 ^ 63 \<and> (time_before j x \<or> j = x)"
proof -
  let ?d = "j - x"
  show ?thesis
  proof
    assume "\<not> time_after j x"
    then have lt: "unat (- ?d) < 2 ^ 63" by (simp add: time_after_iff)
    have "?d \<noteq> 2 ^ 63"
    proof
      assume "?d = 2 ^ 63"
      with lt have "unat (- (2 ^ 63 :: u64)) < 2 ^ 63" by (simp only:)
      then show False by simp
    qed
    moreover have "time_before j x \<or> j = x"
    proof (cases "?d = 0")
      case False
      with lt have "2 ^ 63 < unat ?d" using unat_uminus [of ?d] by simp
      then show ?thesis by (simp add: time_before_iff)
    qed simp
    ultimately show "?d \<noteq> 2 ^ 63 \<and> (time_before j x \<or> j = x)" by blast
  next
    assume "?d \<noteq> 2 ^ 63 \<and> (time_before j x \<or> j = x)"
    then show "\<not> time_after j x" using time_before_not_after by (auto simp: time_after_iff)
  qed
qed

text \<open>
  C37. The window of validation: for an entry of a reachable state, \<open>validate_entry\<close> accepts exactly when
  the memory space is not NULL and matches and the clock is before the expiry, as the lookup demands, or
  exactly at it; at half the range of the clock from the expiry, where the lookup accepts, it rejects.
  No entry at all is rejected.
\<close>

theorem validation_window:
  assumes "cache_reach s" and "ent s p = Some e"
  shows "\<not> validate_entry j None m
    \<and> (validate_entry j (Some e) m \<longleftrightarrow> m \<noteq> NULL \<and> j - expiry_jiffies e \<noteq> 2 ^ 63
        \<and> (live_match (fingerprint e) m j e \<or> mm e = m \<and> j = expiry_jiffies e))"
proof -
  have "mm_generation e = mm e"
    using reach_entries_ok [OF assms(1)] assms(2) by (auto simp: all_entries_def entry_ok_def)
  then show ?thesis
    using before_or_at_iff [of j "expiry_jiffies e"] by (auto simp: validate_entry_def live_match_def)
qed

text \<open>
  The hit path composes: in every reachable state, an entry that a lookup for \<open>m\<close> returns is
  accepted by \<open>validate_entry\<close> for \<open>m\<close> at the same jiffies, unless \<open>m\<close> is NULL or the expiry is exactly half
  the counter's range away, when the lookup returns it and \<open>validate_entry\<close> rejects it; and injecting it
  sets RAX to the first 8 bytes of its result area and changes no other register.
\<close>

lemma lookup_hit_validates_and_injects:
  assumes "cache_reach s" and "lookup_unified v fp m s = Inr (p, t)" and "p \<noteq> NULL"
  shows "\<exists>e. ent t p = Some e
    \<and> (validate_entry (jiffies v) (Some e) m \<longleftrightarrow> m \<noteq> NULL \<and> jiffies v - expiry_jiffies e \<noteq> 2 ^ 63)
    \<and> inject_result (Some r) (Some e) = Inr (Some (r\<lparr>ax := result e 0\<rparr>))"
proof -
  have "\<exists>e. ent s p = Some e \<and> live_match fp m (jiffies v) e"
    by (rule lookup_hit_live [OF assms(2,3)])
  then obtain e0 where e0: "ent s p = Some e0" "live_match fp m (jiffies v) e0" by blast
  from cache_frame_ent [OF lookup_unified_frame(1) [OF assms(2)] e0(1)] obtain e where
    e: "ent t p = Some e" "payload e = payload e0" by blast
  have "cache_reach t" using assms(1) op_lookup [OF assms(2)] by (rule cache_reach.step)
  from reach_entries_ok [OF this] e(1) have ok: "entry_ok e" by (simp add: all_entries_def)
  have l: "mm e = m" "time_before (jiffies v) (expiry_jiffies e)"
    using e0(2) payload_eqD [OF e(2)] by (simp_all add: live_match_def)
  have "validate_entry (jiffies v) (Some e) m \<longleftrightarrow> m \<noteq> NULL \<and> jiffies v - expiry_jiffies e \<noteq> 2 ^ 63"
    using l ok before_or_at_iff [of "jiffies v" "expiry_jiffies e"]
    by (auto simp: validate_entry_def entry_ok_def)
  moreover have "inject_result (Some r) (Some e) = Inr (Some (r\<lparr>ax := result e 0\<rparr>))"
    using ok by (simp add: inject_result_def entry_ok_def mask_defs Let_def)
  ultimately show ?thesis using e(1) by blast
qed

section \<open>Instances\<close>

text \<open>A store on CPU 0, an invalidation of another memory space on CPU 1.\<close>

lemma demo_reach:
  obtains s e where "cache_reach s" "ent s 8192 = Some e" "mm e = 4096" "expiry_jiffies e = 350"
    "\<exists>t. lookup_unified (ctx 0 120 0 0) 5 4096 s = Inr (8192, t)"
proof -
  let ?v = "ctx 0 100 8192 0" and ?w = "ctx 0 120 0 0"
  have "small_store ?v [7, 8] 2" by (rule ctx_small_store) simp
  from first_store [OF this, of 16 32 1 5 4096] obtain s e where
    s: "store_result ?v 5 (Some [7, 8]) 2 4096 (fresh_cache 16 32 1) = Inr (0, s)"
    and one: "one_entry 0 (l2_index 5) (l3_index 5) 8192 s"
    and e: "ent s 8192 = Some e" "fingerprint e = 5" "mm e = 4096" "expiry_jiffies e = 350"
    by (auto simp: ctx_def)
  have reach: "cache_reach s" by (rule cache_reach.step [OF cache_reach.init op_store [OF s]])
  have "time_before 120 350" by code_simp
  then have "live_match 5 4096 (jiffies ?w) e" using e by (simp add: live_match_def ctx_def)
  then have "hlist_find (fuel s) (live_match 5 4096 (jiffies ?w)) s 8192 = Inr 8192"
    using e(1) by (intro hlist_find_first) simp_all
  then have "\<exists>t. lookup_unified ?w 5 4096 s = Inr (8192, t)"
    using one by (simp add: one_entry_def lookup_unified_def lookup_l2_def) (simp add: ctx_def)
  with reach e that show thesis by blast
qed

theorem entries_invariant_witness:
  "\<exists>s e. cache_reach s \<and> ent s 8192 = Some e \<and> entry_ok e"
proof -
  obtain s e where s: "cache_reach s" "ent s 8192 = Some e" using demo_reach by metis
  from entries_invariant [OF s] s show ?thesis by blast
qed

theorem validation_window_witness:
  "\<exists>s e. cache_reach s \<and> ent s 8192 = Some e \<and> validate_entry 350 (Some e) 4096
     \<and> \<not> validate_entry 351 (Some e) 4096 \<and> \<not> validate_entry 120 (Some e) NULL"
proof -
  obtain s e where s: "cache_reach s" "ent s 8192 = Some e" "mm e = 4096" "expiry_jiffies e = 350"
    using demo_reach by metis
  have "\<not> time_before 351 350" by code_simp
  with validation_window [OF s(1,2), of 350 4096] validation_window [OF s(1,2), of 351 4096]
    validation_window [OF s(1,2), of 120 NULL] s
  show ?thesis by (auto simp: live_match_def)
qed

end
