(* ===== verification/Cache_Closed.thy ===== *)
theory Cache_Closed
  imports Cache_Entries
begin

text \<open>
  No pointer of the cache leads to freed memory: every bucket head and every \<open>next\<close> link of an
  allocated entry is NULL or the address of an allocated entry. Every operation keeps this, in any
  state and on any CPU, because links are only overwritten with links; only the end of a grace
  period can break it, when it frees an entry that is still linked somewhere.
\<close>

section \<open>No list leads to freed memory\<close>

definition links_closed :: "cache_state \<Rightarrow> bool" where
  "links_closed s \<longleftrightarrow> (\<forall>h. ptr_ok s (hfirst s h))
     \<and> (\<forall>p e. ent s p = Some e \<longrightarrow> ptr_ok s (node_next e))"

lemma closedD:
  assumes "links_closed s"
  shows "ptr_ok s (hfirst s h)" "ent s p = Some e \<Longrightarrow> ptr_ok s (node_next e)"
  using assms by (auto simp: links_closed_def)

lemma ptr_ok_NULL [simp]: "ptr_ok s NULL"
  by (simp add: ptr_ok_def)

lemma ptr_ok_frame: "cache_frame s t \<Longrightarrow> ptr_ok t p = ptr_ok s p"
  using cache_frame_dom [of s t p] by (simp add: ptr_ok_def)

lemma closed_views:
  "ent t = ent s \<Longrightarrow> hfirst t = hfirst s \<Longrightarrow> links_closed t = links_closed s"
  by (simp add: links_closed_def ptr_ok_def)

lemma closed_simps [simp]:
  "links_closed (spin_unlock h s) = links_closed s"
  "links_closed (upd_stats c f s) = links_closed s"
  "links_closed (s\<lparr>rcu_pending := ps\<rparr>) = links_closed s"
  "links_closed (put_bucket h ((bucket_at s h)\<lparr>lock := b\<rparr>) s) = links_closed s"
  by (rule closed_views; simp)+

lemma closed_put_ent:
  assumes "links_closed s" and "ptr_ok s (node_next e)"
  shows "links_closed (put_ent p e s)"
  using assms by (auto simp: links_closed_def ptr_ok_def)

lemma closed_set_pprev:
  assumes "set_pprev p l s = Inr t" and "links_closed s"
  shows "links_closed t"
proof -
  from assms(1) obtain e where "ent s p = Some e" "t = put_ent p (e\<lparr>node_pprev := l\<rparr>) s"
    by (auto simp: set_pprev_def res_simps)
  with assms(2) show ?thesis by (auto intro!: closed_put_ent dest: closedD)
qed

lemma closed_set_next: "set_next p v s = Inr t \<Longrightarrow> ptr_ok s v \<Longrightarrow> links_closed s \<Longrightarrow> links_closed t"
  by (auto simp: set_next_def res_simps intro!: closed_put_ent)

lemma closed_set_first: "ptr_ok s p \<Longrightarrow> links_closed s \<Longrightarrow> links_closed (set_first h p s)"
  by (auto simp: links_closed_def ptr_ok_def frame_simps)

lemma closed_write_link: "write_link l v s = Inr t \<Longrightarrow> ptr_ok s v \<Longrightarrow> links_closed s \<Longrightarrow> links_closed t"
  by (cases l) (auto simp: res_simps intro!: closed_put_ent closed_set_first)

lemma closed_del:
  assumes "hlist_del_rcu n s = Inr t" and "links_closed s"
  shows "links_closed t"
proof -
  from assms(1) obtain e s1 s2 where e: "ent s n = Some e"
    and s1: "write_link (node_pprev e) (node_next e) s = Inr s1"
    and s2: "(if node_next e \<noteq> NULL then set_pprev (node_next e) (node_pprev e) s1 else Inr s1) = Inr s2"
    and t: "set_pprev n LPoison2 s2 = Inr t"
    by (auto simp: hlist_del_rcu_def rbind_Inr_iff get_ent_Inr)
  have "links_closed s1" by (rule closed_write_link [OF s1 closedD(2) [OF assms(2) e] assms(2)])
  then have "links_closed s2" using s2 by (auto split: if_splits dest: closed_set_pprev)
  with t show ?thesis by (rule closed_set_pprev)
qed

lemma closed_add:
  assumes "hlist_add_head_rcu n h s = Inr t" and "links_closed s"
  shows "links_closed t"
proof -
  let ?f = "hfirst s h"
  from assms(1) obtain s1 s2 where s1: "set_next n ?f s = Inr s1" and s2: "set_pprev n (LFirst h) s1 = Inr s2"
    and t: "(if ?f \<noteq> NULL then set_pprev ?f (LNext n) (set_first h n s2) else Inr (set_first h n s2)) = Inr t"
    by (auto simp: hlist_add_head_rcu_def Let_def rbind_Inr_iff)
  have "links_closed s1" by (rule closed_set_next [OF s1 closedD(1) [OF assms(2)] assms(2)])
  with s2 have "links_closed s2" by (rule closed_set_pprev)
  moreover have "ptr_ok s2 n" using s2 by (auto simp: set_pprev_def res_simps ptr_ok_def)
  ultimately have "links_closed (set_first h n s2)" by (intro closed_set_first)
  with t show ?thesis by (auto split: if_splits dest: closed_set_pprev)
qed

section \<open>The operations keep the links closed\<close>

lemma closed_lock: "spin_lock h s = Inr t \<Longrightarrow> links_closed s \<Longrightarrow> links_closed t"
  by (auto simp: spin_lock_Inr simp del: put_bucket.simps)

lemma closed_promote:
  assumes "promote_to_l2 c p fp s = Inr t" and "links_closed s"
  shows "links_closed t"
proof -
  let ?h = "L2Head c (l2_index fp)"
  from assms(1) obtain s1 s2 s3 where "spin_lock ?h s = Inr s1" "hlist_del_rcu p s1 = Inr s2"
    "hlist_add_head_rcu p ?h s2 = Inr s3" "t = spin_unlock ?h s3"
    by (auto simp: promote_to_l2_def Let_def rbind_Inr_iff)
  with assms(2) show ?thesis by (metis closed_lock closed_del closed_add closed_simps(1))
qed

lemma closed_lookup:
  assumes "lookup_unified v fp m s = Inr (p, t)" and "links_closed s"
  shows "links_closed t"
  using assms
  by (cases rule: lookup_unified_cases) (auto dest!: lookup_l2_Inr dest: closed_promote split: if_splits)

lemma closed_replace:
  assumes "replace_in_bucket h p fp s = Inr t" and "links_closed s"
  shows "links_closed t"
proof -
  from assms(1) obtain s1 e old s2 s3 where s1: "spin_lock h s = Inr s1"
    and s2: "(if old \<noteq> NULL then rbind (hlist_del_rcu old s1) (call_rcu old) else Inr s1) = Inr s2"
    and s3: "hlist_add_head_rcu p h s2 = Inr s3" "t = spin_unlock h s3"
    by (auto simp: replace_in_bucket_def rbind_Inr_iff)
  have "links_closed s1" using s1 assms(2) by (rule closed_lock)
  with s2 have "links_closed s2"
    by (auto simp: rbind_Inr_iff call_rcu_Inr split: if_splits dest: closed_del)
  with s3 show ?thesis by (auto dest: closed_add)
qed

lemma closed_store:
  assumes "store_result v fp data len m s = Inr (r, t)" and "links_closed s"
    and new: "ent s (kzalloc_ret v) = None"
  shows "links_closed t"
  using assms(1)
proof (cases rule: store_result_cases)
  case no_slot
  have "kfree_entry (kzalloc_ret v) (put_ent (kzalloc_ret v) (new_entry v fp m) s) = Inr s"
    using no_slot(3) new by (rule kfree_new)
  with no_slot assms(2) show ?thesis by simp
next
  case (stored d s1 s2)
  let ?p = "kzalloc_ret v" and ?e = "(new_entry v fp m)\<lparr>result_union := stored_union v d len\<rparr>"
  have "ent s1 = ent (put_ent ?p ?e s)" "hfirst s1 = hfirst (put_ent ?p ?e s)"
    using stored(5) by (simp_all add: placed_def)
  then have "links_closed s1 = links_closed (put_ent ?p ?e s)" by (rule closed_views)
  then have "links_closed s1"
    using closed_put_ent [OF assms(2), of ?e ?p] by (simp add: new_entry_def zero_entry_def)
  then show ?thesis
    using stored(6,7) by (auto simp: rbind_Inr_iff store_in_l2_def store_in_l3_def split: if_splits
        dest!: closed_replace)
qed (use assms(2) in simp_all)

lemma closed_flush:
  assumes f: "\<And>s. links_closed (f s) = links_closed s"
  shows "hlist_flush k m f p s = Inr t \<Longrightarrow> links_closed s \<Longrightarrow> links_closed t"
proof (induction k arbitrary: p s)
  case (Suc k)
  show ?case
  proof (cases "p = NULL")
    case False
    with Suc.prems(1) obtain e :: kcr_entry and s1 where
      s1: "(if mm e = m then rbind (hlist_del_rcu p s) (\<lambda>s. rbind (call_rcu p s) (\<lambda>s. Inr (f s)))
        else Inr s) = Inr s1" and t: "hlist_flush k m f (node_next e) s1 = Inr t"
      by (auto simp: rbind_Inr_iff Let_def)
    have "links_closed s1"
      using s1 Suc.prems(2) by (auto simp: f rbind_Inr_iff call_rcu_Inr split: if_splits dest: closed_del)
    with t show ?thesis by (rule Suc.IH)
  qed (use Suc in simp)
qed simp

lemma closed_flush_bucket:
  assumes f: "\<And>s. links_closed (f s) = links_closed s"
    and "flush_bucket m f h s = Inr t" and "links_closed s"
  shows "links_closed t"
proof -
  from assms(2) obtain s1 s2 where "spin_lock h s = Inr s1"
    "hlist_flush (fuel s1 * fuel s1) m f (hfirst s1 h) s1 = Inr s2" "t = spin_unlock h s2"
    by (auto simp: flush_bucket_def rbind_Inr_iff)
  with assms(3) show ?thesis by (metis closed_lock closed_flush [OF f] closed_simps(1))
qed

lemma closed_invalidate:
  assumes "invalidate_range v m a b s = Inr t" and "links_closed s"
  shows "links_closed t"
proof -
  have flush: "links_closed u" if "rfold (\<lambda>b. flush_bucket m f (g b)) bs s = Inr u" "links_closed s"
    "\<And>s. links_closed (f s) = links_closed s" for f g bs s u
    by (rule rfold_invariant [where I = links_closed, OF that(1,2)]) (rule closed_flush_bucket [OF that(3)])
  from assms(1) show ?thesis
  proof (rule invalidate_range_lists)
    fix s1 s2 i
    assume s1: "rfold (\<lambda>b. flush_bucket m (count_invalidation (cpu v)) (L2Head (cpu v) b)) [0..<KCR_L2_ENTRIES] s
      = Inr s1"
      and s2: "rfold (\<lambda>b. flush_bucket m id (L3Head i b)) [0..<KCR_L3_ENTRIES] s1 = Inr s2"
      and t: "ent t = ent s2" "hfirst t = hfirst s2"
    have "links_closed s2"
      by (rule flush [OF s2 flush [OF s1 assms(2)]]) (simp_all add: count_invalidation_def)
    with closed_views [OF t] show ?thesis by simp
  qed
qed

end
