(* ===== verification/Cache_History.thy ===== *)
theory Cache_History
  imports Cache_Entries
begin

text \<open>
  Where a cached result comes from, over any run of the cache: any CPUs, any nodes, invalidations
  and grace periods included, whatever has happened to the lists.
\<close>

section \<open>The log of a run\<close>

text \<open>
  \<open>recorded_in log e\<close>: what the entry \<open>e\<close> holds is what a successful store in the log, of the key
  of \<open>e\<close>, has put into it.
\<close>

definition recorded_in :: "(request \<times> reply) list \<Rightarrow> kcr_entry \<Rightarrow> bool" where
  "recorded_in log e \<longleftrightarrow> (\<exists>v d len. (Store v (fingerprint e) (Some d) len (mm e), Code 0) \<in> set log
     \<and> expiry_jiffies e = jiffies v + msecs_to_jiffies v 1000 \<and> result_union e = stored_union v d len)"

interpretation recorded: entry_property "recorded_in log" for log
proof
  fix e e' assume "payload e = payload e'" "recorded_in log e"
  then show "recorded_in log e'" using payload_eqD [of e e'] by (simp add: recorded_in_def)
qed

lemma recorded_new:
  "(Store v fp (Some d) len m, Code 0) \<in> set log \<Longrightarrow>
    recorded_in log ((new_entry v fp m)\<lparr>result_union := stored_union v d len\<rparr>)"
  by (auto simp: recorded_in_def new_entry_def)

lemma run_recorded:
  "perform_all rs s = Inr (ys, t) \<Longrightarrow> set (zip rs ys) \<subseteq> set log \<Longrightarrow> all_entries (recorded_in log) s \<Longrightarrow>
    all_entries (recorded_in log) t"
proof (induction rs arbitrary: s ys)
  case (Cons r rs)
  from Cons.prems(1) obtain y zs u where
    u: "perform r s = Inr (y, u)" "perform_all rs u = Inr (zs, t)" and ys: "ys = y # zs"
    by (auto simp: rbind_Inr_iff)
  from Cons.prems(2) have "(r, y) \<in> set log" "set (zip rs zs) \<subseteq> set log" by (auto simp: ys)
  then show ?case
    by (intro Cons.IH [OF u(2)] recorded.holds_perform [OF u(1) Cons.prems(3)]) (auto intro: recorded_new)
qed simp

text \<open>
  C7. No result is made up and none crosses keys: in every run that does not fault, from a cache
  just initialised, with any CPUs, nodes, invalidations and grace periods, a lookup that hits
  returns the expiry and the bytes that an earlier store of exactly this fingerprint and memory
  space, which returned 0, put into its entry, and the clock has not reached that expiry.
\<close>

theorem hit_was_stored:
  assumes "perform_all (rs @ [Lookup w fp m]) (fresh_cache c t3 n) = Inr (ys, t)"
    and "last ys = Hit (Some (x, u))"
  shows "\<exists>i<length rs. \<exists>v d len. rs ! i = Store v fp (Some d) len m \<and> ys ! i = Code 0
    \<and> x = jiffies v + msecs_to_jiffies v 1000 \<and> u = stored_union v d len \<and> time_before (jiffies w) x"
proof -
  from assms(1) obtain zs s p where run: "perform_all rs (fresh_cache c t3 n) = Inr (zs, s)"
    and l: "lookup_unified w fp m s = Inr (p, t)" and ys: "ys = zs @ [Hit (read_reply t p)]"
    by (auto simp: perform_all_snoc rbind_Inr_iff)
  from assms(2) have rd: "read_reply t p = Some (x, u)" by (simp add: ys)
  then have p: "p \<noteq> NULL" by (auto simp: read_reply_def)
  from lookup_hit_live [OF l p] obtain e where e: "ent s p = Some e" "live_match fp m (jiffies w) e"
    by blast
  from cache_frame_ent [OF lookup_unified_frame(1) [OF l] e(1)] obtain e' where
    e': "ent t p = Some e'" "payload e' = payload e" by blast
  from e' rd p have x: "x = expiry_jiffies e" and u: "u = result_union e"
    using payload_eqD [OF e'(2)] by (simp_all add: read_reply_def)
  from run_recorded [OF run subset_refl all_entries_fresh] e(1) have "recorded_in (zip rs zs) e"
    by (simp add: all_entries_def)
  with e(2) obtain v d len where in_log: "(Store v fp (Some d) len m, Code 0) \<in> set (zip rs zs)"
    and v: "expiry_jiffies e = jiffies v + msecs_to_jiffies v 1000" "result_union e = stored_union v d len"
    by (auto simp: recorded_in_def live_match_def)
  from in_log obtain i where i: "i < length rs" "rs ! i = Store v fp (Some d) len m" "zs ! i = Code 0"
    using perform_all_length [OF run] by (auto simp: in_set_zip)
  have "ys ! i = Code 0" using i perform_all_length [OF run] by (simp add: ys nth_append)
  moreover have "time_before (jiffies w) x" using e(2) x by (simp add: live_match_def)
  ultimately show ?thesis using i(1,2) v x u by blast
qed

text \<open>Two CPUs and two memory spaces with the same fingerprint: the hit on CPU 0 is the first store's.\<close>

definition demo_history :: "request list" where
  "demo_history =
     [Store (ctx 0 100 8192 0) 5 (Some (replicate 16 7)) 16 4096,
      Store (ctx 1 110 8448 0) 5 (Some (replicate 16 9)) 16 8192]"

theorem hit_was_stored_witness:
  "\<exists>ys t. perform_all (demo_history @ [Lookup (ctx 0 120 0 0) 5 4096]) (fresh_cache 16 32 1) = Inr (ys, t)
     \<and> (\<exists>i<2. \<exists>v d len. demo_history ! i = Store v 5 (Some d) len 4096 \<and> ys ! i = Code 0
         \<and> time_before 120 350)"
proof -
  let ?run = "perform_all (demo_history @ [Lookup (ctx 0 120 0 0) 5 4096]) (fresh_cache 16 32 1)"
  have "\<exists>u. map_sum id (\<lambda>x. last (fst x)) ?run = Inr (Hit (Some (350, u)))"
    by (simp add: demo_history_def kcr_eval index_eval time_before_iff)
  then obtain u ys t where r: "?run = Inr (ys, t)" and y: "last ys = Hit (Some (350, u))"
    by (cases ?run) auto
  from hit_was_stored [OF r y] obtain i v d len where "i < length demo_history"
    "demo_history ! i = Store v 5 (Some d) len 4096" "ys ! i = Code 0" "time_before 120 350"
    by (metis ctx_simps(3))
  moreover have "length demo_history = 2" by (simp add: demo_history_def)
  ultimately show ?thesis using r by auto
qed

end
