(* ===== verification/Cache_Readers.thy ===== *)
theory Cache_Readers
  imports Cache_Closed Cache_History
begin

text \<open>
  The RCU read side, one node at a time. The list walk of a lookup runs between \<open>rcu_read_lock\<close> and
  \<open>rcu_read_unlock\<close> while other CPUs (or interrupts) store, look up and invalidate, and no grace
  period ends before it unlocks. Inside the section every node the reader comes to is allocated,
  whatever the writers do, if the links were closed when it started; on the quiet workload of
  \<open>Cache_Quiet\<close> they always are. The entry that \<open>lookup_unified\<close> returns is used after the unlock, and
  there nothing protects it.
\<close>

section \<open>The quiet workload keeps the links closed\<close>

lemma tidy_closed:
  assumes co: "coherent v F A s" and td: "tidy v F A s" and none: "rcu_pending s = []"
  shows "links_closed s"
proof -
  have in_chain: "ptr_ok s p" if "chain (ent s) p qs" for p qs
    using that by (cases qs) (auto simp: ptr_ok_def)
  have tw: "twin v s f (A (l2_index f))" if "f \<in> F" for f by (rule coherentD(5) [OF co that])
  show ?thesis
    unfolding links_closed_def
  proof (intro conjI allI impI)
    fix h show "ptr_ok s (hfirst s h)"
      using tidyD(2) [OF td, of h] twin_chain [OF tw] in_chain by (cases "hfirst s h = NULL") fastforce+
  next
    fix p e assume e: "ent s p = Some e"
    from tidyD(1) [OF td e] none obtain b where b: "p \<in> set (A b)" by auto
    from coherentD(7) [OF co b] have "fingerprint e \<in> F" "l2_index (fingerprint e) = b"
      by (simp_all add: e)
    with twin_chain [OF tw [of "fingerprint e"]]
    have ch: "chain (ent s) (hfirst s (l3_head v s (fingerprint e))) (A b)" by simp
    from b obtain xs ys where "A b = xs @ p # ys" by (metis split_list)
    with ch have "chain (ent s) p (p # ys)" by (metis chain_suffix)
    with e show "ptr_ok s (node_next e)" by (auto intro: in_chain)
  qed
qed

lemma grace_pending: "rcu_grace_period s = Inr t \<Longrightarrow> rcu_pending t = []"
  unfolding rcu_grace_period_def
  by (erule rfold_invariant [where I = "\<lambda>s. rcu_pending s = []"])
    (auto simp: free_entry_rcu_def kfree_entry_def split: if_splits)

text \<open>
  What is assumed of a writer: a store gets memory that is not in use. The end of a grace period is
  not a writer.
\<close>

fun writer_ok :: "cache_state \<Rightarrow> request \<Rightarrow> bool" where
  "writer_ok s (Store v fp data len m) \<longleftrightarrow> ent s (kzalloc_ret v) = None"
| "writer_ok s Grace \<longleftrightarrow> False"
| "writer_ok s _ \<longleftrightarrow> True"

lemma closed_perform:
  assumes "perform r s = Inr (y, t)" and "writer_ok s r" and "links_closed s"
  shows "links_closed t"
  using assms
  by (cases r) (auto simp: rbind_Inr_iff intro: closed_lookup closed_store closed_invalidate)

lemma quiet_closed:
  assumes "simulates v F s a" and "alias_free F" and "quiet v F rs s" and "links_closed s"
    and "perform_all rs s = Inr (ys, t)"
  shows "links_closed t"
  using assms(1,3-5)
proof (induction rs arbitrary: s a ys)
  case (Cons r rs)
  from Cons.prems(4) obtain y zs u where
    u: "perform r s = Inr (y, u)" "perform_all rs u = Inr (zs, t)" by (auto simp: rbind_Inr_iff)
  from Cons.prems(2) u(1) have adm: "admissible v F s r" and q: "quiet v F rs u" by simp_all
  from simulates_step [OF Cons.prems(1) assms(2) adm] u(1) obtain b where b: "simulates v F u b" by auto
  have "links_closed u"
  proof (cases "r = Grace")
    case True
    with u(1) have "rcu_pending u = []" by (auto simp: rbind_Inr_iff intro: grace_pending)
    with b show ?thesis unfolding simulates_def by (blast intro: tidy_closed)
  next
    case False
    with adm have "writer_ok s r" by (cases r) auto
    from closed_perform [OF u(1) this Cons.prems(3)] show ?thesis .
  qed
  from Cons.IH [OF b q this u(2)] show ?case .
qed simp

lemma fresh_closed: "links_closed (fresh_cache c t n)"
proof -
  have "bucket_at (fresh_cache c t n) h = \<lparr>head = NULL, lock = False\<rparr>" for h
    by (cases h) (simp_all add: fresh_cache_def)
  then show ?thesis by (simp add: links_closed_def hfirst_def) (simp add: fresh_cache_def ent_def)
qed

section \<open>Entries stay while no grace period ends\<close>

lemma perform_keeps_entries:
  assumes "perform r s = Inr (y, t)" and "writer_ok s r" and "ent s p = Some e"
  shows "\<exists>e'. ent t p = Some e' \<and> payload e' = payload e"
proof (cases r)
  case (Lookup w fp m)
  with assms(1) obtain q where "lookup_unified w fp m s = Inr (q, t)" by (auto simp: rbind_Inr_iff)
  then show ?thesis using cache_frame_ent [OF lookup_unified_frame(1) assms(3)] by blast
next
  case (Store w fp data len m)
  with assms(1) obtain x where "store_result w fp data len m s = Inr (x, t)" by (auto simp: rbind_Inr_iff)
  then show ?thesis
  proof (cases rule: store_result_cases)
    case no_slot
    have "t = s"
      using no_slot(5) kfree_new [OF no_slot(3), of s] assms(2) Store by simp
    with assms(3) show ?thesis by simp
  next
    case (stored d s1 s2)
    have "p \<noteq> kzalloc_ret w" using assms(2,3) Store by auto
    with stored(5) assms(3) have "ent s1 p = Some e" by (simp add: placed_def)
    moreover have "cache_frame s1 t"
      by (rule cache_frame_trans [OF store_in_l2_frame store_in_l3_frame]) (rule stored(6,7))+
    ultimately show ?thesis using cache_frame_ent by blast
  qed (use assms(3) in simp_all)
next
  case (Invalidate w m a b)
  with assms(1) have "invalidate_range w m a b s = Inr t" by (auto simp: rbind_Inr_iff)
  then obtain s2 where "cache_frame s s2" "ent t = ent s2" using invalidate_range_lists by metis
  with assms(3) show ?thesis using cache_frame_ent by metis
qed (use assms(2) in simp)

section \<open>The reader\<close>

text \<open>
  One turn of the loop \<open>hlist_for_each_entry_rcu\<close> of \<open>lookup_l2\<close> and \<open>lookup_l3\<close>: the end of the
  list, a match, or the step to the next node. Of the fields it reads only \<open>next\<close> ever changes in an
  entry that is linked, so one turn is one atomic step. \<open>j\<close> is \<open>jiffies\<close> at that moment.
\<close>

datatype reader = Reading ptr | Found ptr | Missed

definition read_one :: "u64 \<Rightarrow> ptr \<Rightarrow> u64 \<Rightarrow> cache_state \<Rightarrow> ptr \<Rightarrow> reader res" where
  "read_one fp m j s p =
     (if p = NULL then Inr Missed
      else rbind (get_ent s p) (\<lambda>e.
           Inr (if live_match fp m j e then Found p else Reading (node_next e))))"

text \<open>Without writers in between, the turns add up to the search of the atomic model.\<close>

lemma hlist_find_read_one:
  "hlist_find (Suc k) (live_match fp m j) s p =
     rbind (read_one fp m j s p) (\<lambda>r. case r of
       Missed \<Rightarrow> Inr NULL | Found q \<Rightarrow> Inr q | Reading q \<Rightarrow> hlist_find k (live_match fp m j) s q)"
  by (cases "get_ent s p") (auto simp: read_one_def)

text \<open>
  A read section on the bucket \<open>h\<close> that began in state \<open>s0\<close>: turns of the reader, interleaved with
  complete operations of writers, on any CPU and for any keys. The result is the fault of the reader
  or where it stands.
\<close>

inductive read_section :: "u64 \<Rightarrow> ptr \<Rightarrow> hhead \<Rightarrow> cache_state \<Rightarrow> cache_state \<Rightarrow> reader res \<Rightarrow> bool"
  for fp m h s0 where
  enter: "read_section fp m h s0 s0 (Inr (Reading (hfirst s0 h)))"
| turn: "read_section fp m h s0 s (Inr (Reading p)) \<Longrightarrow> read_section fp m h s0 s (read_one fp m j s p)"
| writer: "read_section fp m h s0 s x \<Longrightarrow> writer_ok s r \<Longrightarrow> perform r s = Inr (y, t) \<Longrightarrow>
    read_section fp m h s0 t x"

definition reader_ok :: "u64 \<Rightarrow> ptr \<Rightarrow> cache_state \<Rightarrow> reader res \<Rightarrow> bool" where
  "reader_ok fp m s x \<longleftrightarrow> (case x of
     Inl _ \<Rightarrow> False
   | Inr (Reading p) \<Rightarrow> ptr_ok s p
   | Inr (Found p) \<Rightarrow> p \<noteq> NULL \<and> (\<exists>e. ent s p = Some e \<and> fingerprint e = fp \<and> mm e = m)
   | Inr Missed \<Rightarrow> True)"

lemma reader_ok_writer:
  assumes "reader_ok fp m s x" and "perform r s = Inr (y, t)" and "writer_ok s r"
  shows "reader_ok fp m t x"
proof -
  have keep: "\<exists>e'. ent t p = Some e' \<and> payload e' = payload e" if "ent s p = Some e" for p e
    by (rule perform_keeps_entries [OF assms(2,3) that])
  show ?thesis
  proof (cases "x = Inr Missed")
    case False
    then show ?thesis
      using assms(1) keep unfolding reader_ok_def ptr_ok_def
      by (auto split: sum.splits reader.splits) (metis payload_eqD(1,2))+
  qed (simp add: reader_ok_def)
qed

lemma read_section_ok:
  assumes "read_section fp m h s0 s x" and "links_closed s0"
  shows "links_closed s \<and> reader_ok fp m s x"
  using assms(1)
proof (induction rule: read_section.induct)
  case enter
  show ?case using assms(2) closedD(1) [OF assms(2)] by (simp add: reader_ok_def)
next
  case (turn s p j)
  then have cl: "links_closed s" and p: "ptr_ok s p" by (simp_all add: reader_ok_def)
  show ?case
  proof (cases "p = NULL")
    case False
    with p obtain e where e: "ent s p = Some e" by (auto simp: ptr_ok_def)
    with False cl closedD(2) [OF cl e] show ?thesis
      by (simp add: read_one_def reader_ok_def live_match_def)
  qed (use cl in \<open>simp add: read_one_def reader_ok_def\<close>)
next
  case (writer s x r y t)
  then show ?case using reader_ok_writer closed_perform by blast
qed

text \<open>
  C8. RCU readers are safe on the quiet workload: after any run of it from a cache just initialised,
  grace periods included, a reader that walks any bucket, for any key, interleaved with any
  operations of writers (also ones outside the workload) that do not end a grace period, never
  touches freed memory; and an entry it stops at is allocated and of its key as long as the section
  lasts.
\<close>

theorem reader_never_touches_freed_memory:
  assumes "c \<noteq> NULL" and "t3 \<noteq> NULL" and "0 < n" and "0 \<le> node v" and "alias_free F"
    and "quiet v F rs (fresh_cache c t3 n)" and "perform_all rs (fresh_cache c t3 n) = Inr (ys, s0)"
    and "read_section fp m h s0 s x"
  shows "\<exists>r. x = Inr r
    \<and> (\<forall>p. r = Found p \<longrightarrow> (\<exists>e. ent s p = Some e \<and> fingerprint e = fp \<and> mm e = m))"
proof -
  have "links_closed s0"
    by (rule quiet_closed [OF fresh_simulates [OF assms(1-4)] assms(5,6) fresh_closed assms(7)])
  from read_section_ok [OF assms(8) this] show ?thesis
    by (auto simp: reader_ok_def split: sum.splits)
qed

text \<open>A reader has found entry 8192 when the key is stored anew and 8192 queued for freeing.\<close>

theorem reader_never_touches_freed_memory_witness:
  "\<exists>ys s0 s e. perform_all [Store (ctx 0 100 8192 0) 5 (Some [7, 8]) 2 4096] (fresh_cache 16 32 1) = Inr (ys, s0)
     \<and> read_section 5 4096 (L2Head 0 5) s0 s (Inr (Found 8192)) \<and> rcu_pending s = [8192]
     \<and> ent s 8192 = Some e \<and> fingerprint e = 5 \<and> mm e = 4096"
proof -
  let ?rs = "[Store (ctx 0 100 8192 0) 5 (Some [7, 8]) 2 4096]"
  let ?w = "Store (ctx 0 130 8448 0) 5 (Some [9]) 1 4096"
  have "\<exists>ys s0 z s. perform_all ?rs (fresh_cache 16 32 1) = Inr (ys, s0) \<and> hfirst s0 (L2Head 0 5) = 8192
      \<and> read_one 5 4096 120 s0 8192 = Inr (Found 8192) \<and> ent s0 8448 = None
      \<and> perform ?w s0 = Inr (z, s) \<and> rcu_pending s = [8192]"
    by (simp add: kcr_eval index_eval time_before_iff read_one_def)
  then obtain ys s0 z s where s0: "perform_all ?rs (fresh_cache 16 32 1) = Inr (ys, s0)"
    and r: "hfirst s0 (L2Head 0 5) = 8192" "read_one 5 4096 120 s0 8192 = Inr (Found 8192)"
    and w: "ent s0 8448 = None" "perform ?w s0 = Inr (z, s)" "rcu_pending s = [8192]" by blast
  have "read_section 5 4096 (L2Head 0 5) s0 s0 (Inr (Reading 8192))"
    using read_section.enter [of 5 4096 "L2Head 0 5" s0] r(1) by simp
  then have "read_section 5 4096 (L2Head 0 5) s0 s0 (Inr (Found 8192))"
    using read_section.turn [where j = 120] r(2) by metis
  then have sec: "read_section 5 4096 (L2Head 0 5) s0 s (Inr (Found 8192))"
    by (rule read_section.writer [OF _ _ w(2)]) (simp add: w(1) ctx_def)
  have q: "quiet (ctx 0 0 0 0) {5} ?rs (fresh_cache 16 32 1)"
    by (simp add: kcr_eval index_eval same_cpu_def)
  have "alias_free {5}" by (simp add: alias_free_def)
  from reader_never_touches_freed_memory [OF _ _ _ _ this q s0 sec]
  obtain e where "ent s 8192 = Some e" "fingerprint e = 5" "mm e = 4096" by (auto simp: ctx_simps)
  with s0 sec w(3) show ?thesis by blast
qed

section \<open>After the section\<close>

text \<open>
  C18. The pointer \<open>lookup_unified\<close> returns is not protected: it returns after \<open>rcu_read_unlock\<close>, so
  a store of the same key and a grace period free the entry while the caller still holds it, and
  reading it (as \<open>validate_entry\<close> and \<open>inject_result\<close> do) is a use after free.
\<close>

theorem returned_entry_not_protected:
  assumes "small_store v d len" and "small_store w d' len'" and "cpu w = cpu v" and "cpu u = cpu v"
    and "kzalloc_ret v \<noteq> kzalloc_ret w" and "node u = 0"
    and "time_before (jiffies u) (jiffies v + msecs_to_jiffies v 1000)"
    and "c \<noteq> NULL" and "t3 \<noteq> NULL" and "0 < n"
  shows "\<exists>s1 s2 s3 s4. store_result v fp (Some d) len m (fresh_cache c t3 n) = Inr (0, s1)
    \<and> lookup_unified u fp m s1 = Inr (kzalloc_ret v, s2)
    \<and> store_result w fp (Some d') len' m s2 = Inr (0, s3)
    \<and> rcu_grace_period s3 = Inr s4 \<and> get_ent s4 (kzalloc_ret v) = Inl UseAfterFree"
proof -
  have "kzalloc_ret w \<noteq> kzalloc_ret v" using assms(5) by simp
  with assms show ?thesis by (simp add: kcr_eval small_store_def)
qed

theorem returned_entry_not_protected_witness:
  "\<exists>s1 s2 s3 s4. store_result (ctx 0 100 8192 0) 5 (Some [7, 8]) 2 4096 (fresh_cache 16 32 1) = Inr (0, s1)
     \<and> lookup_unified (ctx 0 110 0 0) 5 4096 s1 = Inr (8192, s2)
     \<and> store_result (ctx 0 120 8448 0) 5 (Some [7, 8]) 2 4096 s2 = Inr (0, s3)
     \<and> rcu_grace_period s3 = Inr s4 \<and> get_ent s4 8192 = Inl UseAfterFree"
proof -
  have "small_store (ctx 0 100 8192 0) [7, 8] 2" "small_store (ctx 0 120 8448 0) [7, 8] 2"
    by (rule ctx_small_store; simp)+
  moreover have "time_before 110 350" by code_simp
  ultimately show ?thesis
    using returned_entry_not_protected [of "ctx 0 100 8192 0" "[7, 8]" 2 "ctx 0 120 8448 0" "[7, 8]" 2
        "ctx 0 110 0 0" 16 32 1 5 4096]
    by (simp add: ctx_def)
qed

section \<open>Nothing is lost\<close>

lemma first_match_key:
  assumes "distinct (entry_keys s qs)" and "q \<in> set qs" and "ent s q = Some e"
    and "\<And>r. r \<in> set qs \<Longrightarrow> ent s r \<noteq> None" and "time_before j (expiry_jiffies e)"
  shows "first_match (ent s) (live_match (fingerprint e) (mm e) j) qs = q"
  using assms(1,2,4)
proof (induction qs)
  case (Cons r qs)
  then obtain e' where e': "ent s r = Some e'" by fastforce
  show ?case
  proof (cases "r = q")
    case True
    with assms(3,5) show ?thesis by (simp add: first_match_Cons live_match_def)
  next
    case False
    with Cons.prems(2) have q: "q \<in> set qs" by simp
    then have "Some (key_of e) \<in> set (entry_keys s qs)" using assms(3) by (force simp: entry_keys_def)
    with Cons.prems(1) e' have "key_of e' \<noteq> key_of e" by auto
    then have "\<not> live_match (fingerprint e) (mm e) j e'" by (auto simp: live_match_def key_of_def)
    with Cons q e' show ?thesis by (simp add: first_match_Cons)
  qed
qed simp

text \<open>
  C26. The quiet workload does not leak: after any run of it that ends with a grace period, every
  entry that is allocated is returned by a lookup of its key on that CPU before its expiry.
\<close>

theorem quiet_run_leaks_nothing:
  assumes "c \<noteq> NULL" and "t3 \<noteq> NULL" and "0 < n" and "0 \<le> node v" and "alias_free F"
    and "quiet v F (rs @ [Grace]) (fresh_cache c t3 n)"
    and "perform_all (rs @ [Grace]) (fresh_cache c t3 n) = Inr (ys, t)"
    and "ent t p = Some e" and "same_cpu v w" and "time_before (jiffies w) (expiry_jiffies e)"
  shows "\<exists>u. lookup_unified w (fingerprint e) (mm e) t = Inr (p, u)"
proof -
  from simulates_run [OF fresh_simulates [OF assms(1-4)] assms(5,6)] assms(7) obtain A where
    co: "coherent v F A t" and td: "tidy v F A t" by (auto simp: simulates_def)
  have "rcu_pending t = []"
    using assms(7) by (auto simp: perform_all_snoc rbind_Inr_iff intro: grace_pending)
  with tidyD(1) [OF td assms(8)] obtain b where b: "p \<in> set (A b)" by auto
  from coherentD(7) [OF co b] assms(8) have f: "fingerprint e \<in> F" "l2_index (fingerprint e) = b"
    by simp_all
  note cw = coherent_same_cpu [OF assms(9) co]
  have tw: "twin w t (fingerprint e) (A b)" using coherentD(5) [OF cw f(1)] f(2) by simp
  have "first_match (ent t) (live_match (fingerprint e) (mm e) (jiffies w)) (A b) = p"
    using twin_alloc [OF tw] by (intro first_match_key [OF coherentD(6) [OF co] b assms(8) _ assms(10)]) blast
  with twin_lookup [OF tw coherentD(1,2) [OF cw], of "mm e"] show ?thesis by simp
qed

theorem quiet_run_leaks_nothing_witness:
  "\<exists>ys t e u. perform_all [Store (ctx 0 100 8192 0) 5 (Some [7, 8]) 2 4096,
       Store (ctx 0 110 8448 0) 5 (Some [9]) 1 4096, Grace] (fresh_cache 16 32 1) = Inr (ys, t)
     \<and> ent t 8448 = Some e \<and> ent t 8192 = None
     \<and> lookup_unified (ctx 0 120 0 0) (fingerprint e) (mm e) t = Inr (8448, u)"
proof -
  let ?rs = "[Store (ctx 0 100 8192 0) 5 (Some [7, 8]) 2 4096, Store (ctx 0 110 8448 0) 5 (Some [9]) 1 4096]"
  have "\<exists>ys t e. perform_all (?rs @ [Grace]) (fresh_cache 16 32 1) = Inr (ys, t) \<and> ent t 8448 = Some e
      \<and> expiry_jiffies e = 360 \<and> ent t 8192 = None"
    by (simp add: kcr_eval index_eval)
  then obtain ys t e where t: "perform_all (?rs @ [Grace]) (fresh_cache 16 32 1) = Inr (ys, t)"
    and e: "ent t 8448 = Some e" "expiry_jiffies e = 360" "ent t 8192 = None" by blast
  have q: "quiet (ctx 0 0 0 0) {5} (?rs @ [Grace]) (fresh_cache 16 32 1)"
    by (simp add: kcr_eval index_eval same_cpu_def)
  have "alias_free {5}" by (simp add: alias_free_def)
  moreover have "time_before 120 360" by code_simp
  ultimately have "\<exists>u. lookup_unified (ctx 0 120 0 0) (fingerprint e) (mm e) t = Inr (8448, u)"
    by (intro quiet_run_leaks_nothing [OF _ _ _ _ _ q t e(1)]) (simp_all add: e same_cpu_def ctx_def)
  with t e show ?thesis by auto
qed

end
