(* ===== verification/KCR_Threads.thy ===== *)
theory KCR_Threads
  imports Cache_Run
begin

text \<open>
  The cache operations of \<open>kcr_cache.c\<close> as threads: programs whose steps can be interleaved. A step
  is a list walk, a list macro, a memory allocation or release, an access to a counter, or the
  acquisition or release of a spinlock. \<open>run\<close> executes a program without interruption, and gives
  exactly the functions of \<open>KCR_Cache\<close>.
\<close>

section \<open>Programs\<close>

datatype lock_id = BucketLock hhead | ExtLock nat

fun is_locked :: "lock_id \<Rightarrow> cache_state \<Rightarrow> bool" where
  "is_locked (BucketLock h) s = lock (bucket_at s h)"
| "is_locked (ExtLock i) s = ext_lock (tables s i)"

fun set_lock :: "lock_id \<Rightarrow> bool \<Rightarrow> cache_state \<Rightarrow> cache_state" where
  "set_lock (BucketLock h) b s = put_bucket h ((bucket_at s h)\<lparr>lock := b\<rparr>) s"
| "set_lock (ExtLock i) b s = upd_table i (\<lambda>t. t\<lparr>ext_lock := b\<rparr>) s"

text \<open>What remains to be done by a thread.\<close>

datatype 'a prog =
    Return 'a
  | Atomic "cache_state \<Rightarrow> fault + ('a prog \<times> cache_state)"
  | Acquire lock_id "'a prog"
  | Release lock_id "'a prog"

primrec pbind :: "'a prog \<Rightarrow> ('a \<Rightarrow> 'b prog) \<Rightarrow> 'b prog" where
  "pbind (Return x) g = g x"
| "pbind (Atomic f) g = Atomic (\<lambda>s. map_sum id (map_prod (\<lambda>p. pbind p g) id) (f s))"
| "pbind (Acquire l p) g = Acquire l (pbind p g)"
| "pbind (Release l p) g = Release l (pbind p g)"

text \<open>Single steps: with a result and a new state, with a result, with a new state.\<close>

definition fetch :: "(cache_state \<Rightarrow> ('a \<times> cache_state) res) \<Rightarrow> 'a prog" where
  "fetch f = Atomic (\<lambda>s. map_sum id (map_prod Return id) (f s))"

definition ask :: "(cache_state \<Rightarrow> 'a res) \<Rightarrow> 'a prog" where
  "ask f = fetch (\<lambda>s. rbind (f s) (\<lambda>x. Inr (x, s)))"

definition act :: "(cache_state \<Rightarrow> cache_state res) \<Rightarrow> unit prog" where
  "act f = fetch (\<lambda>s. rbind (f s) (\<lambda>t. Inr ((), t)))"

definition acquire :: "lock_id \<Rightarrow> unit prog" where
  "acquire l = Acquire l (Return ())"

definition release :: "lock_id \<Rightarrow> unit prog" where
  "release l = Release l (Return ())"

primrec pfold :: "('i \<Rightarrow> unit prog) \<Rightarrow> 'i list \<Rightarrow> unit prog" where
  "pfold g [] = Return ()"
| "pfold g (i # is) = pbind (g i) (\<lambda>_. pfold g is)"

text \<open>Execution without interruption. A lock that is taken is never released.\<close>

primrec run :: "'a prog \<Rightarrow> cache_state \<Rightarrow> ('a \<times> cache_state) res" where
  "run (Return x) = (\<lambda>s. Inr (x, s))"
| "run (Atomic f) = (\<lambda>s. rbind (map_sum id (map_prod run id) (f s)) (\<lambda>(k, t). k t))"
| "run (Acquire l p) = (\<lambda>s. if is_locked l s then Inl Deadlock else run p (set_lock l True s))"
| "run (Release l p) = (\<lambda>s. run p (set_lock l False s))"

lemma run_pbind [simp]: "run (pbind p g) s = rbind (run p s) (\<lambda>(x, t). run (g x) t)"
proof (induction p arbitrary: s)
  case (Atomic f)
  show ?case
  proof (cases "f s")
    case (Inr x)
    obtain k t where x: "x = (k, t)" by (cases x)
    have "run (pbind k g) t = rbind (run k t) (\<lambda>(x, t). run (g x) t)"
      by (rule Atomic [OF rangeI [of f s], of x]) (simp_all add: Inr x)
    then show ?thesis by (simp add: Inr x)
  qed simp
qed simp_all

lemma run_fetch [simp]: "run (fetch f) s = f s"
  by (cases "f s") (auto simp: fetch_def)

lemma run_steps [simp]:
  "run (ask h) s = rbind (h s) (\<lambda>x. Inr (x, s))"
  "run (act g) s = rbind (g s) (\<lambda>t. Inr ((), t))"
  "run (acquire l) s = (if is_locked l s then Inl Deadlock else Inr ((), set_lock l True s))"
  "run (release l) s = Inr ((), set_lock l False s)"
  by (simp_all add: ask_def act_def acquire_def release_def)

lemma run_pfold [simp]:
  "run (pfold g is) s = rbind (rfold (\<lambda>i s. rbind (run (g i) s) (\<lambda>(_, t). Inr t)) is s) (\<lambda>t. Inr ((), t))"
proof (induction "is" arbitrary: s)
  case (Cons i "is")
  then show ?case by (cases "run (g i) s") auto
qed simp

section \<open>The operations\<close>

definition promote_steps :: "nat \<Rightarrow> ptr \<Rightarrow> u64 \<Rightarrow> unit prog" where
  "promote_steps c p fp =
     (let h = L2Head c (l2_index fp) in
      pbind (acquire (BucketLock h)) (\<lambda>_.
      pbind (act (hlist_del_rcu p)) (\<lambda>_.
      pbind (act (hlist_add_head_rcu p h)) (\<lambda>_.
      release (BucketLock h)))))"

definition lookup_steps :: "env \<Rightarrow> u64 \<Rightarrow> ptr \<Rightarrow> ptr prog" where
  "lookup_steps v fp m =
     pbind (fetch (lookup_l2 v (cpu v) fp m)) (\<lambda>p.
       if p \<noteq> NULL then Return p else
       pbind (ask (lookup_l3 v fp m)) (\<lambda>p.
         if p \<noteq> NULL
         then pbind (promote_steps (cpu v) p fp) (\<lambda>_.
              pbind (act (\<lambda>s. Inr (upd_stats (cpu v) (\<lambda>st. st\<lparr>l3_hits := l3_hits st + 1\<rparr>) s))) (\<lambda>_.
              Return p))
         else pbind (act (\<lambda>s. Inr (upd_stats (cpu v) (\<lambda>st. st\<lparr>misses := misses st + 1\<rparr>) s))) (\<lambda>_.
              Return NULL)))"

definition replace_steps :: "hhead \<Rightarrow> ptr \<Rightarrow> u64 \<Rightarrow> unit prog" where
  "replace_steps h p fp =
     pbind (acquire (BucketLock h)) (\<lambda>_.
     pbind (ask (\<lambda>s. rbind (get_ent s p) (\<lambda>e. hlist_find (fuel s) (same_key fp (mm e)) s (hfirst s h)))) (\<lambda>old.
     pbind (if old \<noteq> NULL then pbind (act (hlist_del_rcu old)) (\<lambda>_. act (call_rcu old)) else Return ()) (\<lambda>_.
     pbind (act (hlist_add_head_rcu p h)) (\<lambda>_.
     release (BucketLock h)))))"

text \<open>What \<open>store_result\<close> does while it holds the lock of the external slots.\<close>

definition fill_slot ::
    "env \<Rightarrow> nat \<Rightarrow> ptr \<Rightarrow> u8 list \<Rightarrow> u32 \<Rightarrow> cache_state \<Rightarrow> (nat \<times> cache_state) res" where
  "fill_slot v i p data len s =
     (let ext_slot = free_slot (tables s i) in
      rbind
       (if ext_slot < KCR_EXT_SLOTS
        then let buf = kvmalloc_ret v;
                 s = upd_table i (\<lambda>t. t\<lparr>ext_slots := (ext_slots t)(ext_slot := buf)\<rparr>) s
             in if buf \<noteq> NULL
                then rbind (memcpy_from data len) (\<lambda>bytes.
                     rbind (get_ent s p) (\<lambda>e.
                     let s = s\<lparr>bufs := (buf, bytes) # bufs s\<rparr>;
                         s = upd_table i (\<lambda>t. t\<lparr>ext_slot_size := (ext_slot_size t)(ext_slot := len)\<rparr>) s
                     in Inr (put_ent p (set_ext_size len (set_ext_data buf e)) s)))
                else Inr s
        else Inr s) (\<lambda>s. Inr (ext_slot, s)))"

definition external_steps :: "env \<Rightarrow> ptr \<Rightarrow> u8 list \<Rightarrow> u32 \<Rightarrow> bool prog" where
  "external_steps v p data len =
     pbind (ask (l3_socket v)) (\<lambda>i.
     pbind (acquire (ExtLock i)) (\<lambda>_.
     pbind (fetch (fill_slot v i p data len)) (\<lambda>ext_slot.
     pbind (release (ExtLock i)) (\<lambda>_.
     pbind (ask (\<lambda>s. get_ent s p)) (\<lambda>e.
     Return (\<not> (KCR_EXT_SLOTS \<le> ext_slot \<or> ext_data e = NULL)))))))"

definition check_caches :: "unit prog" where
  "check_caches = ask (\<lambda>s. if caches s = NULL then Inl NullDeref else Inr ())"

definition store_steps :: "env \<Rightarrow> u64 \<Rightarrow> u8 list option \<Rightarrow> u32 \<Rightarrow> ptr \<Rightarrow> int prog" where
  "store_steps v fp data len m =
     (case data of
        None \<Rightarrow> Return (- EINVAL)
      | Some d \<Rightarrow>
          if len = 0 then Return (- EINVAL)
          else if kzalloc_ret v = NULL then Return (- ENOMEM)
          else
            let p = kzalloc_ret v in
            pbind (act (\<lambda>s. Inr (put_ent p (new_entry v fp m) s))) (\<lambda>_.
            pbind (if KCR_RESULT_SIZE_MAX < unat len then external_steps v p d len
                   else fetch (store_inline p d len)) (\<lambda>ok.
            if \<not> ok then pbind (act (kfree_entry p)) (\<lambda>_. Return (- ENOMEM))
            else
              pbind check_caches (\<lambda>_.
              pbind (replace_steps (L2Head (cpu v) (l2_index fp)) p fp) (\<lambda>_.
              pbind (ask (l3_socket v)) (\<lambda>i.
              pbind (replace_steps (L3Head i (l3_index fp)) p fp) (\<lambda>_.
              Return 0)))))))"

definition flush_steps :: "ptr \<Rightarrow> (cache_state \<Rightarrow> cache_state) \<Rightarrow> hhead \<Rightarrow> unit prog" where
  "flush_steps m account h =
     pbind (acquire (BucketLock h)) (\<lambda>_.
     pbind (act (\<lambda>s. hlist_flush (fuel s * fuel s) m account (hfirst s h) s)) (\<lambda>_.
     release (BucketLock h)))"

definition invalidate_steps :: "env \<Rightarrow> ptr \<Rightarrow> unit prog" where
  "invalidate_steps v m =
     pbind check_caches (\<lambda>_.
     pbind (pfold (\<lambda>b. flush_steps m (count_invalidation (cpu v)) (L2Head (cpu v) b)) [0..<KCR_L2_ENTRIES]) (\<lambda>_.
     pbind (ask (l3_socket v)) (\<lambda>i.
     pbind (pfold (\<lambda>b. flush_steps m id (L3Head i b)) [0..<KCR_L3_ENTRIES]) (\<lambda>_.
     pbind (acquire (ExtLock i)) (\<lambda>_.
     pbind (pfold (\<lambda>j. act (free_ext_slot i j)) [0..<KCR_EXT_SLOTS]) (\<lambda>_.
     release (ExtLock i)))))))"

fun program :: "request \<Rightarrow> reply prog" where
  "program (Lookup v fp m) = pbind (lookup_steps v fp m) (\<lambda>p. ask (\<lambda>s. Inr (Hit (read_reply s p))))"
| "program (Store v fp data len m) = pbind (store_steps v fp data len m) (\<lambda>r. Return (Code r))"
| "program (Invalidate v m a b) = pbind (invalidate_steps v m) (\<lambda>_. Return Done)"
| "program Grace = pbind (act rcu_grace_period) (\<lambda>_. Return Freed)"

section \<open>Uninterrupted programs are the functions\<close>

lemma lock_steps:
  "spin_lock h s = (if is_locked (BucketLock h) s then Inl Deadlock else Inr (set_lock (BucketLock h) True s))"
  "spin_unlock h s = set_lock (BucketLock h) False s"
  "ext_spin_lock i s = (if is_locked (ExtLock i) s then Inl Deadlock else Inr (set_lock (ExtLock i) True s))"
  "ext_spin_unlock i s = set_lock (ExtLock i) False s"
  by (simp_all add: spin_lock_def spin_unlock_def ext_spin_lock_def ext_spin_unlock_def)

lemma rbind_unit: "rbind m (\<lambda>x. Inr x) = m"
  by (cases m) simp_all

lemmas seq_simps = rbind_assoc rbind_unit lock_steps Let_def

declare is_locked.simps [simp del] set_lock.simps [simp del]

lemma rbind_if: "rbind (if b then x else y) k = (if b then rbind x k else rbind y k)"
  by simp

lemma run_promote: "run (promote_steps c p fp) s = rbind (promote_to_l2 c p fp s) (\<lambda>t. Inr ((), t))"
  by (simp add: promote_steps_def promote_to_l2_def seq_simps rbind_if)

lemma run_replace: "run (replace_steps h p fp) s = rbind (replace_in_bucket h p fp s) (\<lambda>t. Inr ((), t))"
  by (auto simp: replace_steps_def replace_in_bucket_def seq_simps rbind_if intro!: rbind_cong)

lemma run_flush: "run (flush_steps m acc h) s = rbind (flush_bucket m acc h s) (\<lambda>t. Inr ((), t))"
  by (simp add: flush_steps_def flush_bucket_def seq_simps rbind_if)

lemma run_lookup: "run (lookup_steps v fp m) s = lookup_unified v fp m s"
  by (auto simp: lookup_steps_def lookup_unified_def run_promote seq_simps rbind_if intro!: rbind_cong
      split: prod.splits)

lemma run_external: "run (external_steps v p d len) s = store_external v p d len s"
  by (auto simp: external_steps_def store_external_def fill_slot_def seq_simps rbind_if intro!: rbind_cong
      split: prod.splits)

lemma run_store: "run (store_steps v fp data len m) s = store_result v fp data len m s"
  by (auto simp: store_steps_def store_result_def run_external run_replace check_caches_def
      store_in_l2_def store_in_l3_def seq_simps rbind_if intro!: rbind_cong split: option.splits prod.splits)

lemma run_invalidate: "run (invalidate_steps v m) s = rbind (invalidate_range v m a b s) (\<lambda>t. Inr ((), t))"
  by (simp add: invalidate_steps_def invalidate_range_def run_flush check_caches_def seq_simps rbind_if cong: if_cong)

lemma run_program: "run (program r) s = perform r s"
proof (cases r)
  case (Invalidate v m a b)
  then show ?thesis by (simp add: run_invalidate [of v m s a b] seq_simps)
qed (auto simp: run_lookup run_store seq_simps intro!: rbind_cong split: prod.splits)

fun programs :: "request list \<Rightarrow> reply list prog" where
  "programs [] = Return []"
| "programs (r # rs) = pbind (program r) (\<lambda>y. pbind (programs rs) (\<lambda>ys. Return (y # ys)))"

lemma run_programs: "run (programs rs) s = perform_all rs s"
  by (induction rs arbitrary: s) (auto simp: run_program intro!: rbind_cong split: prod.splits)

end
