(* ===== verification/Cache_Interleaved.thy ===== *)
theory Cache_Interleaved
  imports KCR_Threads Cache_Faults
begin

text \<open>
  Threads interleaved step by step, on any CPUs. The spinlocks exclude each other's critical
  sections and no interleaving can deadlock; but the locks do not protect the
  entries, and two lookups are enough to write through a poisoned link.
\<close>

section \<open>Interleaving\<close>

text \<open>
  The set is auxiliary: the locks the thread has taken and not given back. Nothing depends on it.
\<close>

type_synonym 'a thread = "lock_id set \<times> 'a prog"

type_synonym 'a pool = "'a thread list \<times> cache_state"

inductive pstep :: "'a pool \<Rightarrow> 'a pool \<Rightarrow> bool" where
  atomic: "i < length ts \<Longrightarrow> ts ! i = (H, Atomic f) \<Longrightarrow> f s = Inr (k, t) \<Longrightarrow>
    pstep (ts, s) (ts[i := (H, k)], t)"
| acquire: "i < length ts \<Longrightarrow> ts ! i = (H, Acquire l k) \<Longrightarrow> \<not> is_locked l s \<Longrightarrow>
    pstep (ts, s) (ts[i := (insert l H, k)], set_lock l True s)"
| release: "i < length ts \<Longrightarrow> ts ! i = (H, Release l k) \<Longrightarrow>
    pstep (ts, s) (ts[i := (H - {l}, k)], set_lock l False s)"

inductive_cases pstepE: "pstep (ts, s) c"

text \<open>The next step of some thread faults.\<close>

inductive crashes :: "'a pool \<Rightarrow> fault \<Rightarrow> bool" where
  "i < length ts \<Longrightarrow> ts ! i = (H, Atomic f) \<Longrightarrow> f s = Inl e \<Longrightarrow> crashes (ts, s) e"

inductive_simps crashes_iff: "crashes (ts, s) e"

fun returned :: "'a pool \<Rightarrow> bool" where
  "returned (ts, s) \<longleftrightarrow> (\<forall>i<length ts. \<exists>H x. ts ! i = (H, Return x))"

definition start :: "request list \<Rightarrow> reply thread list" where
  "start rs = map (\<lambda>r. ({}, program r)) rs"

text \<open>What every step preserves holds in every execution.\<close>

locale pool_invariant =
  fixes I :: "'a pool \<Rightarrow> bool"
  assumes step: "pstep c c' \<Longrightarrow> I c \<Longrightarrow> I c'"
begin

lemma always: "pstep\<^sup>*\<^sup>* c c' \<Longrightarrow> I c \<Longrightarrow> I c'"
  by (induction rule: rtranclp_induct) (auto intro: step)

end

lemma start_simps [simp]:
  "length (start rs) = length rs" "i < length rs \<Longrightarrow> start rs ! i = ({}, program (rs ! i))"
  by (simp_all add: start_def)

section \<open>Lock discipline\<close>

lemma is_locked_set_lock [simp]: "is_locked l' (set_lock l b s) = (if l' = l then b else is_locked l' s)"
  by (cases l; cases l') (auto simp: is_locked.simps set_lock.simps frame_simps)

definition same_locks :: "cache_state \<Rightarrow> cache_state \<Rightarrow> bool" where
  "same_locks s t \<longleftrightarrow> (\<forall>l. is_locked l t = is_locked l s)"

lemma same_locks_refl [simp]: "same_locks s s"
  by (simp add: same_locks_def)

lemma same_locks_trans: "same_locks s t \<Longrightarrow> same_locks t u \<Longrightarrow> same_locks s u"
  by (simp add: same_locks_def)

lemma same_locksI:
  assumes "\<And>h. lock (bucket_at t h) = lock (bucket_at s h)" and "\<And>i. ext_lock (tables t i) = ext_lock (tables s i)"
  shows "same_locks s t"
  unfolding same_locks_def
proof
  fix l show "is_locked l t = is_locked l s" by (cases l) (simp_all only: is_locked.simps assms)
qed

lemma frame_same_locks: "cache_frame s t \<Longrightarrow> same_locks s t"
  by (rule same_locksI) (simp_all only: cache_frame_def)

text \<open>
  A program that starts with the lock \<open>o\<close>, if any, takes one lock at a time, gives back what it has
  taken, changes no lock otherwise, and ends with the lock \<open>o'\<close>.
\<close>

inductive disciplined :: "lock_id option \<Rightarrow> 'a prog \<Rightarrow> lock_id option \<Rightarrow> bool" where
  "disciplined l (Return x) l"
| "(\<And>s k t. f s = Inr (k, t) \<Longrightarrow> same_locks s t \<and> disciplined l k l') \<Longrightarrow> disciplined l (Atomic f) l'"
| "disciplined (Some l) p l' \<Longrightarrow> disciplined None (Acquire l p) l'"
| "disciplined None p l' \<Longrightarrow> disciplined (Some l) (Release l p) l'"

inductive_cases disciplined_AtomicE: "disciplined l (Atomic f) l'"
inductive_cases disciplined_AcquireE: "disciplined l (Acquire l0 p) l'"
inductive_cases disciplined_ReleaseE: "disciplined l (Release l0 p) l'"
inductive_cases disciplined_ReturnE: "disciplined l (Return x) l'"

named_theorems disc_intros \<open>rules for the lock discipline of programs\<close>

lemma disc_pbind [disc_intros]:
  "disciplined l p l' \<Longrightarrow> (\<And>x. disciplined l' (g x) l'') \<Longrightarrow> disciplined l (pbind p g) l''"
proof (induction rule: disciplined.induct)
  case (2 f l l')
  have "same_locks s t \<and> disciplined l k l''"
    if "map_sum id (map_prod (\<lambda>p. pbind p g) id) (f s) = Inr (k, t)" for s k t
  proof -
    from that obtain k' where k: "f s = Inr (k', t)" "k = pbind k' g" by (cases "f s") auto
    from 2(1) [OF k(1)] 2(2) k(2) show ?thesis by blast
  qed
  then show ?case by (auto intro: disciplined.intros(2))
qed (auto intro: disciplined.intros)

lemma disc_fetch: "(\<And>s x t. f s = Inr (x, t) \<Longrightarrow> same_locks s t) \<Longrightarrow> disciplined l (fetch f) l"
  unfolding fetch_def
proof (rule disciplined.intros(2))
  fix s k t
  assume f: "\<And>s x t. f s = Inr (x, t) \<Longrightarrow> same_locks s t"
    and "map_sum id (map_prod Return id) (f s) = Inr (k, t)"
  then obtain x where "f s = Inr (x, t)" "k = Return x" by (cases "f s") auto
  with f show "same_locks s t \<and> disciplined l k l" by (auto intro: disciplined.intros(1))
qed

lemma disc_ask [disc_intros]: "disciplined l (ask f) l"
  unfolding ask_def by (rule disc_fetch) (auto simp: rbind_Inr_iff)

lemma disc_act: "(\<And>s t. f s = Inr t \<Longrightarrow> same_locks s t) \<Longrightarrow> disciplined l (act f) l"
  unfolding act_def by (rule disc_fetch) (auto simp: rbind_Inr_iff)

lemma disc_locks [disc_intros]:
  "disciplined None (acquire l) (Some l)" "disciplined (Some l) (release l) None" "disciplined o1 (Return x) o1"
  unfolding acquire_def release_def by (auto intro: disciplined.intros)

lemma disc_if [disc_intros]:
  "(b \<Longrightarrow> disciplined l p l') \<Longrightarrow> (\<not> b \<Longrightarrow> disciplined l q l') \<Longrightarrow> disciplined l (if b then p else q) l'"
  by simp

lemma disc_pfold [disc_intros]: "(\<And>i. disciplined l (g i) l) \<Longrightarrow> disciplined l (pfold g is) l"
  by (induction "is") (auto intro: disc_intros)

section \<open>The operations are disciplined\<close>

lemma same_locks_views:
  "same_locks s (upd_stats c f s)" "same_locks s (put_ent p e s)" "same_locks s (s\<lparr>entries := es\<rparr>)"
  "same_locks s (s\<lparr>bufs := bs\<rparr>)" "same_locks s (s\<lparr>rcu_pending := ps\<rparr>)"
proof -
  have "bucket_at (s\<lparr>entries := es\<rparr>) h = bucket_at s h" for h by (cases h) simp_all
  then show "same_locks s (s\<lparr>entries := es\<rparr>)" by (intro same_locksI) simp_all
qed (rule same_locksI; simp add: frame_simps del: bucket_at.simps)+

lemma same_locks_table:
  "(\<And>t. buckets (f t) = buckets t) \<Longrightarrow> (\<And>t. ext_lock (f t) = ext_lock t) \<Longrightarrow> same_locks s (upd_table i f s)"
  by (rule same_locksI) (simp_all del: bucket_at.simps)

lemmas is_locked_views = same_locks_views [unfolded same_locks_def, THEN spec]
  same_locks_table [unfolded same_locks_def, THEN spec]

lemma same_locks_steps:
  "hlist_del_rcu p s = Inr t \<Longrightarrow> same_locks s t" "hlist_add_head_rcu p h s = Inr t \<Longrightarrow> same_locks s t"
  "call_rcu p s = Inr t \<Longrightarrow> same_locks s t" "lookup_l2 v c fp m s = Inr (q, t) \<Longrightarrow> same_locks s t"
  "kfree_entry p s = Inr t \<Longrightarrow> same_locks s t" "kvfree p s = Inr t \<Longrightarrow> same_locks s t"
  by (auto simp: call_rcu_Inr kfree_entry_def kvfree_def intro: same_locks_views split: if_splits
      dest: hlist_del_links_only hlist_add_links_only links_only_cache_frame frame_same_locks dest!: lookup_l2_Inr)

lemma same_locks_data:
  "store_inline p d len s = Inr (ok, t) \<Longrightarrow> same_locks s t"
  "fill_slot v i p d len s = Inr (j, t) \<Longrightarrow> same_locks s t"
  "free_ext_slot i j s = Inr t \<Longrightarrow> same_locks s t"
proof -
  show "store_inline p d len s = Inr (ok, t) \<Longrightarrow> same_locks s t"
    by (auto simp: store_inline_def Let_def rbind_Inr_iff intro: same_locks_views)
  show "fill_slot v i p d len s = Inr (j, t) \<Longrightarrow> same_locks s t"
    by (auto simp: fill_slot_def Let_def rbind_Inr_iff same_locks_def is_locked_views split: if_splits)
  show "free_ext_slot i j s = Inr t \<Longrightarrow> same_locks s t"
    by (auto simp: free_ext_slot_def rbind_Inr_iff split: if_splits dest!: same_locks_steps(6)
        intro: same_locks_trans [OF _ same_locks_table])
qed

lemma same_locks_grace: "rcu_grace_period s = Inr t \<Longrightarrow> same_locks s t"
  unfolding rcu_grace_period_def
  by (erule rfold_invariant [where I = "same_locks s"])
    (auto simp: free_entry_rcu_def intro: same_locks_views same_locks_trans dest: same_locks_steps(5))

lemma disc_step [disc_intros]:
  "disciplined l (act (hlist_del_rcu p)) l" "disciplined l (act (hlist_add_head_rcu p h)) l"
  "disciplined l (act (call_rcu p)) l" "disciplined l (fetch (lookup_l2 v c fp m)) l"
  "disciplined l (act (kfree_entry p)) l" "disciplined l (fetch (store_inline p d len)) l"
  "disciplined l (fetch (fill_slot v i p d len)) l" "disciplined l (act (free_ext_slot i j)) l"
  "disciplined l (act (\<lambda>s. Inr (upd_stats c f s))) l" "disciplined l (act (\<lambda>s. Inr (put_ent p e s))) l"
  "disciplined l (act rcu_grace_period) l" "disciplined l check_caches l"
  by (auto intro!: disc_act disc_fetch disc_ask intro: same_locks_steps same_locks_data same_locks_views
      same_locks_grace simp: check_caches_def)

lemma disc_flush [disc_intros]: "counts_only acc \<Longrightarrow> disciplined None (flush_steps m acc h) None"
  unfolding flush_steps_def
  by (rule disc_intros disc_act frame_same_locks | erule hlist_flush_frame | assumption)+

lemma disc_replace [disc_intros]: "disciplined None (replace_steps h p fp) None"
  unfolding replace_steps_def by (rule disc_intros)+

lemma disc_external [disc_intros]: "disciplined None (external_steps v p d len) None"
  unfolding external_steps_def by (rule disc_intros)+

lemma disc_lookup [disc_intros]: "disciplined None (lookup_steps v fp m) None"
  unfolding lookup_steps_def promote_steps_def Let_def by (rule disc_intros)+

lemma disc_store [disc_intros]: "disciplined None (store_steps v fp data len m) None"
proof (cases data)
  case None
  show ?thesis unfolding store_steps_def None option.case by (rule disc_intros)
next
  case (Some d)
  show ?thesis unfolding store_steps_def Some option.case Let_def by (rule disc_intros)+
qed

lemma disc_invalidate [disc_intros]: "disciplined None (invalidate_steps v m) None"
  unfolding invalidate_steps_def by (rule disc_intros counts_only_simps)+

lemma disc_program: "disciplined None (program r) None"
  by (cases r; simp only: program.simps; (rule disc_intros)+)

section \<open>Mutual exclusion\<close>

text \<open>
  Each thread will give back exactly what it holds; a lock is taken in memory if and only if some
  thread holds it; and no two threads hold the same lock.
\<close>

fun lock_inv :: "'a pool \<Rightarrow> bool" where
  "lock_inv (ts, s) \<longleftrightarrow>
     (\<forall>i<length ts. \<exists>l. fst (ts ! i) = set_option l \<and> disciplined l (snd (ts ! i)) None)
     \<and> (\<forall>l. is_locked l s \<longleftrightarrow> (\<exists>i<length ts. l \<in> fst (ts ! i)))
     \<and> (\<forall>i<length ts. \<forall>j<length ts. i \<noteq> j \<longrightarrow> fst (ts ! i) \<inter> fst (ts ! j) = {})"

lemma lock_invD:
  assumes "lock_inv (ts, s)"
  shows "i < length ts \<Longrightarrow> \<exists>l. fst (ts ! i) = set_option l \<and> disciplined l (snd (ts ! i)) None"
    "is_locked l s \<longleftrightarrow> (\<exists>i<length ts. l \<in> fst (ts ! i))"
    "i < length ts \<Longrightarrow> j < length ts \<Longrightarrow> l \<in> fst (ts ! i) \<Longrightarrow> l \<in> fst (ts ! j) \<Longrightarrow> i = j"
  using assms by (simp, simp, simp, blast)

lemma lock_invI:
  assumes "\<And>i. i < length ts \<Longrightarrow> \<exists>l. fst (ts ! i) = set_option l \<and> disciplined l (snd (ts ! i)) None"
    and "\<And>l. is_locked l s \<longleftrightarrow> (\<exists>i<length ts. l \<in> fst (ts ! i))"
    and "\<And>i j l. i < length ts \<Longrightarrow> j < length ts \<Longrightarrow> l \<in> fst (ts ! i) \<Longrightarrow> l \<in> fst (ts ! j) \<Longrightarrow> i = j"
  shows "lock_inv (ts, s)"
  unfolding lock_inv.simps using assms by blast

declare lock_inv.simps [simp del]

lemma lock_inv_start: "(\<And>l. \<not> is_locked l s) \<Longrightarrow> lock_inv (start rs, s)"
  by (rule lock_invI) (auto intro!: exI [of _ None] disc_program)

text \<open>Thread \<open>i\<close> moves: it keeps its locks, takes a free one, or gives one back.\<close>

lemma lock_inv_update:
  assumes inv: "lock_inv (ts, s)" and i: "i < length ts"
    and k: "\<exists>l. H = set_option l \<and> disciplined l k None"
    and t: "\<And>l. is_locked l t \<longleftrightarrow> (if l \<in> fst (ts ! i) then l \<in> H else l \<in> H \<or> is_locked l s)"
    and new: "\<And>l. l \<in> H \<Longrightarrow> l \<in> fst (ts ! i) \<or> \<not> is_locked l s"
  shows "lock_inv (ts[i := (H, k)], t)"
proof (rule lock_invI)
  let ?ts = "ts[i := (H, k)]"
  note own = lock_invD(2) [OF inv] and excl = lock_invD(3) [OF inv]
  show "\<exists>l. fst (?ts ! j) = set_option l \<and> disciplined l (snd (?ts ! j)) None" if "j < length ?ts" for j
    using that lock_invD(1) [OF inv, of j] k by (cases "j = i") simp_all
  have old: "l \<notin> H" if "j < length ts" "j \<noteq> i" "l \<in> fst (ts ! j)" for j l
    using new [of l] own [of l] excl [OF that(1) i that(3)] that by blast
  show "j = j'" if "j < length ?ts" "j' < length ?ts" "l \<in> fst (?ts ! j)" "l \<in> fst (?ts ! j')" for j j' l
    using that old excl [of j j' l] by (cases "j = i"; cases "j' = i") auto
  show "is_locked l t \<longleftrightarrow> (\<exists>j<length ?ts. l \<in> fst (?ts ! j))" for l
  proof (cases "l \<in> fst (ts ! i)")
    case True
    then have "l \<notin> fst (ts ! j)" if "j < length ts" "j \<noteq> i" for j using excl [OF that(1) i] that by blast
    then have "(\<exists>j<length ?ts. l \<in> fst (?ts ! j)) \<longleftrightarrow> l \<in> H" using i by (auto simp: nth_list_update)
    with True t show ?thesis by simp
  next
    case False
    then have "is_locked l s \<longleftrightarrow> (\<exists>j<length ts. j \<noteq> i \<and> l \<in> fst (ts ! j))" using own by blast
    moreover have "(\<exists>j<length ?ts. l \<in> fst (?ts ! j)) \<longleftrightarrow> l \<in> H \<or> (\<exists>j<length ts. j \<noteq> i \<and> l \<in> fst (ts ! j))"
      using i by (auto simp: nth_list_update)
    ultimately show ?thesis using False t by simp
  qed
qed

lemma lock_inv_thread:
  assumes "lock_inv (ts, s)" and "i < length ts" and "ts ! i = (H, p)"
  obtains l where "H = set_option l" "disciplined l p None" "\<And>l. l \<in> H \<Longrightarrow> is_locked l s"
proof -
  have "is_locked l s" if "l \<in> H" for l using lock_invD(2) [OF assms(1)] assms(2,3) that by force
  with lock_invD(1) [OF assms(1,2)] assms(3) that show thesis by auto
qed

lemma lock_inv_step:
  assumes "pstep c c'" and "lock_inv c"
  shows "lock_inv c'"
  using assms
proof (induction rule: pstep.induct)
  case (atomic i ts H f s k t)
  from lock_inv_thread [OF atomic(4,1,2)] obtain l where
    l: "H = set_option l" "disciplined l (Atomic f) None" "\<And>l. l \<in> H \<Longrightarrow> is_locked l s" by metis
  from l(2) atomic(3) have "same_locks s t" "disciplined l k None" by (auto elim: disciplined_AtomicE)
  with l atomic(2) show ?case
    by (intro lock_inv_update [OF atomic(4,1)]) (auto simp: same_locks_def)
next
  case (acquire i ts H l k s)
  from lock_inv_thread [OF acquire(4,1,2)] obtain l1 where
    l1: "H = set_option l1" "disciplined l1 (Acquire l k) None" by metis
  then have "l1 = None" "disciplined (Some l) k None" by (auto elim: disciplined_AcquireE)
  with l1 acquire(2,3) show ?case
    by (intro lock_inv_update [OF acquire(4,1)]) (auto intro!: exI [of _ "Some l"])
next
  case (release i ts H l k s)
  from lock_inv_thread [OF release(3,1,2)] obtain l1 where
    l1: "H = set_option l1" "disciplined l1 (Release l k) None" by metis
  then have "l1 = Some l" "disciplined None k None" by (auto elim: disciplined_ReleaseE)
  with l1 release(2) show ?case
    by (intro lock_inv_update [OF release(3,1)]) (auto intro!: exI [of _ None])
qed

interpretation locks: pool_invariant lock_inv
  by unfold_locales (rule lock_inv_step)

text \<open>
  C13. Mutual exclusion: whatever operations run on whatever CPUs and however their steps interleave,
  no two of them hold the same spinlock, a spinlock is taken exactly if one of them holds it, only
  its holder releases it, and it is free when all have returned.
\<close>

theorem mutual_exclusion:
  assumes "\<And>l. \<not> is_locked l s" and "pstep\<^sup>*\<^sup>* (start rs, s) (ts, t)"
  shows "(\<forall>i<length ts. \<forall>j<length ts. \<forall>l. l \<in> fst (ts ! i) \<and> l \<in> fst (ts ! j) \<longrightarrow> i = j)
    \<and> (\<forall>l. is_locked l t \<longleftrightarrow> (\<exists>i<length ts. l \<in> fst (ts ! i)))
    \<and> (\<forall>i<length ts. \<forall>l k. snd (ts ! i) = Release l k \<longrightarrow> l \<in> fst (ts ! i))
    \<and> (returned (ts, t) \<longrightarrow> (\<forall>l. \<not> is_locked l t))"
proof -
  have inv: "lock_inv (ts, t)" by (rule locks.always [OF assms(2) lock_inv_start [OF assms(1)]])
  have ret: "fst (ts ! i) = {}" if "i < length ts" "ts ! i = (H, Return x)" for i H x
    using lock_inv_thread [OF inv that] that(2) by (auto elim: disciplined_ReturnE)
  have rel: "l \<in> fst (ts ! i)" if "i < length ts" "snd (ts ! i) = Release l k" for i l k
    using lock_invD(1) [OF inv that(1)] that(2) by (auto elim: disciplined_ReleaseE)
  have "\<not> is_locked l t" if "returned (ts, t)" for l
    using that ret lock_invD(2) [OF inv] by fastforce
  with rel show ?thesis using lock_invD(2,3) [OF inv] by blast
qed

section \<open>Progress\<close>

definition next_prog :: "('a prog \<times> 'a prog) set" where
  "next_prog = {(k, p). (\<exists>f s t. p = Atomic f \<and> f s = Inr (k, t)) \<or> (\<exists>l. p = Acquire l k) \<or> (\<exists>l. p = Release l k)}"

lemma wf_next_prog: "wf next_prog"
proof (rule wfUNIVI)
  fix P :: "'a prog \<Rightarrow> bool" and p
  assume step: "\<forall>x. (\<forall>y. (y, x) \<in> next_prog \<longrightarrow> P y) \<longrightarrow> P x"
  show "P p"
  proof (induction p)
    case (Return x)
    show ?case by (rule step [rule_format]) (simp add: next_prog_def)
  next
    case (Atomic f)
    have "P k" if "f s = Inr (k, t)" for k s t
      by (rule Atomic [OF rangeI [of f s], of "(k, t)"]) (simp_all add: that)
    then show ?case by - (rule step [rule_format], auto simp: next_prog_def)
  next
    case (Acquire l p)
    then show ?case by - (rule step [rule_format], auto simp: next_prog_def)
  next
    case (Release l p)
    then show ?case by - (rule step [rule_format], auto simp: next_prog_def)
  qed
qed

lemma listrel1_thread:
  assumes "i < length ts" and "(k, snd (ts ! i)) \<in> next_prog"
  shows "(map snd (ts[i := (H, k)]), map snd ts) \<in> listrel1 next_prog"
proof -
  have "map snd ts = (map snd (ts[i := (H, k)]))[i := snd (ts ! i)]"
    using assms(1) by (simp add: map_update) (metis list_update_id nth_map)
  then show ?thesis using assms by (auto simp: listrel1_iff_update intro!: exI [of _ "snd (ts ! i)"] exI [of _ i])
qed

lemma pstep_decreases: "pstep c c' \<Longrightarrow> (map snd (fst c'), map snd (fst c)) \<in> listrel1 next_prog"
  by (induction rule: pstep.induct; simp only: fst_conv; rule listrel1_thread)
    (auto simp: next_prog_def)

lemma pstep_wf: "wf {(c', c). pstep c c'}"
proof (rule wf_subset)
  show "wf (inv_image (listrel1 next_prog) (\<lambda>c. map snd (fst c)))"
    by (simp add: wf_next_prog)
  show "{(c', c). pstep c c'} \<subseteq> inv_image (listrel1 next_prog) (\<lambda>c. map snd (fst c))"
    using pstep_decreases by auto
qed

text \<open>A thread that holds a lock is never blocked, so whoever is blocked waits for one that is not.\<close>

lemma unblocked_moves:
  assumes "i < length ts" and "\<And>x. snd (ts ! i) \<noteq> Return x"
    and "\<And>l k. snd (ts ! i) = Acquire l k \<Longrightarrow> \<not> is_locked l s"
  shows "(\<exists>c. pstep (ts, s) c) \<or> (\<exists>e. crashes (ts, s) e)"
proof -
  obtain H p where ip: "ts ! i = (H, p)" by (cases "ts ! i")
  show ?thesis
  proof (cases p)
    case (Return x)
    with assms(2) [of x] ip show ?thesis by simp
  next
    case (Atomic f)
    show ?thesis
    proof (cases "f s")
      case (Inl e)
      with ip Atomic assms(1) show ?thesis by (auto intro: crashes.intros)
    next
      case (Inr x)
      with ip Atomic assms(1) pstep.atomic [of i ts H f s "fst x" "snd x"] show ?thesis by auto
    qed
  next
    case (Acquire l k)
    with ip assms(1,3) show ?thesis by (auto intro: pstep.acquire)
  next
    case (Release l k)
    with ip assms(1) show ?thesis by (auto intro: pstep.release)
  qed
qed

lemma never_stuck:
  assumes inv: "lock_inv (ts, s)" and "\<not> returned (ts, s)"
  shows "(\<exists>c. pstep (ts, s) c) \<or> (\<exists>e. crashes (ts, s) e)"
proof -
  from assms(2) obtain i where i: "i < length ts" "\<And>x. snd (ts ! i) \<noteq> Return x"
    by (auto simp: prod_eq_iff)
  show ?thesis
  proof (cases "\<exists>l k. snd (ts ! i) = Acquire l k \<and> is_locked l s")
    case True
    then obtain j l where j: "j < length ts" "l \<in> fst (ts ! j)" using lock_invD(2) [OF inv] by blast
    with lock_invD(1) [OF inv j(1)] have "disciplined (Some l) (snd (ts ! j)) None"
      by auto
    then show ?thesis
      by (intro unblocked_moves [OF j(1)]) (auto elim: disciplined_ReturnE disciplined_AcquireE)
  next
    case False
    with i show ?thesis by (intro unblocked_moves) blast+
  qed
qed

text \<open>
  C14. No deadlock: whatever operations run on whatever CPUs and however their steps interleave, a
  thread holds at most one lock, and none while it has returned or waits for one; a thread that is
  blocked at a lock waits for another one whose next step is neither a return nor a wait, so no two
  operations ever wait for each other; and unless all have returned, some thread makes a step or
  faults. (A walk along a cyclic list counts as a fault here: the locks do not exclude that.)
\<close>

theorem no_deadlock:
  assumes "\<And>l. \<not> is_locked l s" and "pstep\<^sup>*\<^sup>* (start rs, s) (ts, t)"
  shows "(\<forall>i<length ts. \<forall>l\<in>fst (ts ! i). fst (ts ! i) = {l}
          \<and> (\<forall>x. snd (ts ! i) \<noteq> Return x) \<and> (\<forall>l' k. snd (ts ! i) \<noteq> Acquire l' k))
    \<and> (\<forall>i<length ts. \<forall>l k. snd (ts ! i) = Acquire l k \<and> is_locked l t \<longrightarrow>
          (\<exists>j<length ts. j \<noteq> i \<and> l \<in> fst (ts ! j)
            \<and> (\<forall>x. snd (ts ! j) \<noteq> Return x) \<and> (\<forall>l' k'. snd (ts ! j) \<noteq> Acquire l' k')))
    \<and> (returned (ts, t) \<or> (\<exists>c. pstep (ts, t) c) \<or> (\<exists>e. crashes (ts, t) e))"
proof -
  have inv: "lock_inv (ts, t)" by (rule locks.always [OF assms(2) lock_inv_start [OF assms(1)]])
  have holds: "fst (ts ! i) = {l} \<and> (\<forall>x. snd (ts ! i) \<noteq> Return x) \<and> (\<forall>l' k. snd (ts ! i) \<noteq> Acquire l' k)"
    if "i < length ts" "l \<in> fst (ts ! i)" for i l
    using lock_invD(1) [OF inv that(1)] that(2)
    by (auto elim: disciplined_ReturnE disciplined_AcquireE)
  have wait: "\<exists>j<length ts. j \<noteq> i \<and> l \<in> fst (ts ! j)"
    if "i < length ts" "snd (ts ! i) = Acquire l k" "is_locked l t" for i l k
    using lock_invD(2) [OF inv, of l] holds that by metis
  have "returned (ts, t) \<or> (\<exists>c. pstep (ts, t) c) \<or> (\<exists>e. crashes (ts, t) e)"
    using never_stuck [OF inv] by blast
  with holds wait show ?thesis by blast
qed

end
