(* ===== verification/Cache_Race.thy ===== *)
theory Cache_Race
  imports Cache_Interleaved
begin

text \<open>
  The sequential runs of \<open>Cache_Run\<close> are interleavings of its operations as threads; and two lookups, each
  harmless on its own, that write through a poisoned link when they overlap.
\<close>

section \<open>Sequences of complete operations\<close>

text \<open>A part of a thread that is not interrupted runs to its end.\<close>

lemma uninterrupted_part:
  "run p s = Inr (x, t) \<Longrightarrow> disciplined l p l' \<Longrightarrow> i < length ts \<Longrightarrow>
     pstep\<^sup>*\<^sup>* (ts[i := (set_option l, pbind p g)], s) (ts[i := (set_option l', g x)], t)"
proof (induction p arbitrary: s l)
  case (Return y)
  then show ?case by (auto elim: disciplined_ReturnE)
next
  case (Atomic f)
  let ?f = "\<lambda>s. map_sum id (map_prod (\<lambda>p. pbind p g) id) (f s)"
  from Atomic obtain k u where k: "f s = Inr (k, u)" "run k u = Inr (x, t)" by (cases "f s") auto
  then have d: "disciplined l k l'" using Atomic.prems(2) by (auto elim: disciplined_AtomicE)
  have "pstep (ts[i := (set_option l, Atomic ?f)], s) (ts[i := (set_option l, pbind k g)], u)"
    using pstep.atomic [of i "ts[i := (set_option l, Atomic ?f)]" "set_option l" ?f s "pbind k g" u]
      Atomic.prems(3) k(1) by simp
  moreover have "pstep\<^sup>*\<^sup>* (ts[i := (set_option l, pbind k g)], u) (ts[i := (set_option l', g x)], t)"
    by (rule Atomic.IH [OF rangeI [of f s], of "(k, u)"]) (simp_all add: k d Atomic.prems(3))
  ultimately show ?case by (simp add: converse_rtranclp_into_rtranclp)
next
  case (Acquire l0 p)
  then have k: "\<not> is_locked l0 s" "run p (set_lock l0 True s) = Inr (x, t)" by (auto split: if_splits)
  from Acquire.prems(2) have d: "l = None" "disciplined (Some l0) p l'" by (auto elim: disciplined_AcquireE)
  have "pstep (ts[i := ({}, Acquire l0 (pbind p g))], s) (ts[i := ({l0}, pbind p g)], set_lock l0 True s)"
    using pstep.acquire [of i "ts[i := ({}, Acquire l0 (pbind p g))]" "{}" l0 "pbind p g" s] Acquire.prems(3) k(1) by simp
  moreover have "pstep\<^sup>*\<^sup>* (ts[i := ({l0}, pbind p g)], set_lock l0 True s) (ts[i := (set_option l', g x)], t)"
    using Acquire.IH [OF k(2) d(2) Acquire.prems(3)] by simp
  ultimately show ?case by (simp add: d(1) converse_rtranclp_into_rtranclp)
next
  case (Release l0 p)
  then have k: "run p (set_lock l0 False s) = Inr (x, t)" by simp
  from Release.prems(2) have d: "l = Some l0" "disciplined None p l'" by (auto elim: disciplined_ReleaseE)
  have "pstep (ts[i := ({l0}, Release l0 (pbind p g))], s) (ts[i := ({}, pbind p g)], set_lock l0 False s)"
    using pstep.release [of i "ts[i := ({l0}, Release l0 (pbind p g))]" "{l0}" l0 "pbind p g" s] Release.prems(3) by simp
  moreover have "pstep\<^sup>*\<^sup>* (ts[i := ({}, pbind p g)], set_lock l0 False s) (ts[i := (set_option l', g x)], t)"
    using Release.IH [OF k d(2) Release.prems(3)] by simp
  ultimately show ?case by (simp add: d(1) converse_rtranclp_into_rtranclp)
qed

lemma pbind_Return: "pbind p Return = p"
proof (induction p)
  case (Atomic f)
  have "map_sum id (map_prod (\<lambda>p. pbind p Return) id) (f s) = f s" for s
  proof (cases "f s")
    case (Inr x)
    obtain k t where x: "x = (k, t)" by (cases x)
    have "pbind k Return = k" by (rule Atomic [OF rangeI [of f s], of x]) (simp_all add: Inr x)
    then show ?thesis by (simp add: Inr x)
  qed simp
  then show ?case by simp
qed simp_all

lemma uninterrupted:
  assumes "run p s = Inr (x, t)" and "disciplined l p l'" and "i < length ts"
  shows "pstep\<^sup>*\<^sup>* (ts[i := (set_option l, p)], s) (ts[i := (set_option l', Return x)], t)"
  using uninterrupted_part [OF assms, of Return] by (simp add: pbind_Return)

definition finished :: "reply list \<Rightarrow> reply thread list" where
  "finished ys = map (\<lambda>y. ({}, Return y)) ys"

text \<open>The runs of \<open>Cache_Run\<close>, one complete operation after the other, are interleavings.\<close>

lemma sequential_interleaving:
  "perform_all rs s = Inr (ys, t) \<Longrightarrow>
     pstep\<^sup>*\<^sup>* (finished zs @ start rs, s) (finished (zs @ ys), t)"
proof (induction rs arbitrary: s zs ys)
  case Nil
  then show ?case by (simp add: start_def)
next
  case (Cons r rs)
  then obtain y u ys' where y: "perform r s = Inr (y, u)" and ys: "perform_all rs u = Inr (ys', t)" "ys = y # ys'"
    by (auto simp: rbind_Inr_iff)
  let ?ts = "finished zs @ start (r # rs)"
  have i: "length zs < length ?ts" by (simp add: finished_def)
  have "run (program r) s = Inr (y, u)" using y by (simp add: run_program)
  from uninterrupted [OF this disc_program i]
  have "pstep\<^sup>*\<^sup>* (?ts, s) (finished (zs @ [y]) @ start rs, u)"
    by (simp add: finished_def start_def list_update_append)
  also have "pstep\<^sup>*\<^sup>* \<dots> (finished ((zs @ [y]) @ ys'), t)" by (rule Cons.IH [OF ys(1)])
  finally show ?case by (simp add: ys(2))
qed

section \<open>Two lookups\<close>

lemma pbind_assoc: "pbind (pbind p g) h = pbind p (\<lambda>x. pbind (g x) h)"
proof (induction p)
  case (Atomic f)
  have "map_sum id (map_prod (\<lambda>p. pbind p h) id) (map_sum id (map_prod (\<lambda>p. pbind p g) id) (f s))
    = map_sum id (map_prod (\<lambda>p. pbind p (\<lambda>x. pbind (g x) h)) id) (f s)" for s
  proof (cases "f s")
    case (Inr x)
    obtain k t where x: "x = (k, t)" by (cases x)
    have "pbind (pbind k g) h = pbind k (\<lambda>x. pbind (g x) h)"
      by (rule Atomic [OF rangeI [of f s], of x]) (simp_all add: Inr x)
    then show ?thesis by (simp add: Inr x)
  qed simp
  then show ?case by simp
qed simp_all

lemma thread_fetch:
  assumes "i < length ts" and "ts ! i = (H, pbind (fetch f) g)" and "f s = Inr (x, t)"
  shows "pstep (ts, s) (ts[i := (H, g x)], t)"
  using pstep.atomic [of i ts H "\<lambda>s. map_sum id (map_prod (\<lambda>p. pbind p g) id) (map_sum id (map_prod Return id) (f s))"
      s "g x" t] assms by (simp add: fetch_def)

lemma thread_crash:
  assumes "i < length ts" and "ts ! i = (H, pbind (act f) g)" and "f s = Inl e"
  shows "crashes (ts, s) e"
proof (rule crashes.intros)
  let ?f = "\<lambda>s. map_sum id (map_prod (\<lambda>p. pbind p g) id) (map_sum id (map_prod Return id)
    (rbind (f s) (\<lambda>t. Inr ((), t))))"
  show "i < length ts" by (rule assms(1))
  show "ts ! i = (H, Atomic ?f)" using assms(2) by (simp add: act_def fetch_def)
  show "?f s = Inl e" by (simp add: assms(3))
qed

lemmas thread_ask = thread_fetch [of _ _ _ "\<lambda>s. rbind (f s) (\<lambda>x. Inr (x, s))" for f, folded ask_def]
lemmas thread_act = thread_fetch [of _ _ _ "\<lambda>s. rbind (f s) (\<lambda>t. Inr ((), t))" for f, folded act_def]

lemma thread_acquire:
  assumes "i < length ts" and "ts ! i = (H, pbind (acquire l) g)" and "\<not> is_locked l s"
  shows "pstep (ts, s) (ts[i := (insert l H, g ())], set_lock l True s)"
  using pstep.acquire [of i ts H l "g ()" s] assms by (simp add: acquire_def)

text \<open>
  A lookup that misses in L2 and finds \<open>p\<close> in L3, up to the removal of \<open>p\<close> from the list it is on.
\<close>

definition after_delete :: "env \<Rightarrow> u64 \<Rightarrow> ptr \<Rightarrow> reply prog" where
  "after_delete v fp p =
     (let h = L2Head (cpu v) (l2_index fp) in
      pbind (act (hlist_add_head_rcu p h)) (\<lambda>_.
      pbind (release (BucketLock h)) (\<lambda>_.
      pbind (act (\<lambda>s. Inr (upd_stats (cpu v) (\<lambda>st. st\<lparr>l3_hits := l3_hits st + 1\<rparr>) s))) (\<lambda>_.
      ask (\<lambda>s. Inr (Hit (read_reply s p)))))))"

definition before_delete :: "env \<Rightarrow> u64 \<Rightarrow> ptr \<Rightarrow> reply prog" where
  "before_delete v fp p = pbind (act (hlist_del_rcu p)) (\<lambda>_. after_delete v fp p)"

lemma lookup_reaches_delete:
  assumes i: "i < length ts" "ts ! i = ({}, program (Lookup v fp m))"
    and "lookup_l2 v (cpu v) fp m s = Inr (NULL, s)" and "lookup_l3 v fp m s = Inr p" and "p \<noteq> NULL"
    and free: "\<not> is_locked (BucketLock (L2Head (cpu v) (l2_index fp))) s"
  shows "pstep\<^sup>*\<^sup>* (ts, s) (ts[i := ({BucketLock (L2Head (cpu v) (l2_index fp))}, before_delete v fp p)],
    set_lock (BucketLock (L2Head (cpu v) (l2_index fp))) True s)"
proof -
  let ?l = "BucketLock (L2Head (cpu v) (l2_index fp))"
  let ?g = "\<lambda>p.
      pbind (if p \<noteq> NULL
         then pbind (promote_steps (cpu v) p fp) (\<lambda>_.
              pbind (act (\<lambda>s. Inr (upd_stats (cpu v) (\<lambda>st. st\<lparr>l3_hits := l3_hits st + 1\<rparr>) s))) (\<lambda>_.
              Return p))
         else pbind (act (\<lambda>s. Inr (upd_stats (cpu v) (\<lambda>st. st\<lparr>misses := misses st + 1\<rparr>) s))) (\<lambda>_.
              Return NULL)) (\<lambda>p. ask (\<lambda>s. Inr (Hit (read_reply s p))))"
  let ?p2 = "pbind (ask (lookup_l3 v fp m)) ?g"
  let ?p3 = "pbind (acquire ?l) (\<lambda>_. before_delete v fp p)"
  have "pstep (ts, s) (ts[i := ({}, ?p2)], s)"
    using thread_fetch [OF i(1) i(2) [unfolded program.simps lookup_steps_def pbind_assoc] assms(3)]
    by (simp add: pbind_assoc)
  moreover have "pstep (ts[i := ({}, ?p2)], s) (ts[i := ({}, ?p3)], s)"
  proof -
    have "?g p = ?p3"
      using assms(5) by (simp add: pbind_assoc promote_steps_def before_delete_def after_delete_def Let_def)
    moreover have "pstep (ts[i := ({}, ?p2)], s) (ts[i := ({}, ?p2), i := ({}, ?g p)], s)"
      by (rule thread_ask [where f = "lookup_l3 v fp m"]) (simp_all add: i(1) assms(4))
    ultimately show ?thesis by (simp only: list_update_overwrite)
  qed
  moreover have "pstep (ts[i := ({}, ?p3)], s) (ts[i := ({?l}, before_delete v fp p)], set_lock ?l True s)"
    using thread_acquire [of i "ts[i := ({}, ?p3)]" "{}" ?l "\<lambda>_. before_delete v fp p" s] i(1) free by simp
  ultimately show ?thesis by (meson converse_rtranclp_into_rtranclp r_into_rtranclp)
qed

lemma set_lock_views [simp]:
  "ent (set_lock l b s) = ent s" "hfirst (set_lock l b s) = hfirst s" "entries (set_lock l b s) = entries s"
  "caches (set_lock l b s) = caches s" "l3_tables (set_lock l b s) = l3_tables s"
  "num_sockets (set_lock l b s) = num_sockets s"
  by (cases l; simp add: set_lock.simps frame_simps)+

lemma unlock_unlocked:
  assumes "\<not> is_locked (BucketLock h) s"
  shows "set_lock (BucketLock h) False s = s"
proof -
  have "(bucket_at s h)\<lparr>lock := False\<rparr> = bucket_at s h" using assms by (simp add: is_locked.simps)
  then show ?thesis by (simp add: set_lock.simps put_bucket_same)
qed

text \<open>Two threads have found the only entry of a list and are about to unlink it.\<close>

lemma second_delete_crashes:
  assumes "hlist s h [p]" and "p \<noteq> NULL" and i: "i < length ts" "ts ! i = (H, before_delete w fp p)"
    and j: "j < length ts" "ts ! j = (G, before_delete x fp p)" and "i \<noteq> j"
  shows "\<exists>q. pstep (ts, s) q \<and> crashes q PoisonAccess"
proof -
  have "hlist s h ([] @ p # [])" using assms(1) by simp
  from hlist_del_spec [OF this] obtain t e where
    t: "hlist_del_rcu p s = Inr t" "ent t p = Some (e\<lparr>node_pprev := LPoison2\<rparr>)" by blast
  let ?q = "(ts[i := (H, after_delete w fp p)], t)"
  have "pstep (ts, s) ?q"
    by (rule thread_act [where f = "hlist_del_rcu p"]) (simp_all add: i before_delete_def t(1))
  moreover have "crashes ?q PoisonAccess"
  proof (rule thread_crash)
    show "ts[i := (H, after_delete w fp p)] ! j = (G, pbind (act (hlist_del_rcu p)) (\<lambda>_. after_delete x fp p))"
      using j(2) assms(7) by (simp add: before_delete_def)
    show "hlist_del_rcu p t = Inl PoisonAccess" using t(2) assms(2) by (simp add: hlist_del_rcu_def)
  qed (simp add: j(1))
  ultimately show ?thesis by blast
qed

text \<open>What a lookup on another CPU of the node sees after a store, whatever locks are taken.\<close>

lemma found_in_l3:
  assumes one: "one_entry k (l2_index fp) (l3_index fp) p s" and e: "ent s p = Some e" "live_match fp m (jiffies y) e"
    and st: "caches s \<noteq> NULL" "l3_tables s \<noteq> NULL" "0 < num_sockets s" and y: "cpu y \<noteq> k" "node y = 0" and "p \<noteq> NULL"
  shows "lookup_l2 y (cpu y) fp m (set_lock l b s) = Inr (NULL, set_lock l b s)"
    "lookup_l3 y fp m (set_lock l b s) = Inr p"
proof -
  have h: "hlist s (L3Head 0 (l3_index fp)) [p]" "hfirst s (L2Head (cpu y) (l2_index fp)) = NULL"
    using one y(1) by (auto simp: one_entry_def simp del: bucket_at.simps)
  then show "lookup_l2 y (cpu y) fp m (set_lock l b s) = Inr (NULL, set_lock l b s)"
    using st(1) by (simp add: lookup_l2_def fuel_def)
  have "hfirst s (L3Head 0 (l3_index fp)) = p" using h(1) by (auto simp: hlist_def dest: dlist_first)
  moreover have "hlist_find (fuel (set_lock l b s)) (live_match fp m (jiffies y)) (set_lock l b s) p = Inr p"
    by (rule hlist_find_first [where e = e]) (simp_all add: e assms(9))
  ultimately show "lookup_l3 y fp m (set_lock l b s) = Inr p"
    using y(2) st by (simp add: lookup_l3_def l3_socket_def Let_def)
qed

lemma lookups_in_sequence:
  assumes "small_store v d len" and "cpu w \<noteq> cpu v" and "cpu x \<noteq> cpu v" and "cpu x \<noteq> cpu w" and "node w = 0" and "node x = 0"
    and "c \<noteq> NULL" and "t3 \<noteq> NULL" and "0 < n"
    and "time_before (jiffies w) (jiffies v + msecs_to_jiffies v 1000)"
    and "time_before (jiffies x) (jiffies v + msecs_to_jiffies v 1000)"
    and s: "store_result v fp (Some d) len m (fresh_cache c t3 n) = Inr (0, s)"
  shows "\<exists>ys t. perform_all [Lookup w fp m, Lookup x fp m] s = Inr (ys, t)"
proof -
  let ?run = "perform_all [Store v fp (Some d) len m, Lookup w fp m, Lookup x fp m] (fresh_cache c t3 n)"
  have "\<not> isl ?run" using promotion_moves [OF assms(1-11), of fp m] by (cases ?run) (auto simp: Let_def)
  then show ?thesis using s by (cases "perform_all [Lookup w fp m, Lookup x fp m] s") auto
qed

text \<open>
  C11. Two lookups are enough to crash: a small result is in the cache, stored on one CPU, and two other
  CPUs of the node look it up. One after the other, in either order, the lookups succeed. But the
  two take different locks before they unlink the entry from the L3 list, so they can both have
  found it there before the first unlinks it; if the second unlinks it next, it writes through
  the list poison.
\<close>

theorem concurrent_lookups_crash:
  assumes "small_store v d len" and "c \<noteq> NULL" and "t3 \<noteq> NULL" and "0 < n"
    and "distinct [cpu v, cpu w, cpu x]" and "node w = 0" and "node x = 0"
    and "time_before (jiffies w) (jiffies v + msecs_to_jiffies v 1000)"
    and "time_before (jiffies x) (jiffies v + msecs_to_jiffies v 1000)"
  shows "\<exists>s. store_result v fp (Some d) len m (fresh_cache c t3 n) = Inr (0, s)
    \<and> (\<exists>ys t. perform_all [Lookup w fp m, Lookup x fp m] s = Inr (ys, t))
    \<and> (\<exists>ys t. perform_all [Lookup x fp m, Lookup w fp m] s = Inr (ys, t))
    \<and> (\<exists>q. pstep\<^sup>*\<^sup>* (start [Lookup w fp m, Lookup x fp m], s) q \<and> crashes q PoisonAccess)"
proof -
  let ?p = "kzalloc_ret v" and ?ts = "start [Lookup w fp m, Lookup x fp m]"
  let ?lw = "BucketLock (L2Head (cpu w) (l2_index fp))" and ?lx = "BucketLock (L2Head (cpu x) (l2_index fp))"
  from first_store [OF assms(1-4), of fp m] obtain s and e :: kcr_entry where
    s: "store_result v fp (Some d) len m (fresh_cache c t3 n) = Inr (0, s)"
    and one: "one_entry (cpu v) (l2_index fp) (l3_index fp) ?p s"
    and e: "ent s ?p = Some e" "fingerprint e = fp" "mm e = m"
      "expiry_jiffies e = jiffies v + msecs_to_jiffies v 1000"
    and st: "caches s \<noteq> NULL" "l3_tables s \<noteq> NULL" "0 < num_sockets s" using assms(2-4) by blast
  have p: "?p \<noteq> NULL" using assms(1) by (simp add: small_store_def)
  have cpus: "cpu w \<noteq> cpu v" "cpu x \<noteq> cpu v" "cpu w \<noteq> cpu x" "cpu x \<noteq> cpu w" using assms(5) by auto
  have lk: "\<not> is_locked (BucketLock h) s" for h
    using one by (auto simp: one_entry_def is_locked.simps simp del: bucket_at.simps)
  have live: "live_match fp m (jiffies w) e" "live_match fp m (jiffies x) e"
    using e(2-4) assms(8,9) by (simp_all add: live_match_def)
  note seen = found_in_l3 [OF one e(1) _ st _ _ p]
  let ?s1 = "set_lock ?lw True s" and ?t1 = "?ts[0 := ({?lw}, before_delete w fp ?p)]"
  let ?s2 = "set_lock ?lx True ?s1" and ?t2 = "?ts[0 := ({?lw}, before_delete w fp ?p), 1 := ({?lx}, before_delete x fp ?p)]"
  have "pstep\<^sup>*\<^sup>* (?ts, s) (?t1, ?s1)"
    using seen(1,2) [OF live(1) cpus(1) assms(6), of ?lw False] lk p
    by (intro lookup_reaches_delete) (simp_all add: unlock_unlocked)
  moreover have "pstep\<^sup>*\<^sup>* (?t1, ?s1) (?t2, ?s2)"
    using seen(1,2) [OF live(2) cpus(2) assms(7), of ?lw True] lk p cpus(3) by (intro lookup_reaches_delete) simp_all
  ultimately have two: "pstep\<^sup>*\<^sup>* (?ts, s) (?t2, ?s2)" by (rule rtranclp_trans)
  have "hlist ?s2 (L3Head 0 (l3_index fp)) [?p]"
    using one by (simp add: one_entry_def hlist_def del: bucket_at.simps)
  then have "\<exists>q. pstep (?t2, ?s2) q \<and> crashes q PoisonAccess"
    by (rule second_delete_crashes [of _ _ _ 0 ?t2 "{?lw}" w fp 1 "{?lx}" x]) (simp_all add: p)
  with two have race: "\<exists>q. pstep\<^sup>*\<^sup>* (?ts, s) q \<and> crashes q PoisonAccess" by (meson rtranclp.rtrancl_into_rtrancl)
  show ?thesis
    using s race lookups_in_sequence [OF assms(1) cpus(1,2,4) assms(6,7,2-4,8,9) s]
      lookups_in_sequence [OF assms(1) cpus(2,1,3) assms(7,6,2-4,9,8) s] by (intro exI [of _ s] conjI)
qed

section \<open>Concrete instances\<close>

lemma fresh_unlocked: "\<not> is_locked l (fresh_cache c t n)"
proof (cases l)
  case (BucketLock h)
  then show ?thesis by (cases h) (simp_all add: is_locked.simps fresh_cache_def)
qed (simp add: is_locked.simps fresh_cache_def)

theorem mutual_exclusion_witness:
  "\<exists>ys t. pstep\<^sup>*\<^sup>* (start demo_requests, fresh_cache 16 32 1) (finished ys, t) \<and> (\<forall>l. \<not> is_locked l t)"
proof -
  have "simulates (ctx 0 0 0 0) {5, 6} (fresh_cache 16 32 1) (\<lambda>_. [])"
    by (rule fresh_simulates) (simp_all add: ctx_simps)
  from simulates_run [OF this demo_quiet] obtain ys t where
    "perform_all demo_requests (fresh_cache 16 32 1) = Inr (ys, t)" by blast
  from sequential_interleaving [OF this, of "[]"]
  have run: "pstep\<^sup>*\<^sup>* (start demo_requests, fresh_cache 16 32 1) (finished ys, t)"
    by (simp add: finished_def)
  have "returned (finished ys, t)" by (simp add: finished_def)
  with mutual_exclusion [OF fresh_unlocked run] run show ?thesis by blast
qed

text \<open>Two invalidations on one CPU: the second is blocked at the lock of the first L2 bucket.\<close>

lemma invalidate_first_lock:
  "\<exists>k. program (Invalidate v m a b) = pbind check_caches (\<lambda>_. Acquire (BucketLock (L2Head (cpu v) 0)) k)"
proof -
  have "[0..<KCR_L2_ENTRIES] = 0 # [1..<KCR_L2_ENTRIES]" by (simp add: upt_conv_Cons KCR_L2_ENTRIES_def)
  then show ?thesis
    by (simp add: invalidate_steps_def pbind_assoc flush_steps_def acquire_def) (rule exI, rule refl)
qed

theorem no_deadlock_witness:
  "\<exists>ts t l k. pstep\<^sup>*\<^sup>* (start [Invalidate (ctx 0 100 0 0) 4096 0 1, Invalidate (ctx 0 100 0 0) 8192 0 1],
       fresh_cache 16 32 1) (ts, t)
     \<and> snd (ts ! 1) = Acquire l k \<and> is_locked l t \<and> fst (ts ! 0) = {l}"
proof -
  let ?v = "ctx 0 100 0 0" and ?s = "fresh_cache 16 32 1"
  let ?l = "BucketLock (L2Head (cpu ?v) 0)"
  obtain k0 k1 where k: "program (Invalidate ?v 4096 0 1) = pbind check_caches (\<lambda>_. Acquire ?l k0)"
    "program (Invalidate ?v 8192 0 1) = pbind check_caches (\<lambda>_. Acquire ?l k1)"
    using invalidate_first_lock by metis
  let ?check = "\<lambda>k. pbind check_caches (\<lambda>_. Acquire ?l k)"
  have check: "\<exists>f. ?check k = Atomic f \<and> f ?s = Inr (Acquire ?l k, ?s)" for k :: "reply prog"
    by (simp add: check_caches_def ask_def fetch_def fresh_cache_def)
  let ?rs = "[Invalidate ?v 4096 0 1, Invalidate ?v 8192 0 1]"
  have st: "start ?rs = [({}, ?check k0), ({}, ?check k1)]" by (simp add: start_def k del: program.simps)
  from check obtain f0 f1 where f: "?check k0 = Atomic f0" "f0 ?s = Inr (Acquire ?l k0, ?s)"
    "?check k1 = Atomic f1" "f1 ?s = Inr (Acquire ?l k1, ?s)" by metis
  have 1: "pstep (start ?rs, ?s) ([({}, Acquire ?l k0), ({}, ?check k1)], ?s)"
    using pstep.atomic [of 0 "start ?rs" "{}" f0 ?s "Acquire ?l k0" ?s] f by (simp add: st)
  have 2: "pstep ([({}, Acquire ?l k0), ({}, ?check k1)], ?s) ([({}, Acquire ?l k0), ({}, Acquire ?l k1)], ?s)"
    using pstep.atomic [of 1 "[({}, Acquire ?l k0), ({}, ?check k1)]" "{}" f1 ?s "Acquire ?l k1" ?s] f by simp
  have 3: "pstep ([({}, Acquire ?l k0), ({}, Acquire ?l k1)], ?s)
      ([({?l}, k0), ({}, Acquire ?l k1)], set_lock ?l True ?s)"
    using pstep.acquire [of 0 "[({}, Acquire ?l k0), ({}, Acquire ?l k1)]" "{}" ?l k0 ?s] fresh_unlocked by simp
  let ?ts = "[({?l}, k0), ({}, Acquire ?l k1)]" and ?t = "set_lock ?l True ?s"
  from 1 2 3 have run: "pstep\<^sup>*\<^sup>* (start ?rs, ?s) (?ts, ?t)"
    by (meson rtranclp.rtrancl_refl rtranclp.rtrancl_into_rtrancl)
  have i: "1 < length ?ts" "snd (?ts ! 1) = Acquire ?l k1" "is_locked ?l ?t" by simp_all
  note nd = no_deadlock [OF fresh_unlocked run]
  from nd [THEN conjunct2, THEN conjunct1, rule_format, OF i(1), of ?l k1] i(2,3) obtain j where
    j: "j < length ?ts" "?l \<in> fst (?ts ! j)" by blast
  from nd [THEN conjunct1, rule_format, OF j] have "fst (?ts ! j) = {?l}" by (rule conjunct1)
  with j have "fst (?ts ! 0) = {?l}" by (auto simp: less_Suc_eq)
  with run i(2,3) show ?thesis by (intro exI [of _ ?ts] exI [of _ ?t] exI [of _ ?l] exI [of _ k1]) simp
qed

theorem concurrent_lookups_crash_witness:
  "\<exists>s. store_result (ctx 0 100 32 0) 5 (Some [7, 8]) 2 4096 (fresh_cache 16 32 1) = Inr (0, s)
     \<and> (\<exists>q. pstep\<^sup>*\<^sup>* (start [Lookup (ctx 1 110 0 0) 5 4096, Lookup (ctx 2 120 0 0) 5 4096], s) q
       \<and> crashes q PoisonAccess)"
proof -
  have st: "small_store (ctx 0 100 32 0) [7, 8] 2" by (rule ctx_small_store) simp
  have "time_before 110 350" "time_before 120 350" by code_simp+
  then have
    "time_before (jiffies (ctx 1 110 0 0)) (jiffies (ctx 0 100 32 0) + msecs_to_jiffies (ctx 0 100 32 0) 1000)"
    "time_before (jiffies (ctx 2 120 0 0)) (jiffies (ctx 0 100 32 0) + msecs_to_jiffies (ctx 0 100 32 0) 1000)"
    by (simp_all add: ctx_def)
  from concurrent_lookups_crash [OF st _ _ _ _ _ _ this, of 16 32 1 5 4096]
  show ?thesis by (simp add: ctx_simps) blast
qed

end
