(* ===== verification/Cache_Preempted.thy ===== *)
theory Cache_Preempted
  imports Cache_Race
begin

text \<open>
  Operations of one CPU that preempt each other. One after the other they are correct on the quiet
  workload, but \<open>store_result\<close> gives back the lock of the L2 bucket before it takes that of the L3
  bucket, and publishes the entry in between.
\<close>

section \<open>The two halves of a store\<close>

definition second_half :: "env \<Rightarrow> u64 \<Rightarrow> ptr \<Rightarrow> reply prog" where
  "second_half v fp p =
     pbind (ask (l3_socket v)) (\<lambda>i. pbind (replace_steps (L3Head i (l3_index fp)) p fp) (\<lambda>_. Return (Code 0)))"

lemma store_first_half:
  fixes v :: env
  defines "p \<equiv> kzalloc_ret v"
  assumes small: "small_store v d len"
    and s1: "store_inline p d len (put_ent p (new_entry v fp m) s) = Inr (True, s1)"
    and t: "store_in_l2 (cpu v) p fp s1 = Inr t" and i: "i < length ts"
  shows "pstep\<^sup>*\<^sup>* (ts[i := ({}, program (Store v fp (Some d) len m))], s) (ts[i := ({}, second_half v fp p)], t)"
proof -
  let ?rest = "\<lambda>ok. if \<not> ok then pbind (act (kfree_entry p)) (\<lambda>_. Return (Code (- ENOMEM)))
    else pbind check_caches (\<lambda>_. pbind (replace_steps (L2Head (cpu v) (l2_index fp)) p fp) (\<lambda>_. second_half v fp p))"
  let ?put = "act (\<lambda>s. Inr (put_ent p (new_entry v fp m) s))" and ?copy = "fetch (store_inline p d len)"
  have prog: "program (Store v fp (Some d) len m) = pbind (pbind ?put (\<lambda>_. ?copy)) ?rest"
    using small by (auto simp: small_store_def KCR_RESULT_SIZE_MAX_def store_steps_def p_def pbind_assoc second_half_def Let_def
        intro!: arg_cong [where f = "pbind _"] ext)
  have "pstep\<^sup>*\<^sup>* (ts[i := (set_option None, pbind (pbind ?put (\<lambda>_. ?copy)) ?rest)], s) (ts[i := (set_option None, ?rest True)], s1)"
    by (rule uninterrupted_part [OF _ _ i]) (simp add: s1, (rule disc_intros)+)
  moreover have "?rest True = pbind (pbind check_caches (\<lambda>_. replace_steps (L2Head (cpu v) (l2_index fp)) p fp)) (\<lambda>_. second_half v fp p)"
    by (simp add: pbind_assoc)
  moreover have "pstep\<^sup>*\<^sup>* (ts[i := (set_option None, pbind (pbind check_caches (\<lambda>_. replace_steps (L2Head (cpu v) (l2_index fp)) p fp)) (\<lambda>_. second_half v fp p))], s1)
      (ts[i := (set_option None, second_half v fp p)], t)"
    by (rule uninterrupted_part [OF _ _ i])
      (use t in \<open>simp add: check_caches_def run_replace store_in_l2_def split: if_splits\<close>, (rule disc_intros)+)
  ultimately show ?thesis unfolding prog by simp
qed

lemma store_second_half:
  assumes "store_in_l3 v p fp s = Inr t" and i: "i < length ts"
  shows "pstep\<^sup>*\<^sup>* (ts[i := ({}, second_half v fp p)], s) (ts[i := ({}, Return (Code 0))], t)"
proof -
  have "run (second_half v fp p) s = Inr (Code 0, t)"
    using assms(1) by (auto simp: second_half_def run_replace store_in_l3_def rbind_Inr_iff)
  moreover have "disciplined None (second_half v fp p) None" unfolding second_half_def by (rule disc_intros)+
  ultimately show ?thesis using uninterrupted [of "second_half v fp p" s "Code 0" t None None i ts] i by simp
qed


section \<open>Two stores of one key\<close>

text \<open>The halves of two stores, the second store between the halves of the first.\<close>

lemma preempted_stores:
  assumes "small_store v d len" and "small_store w d' len'" and "cpu w = cpu v"
    and "kzalloc_ret w \<noteq> kzalloc_ret v" and "c \<noteq> NULL" and "t3 \<noteq> NULL" and "0 < n"
  defines "p \<equiv> kzalloc_ret v" and "q \<equiv> kzalloc_ret w"
  shows "\<exists>s1 s2 s3 s4 s5 t.
    store_inline p d len (put_ent p (new_entry v fp m) (fresh_cache c t3 n)) = Inr (True, s1)
    \<and> store_in_l2 (cpu v) p fp s1 = Inr s2
    \<and> store_inline q d' len' (put_ent q (new_entry w fp m) s2) = Inr (True, s3)
    \<and> store_in_l2 (cpu w) q fp s3 = Inr s4
    \<and> store_in_l3 v p fp s4 = Inr s5 \<and> store_in_l3 w q fp s5 = Inr t
    \<and> rcu_pending t = [p, p] \<and> (\<exists>e. ent t p = Some e)"
  using assms(1-7) by (simp add: p_def q_def kcr_eval small_store_def)


lemma stores_in_sequence:
  assumes "small_store v d len" and "small_store w d' len'" and "cpu w = cpu v"
    and "kzalloc_ret w \<noteq> kzalloc_ret v" and "c \<noteq> NULL" and "t3 \<noteq> NULL" and "0 < n"
  shows "\<exists>t. perform_all [Store v fp (Some d) len m, Store w fp (Some d') len' m, Grace] (fresh_cache c t3 n)
    = Inr ([Code 0, Code 0, Freed], t)"
  using assms by (simp add: kcr_eval small_store_def)

text \<open>An entry queued twice is freed twice.\<close>

lemma grace_twice:
  assumes "rcu_pending s = [p, p]" and "ent s p = Some e" and "p \<noteq> NULL"
  shows "rcu_grace_period s = Inl DoubleFree"
  using assms by (simp add: rcu_grace_period_def free_entry_rcu_def kfree_entry_def ent_def delete_conv')

text \<open>
  C12. One CPU is not enough to be safe: two stores of one key on one CPU succeed one after the other, in
  either order, and so does the grace period after them. But if the second store runs while the first
  is preempted between its insertion into L2 and its insertion into L3, both stores still return 0,
  the first entry is queued for freeing twice, and the grace period frees it twice.
\<close>

theorem preempted_store_double_free:
  fixes fp :: u64 and m :: ptr
  assumes "small_store v d len" and "small_store w d' len'" and "cpu w = cpu v"
    and "kzalloc_ret w \<noteq> kzalloc_ret v" and "c \<noteq> NULL" and "t3 \<noteq> NULL" and "0 < n"
  defines "first \<equiv> Store v fp (Some d) len m" and "second \<equiv> Store w fp (Some d') len' m"
    and "s \<equiv> fresh_cache c t3 n"
  shows "(\<exists>t. perform_all [first, second, Grace] s = Inr ([Code 0, Code 0, Freed], t))
    \<and> (\<exists>t. perform_all [second, first, Grace] s = Inr ([Code 0, Code 0, Freed], t))
    \<and> (\<exists>t. pstep\<^sup>*\<^sup>* (start [first, second], s) (finished [Code 0, Code 0], t)
      \<and> rcu_grace_period t = Inl DoubleFree)"
proof -
  let ?p = "kzalloc_ret v" and ?q = "kzalloc_ret w"
  let ?R = "({}, Return (Code 0)) :: reply thread"
  from preempted_stores [OF assms(1-7), of fp m] obtain s1 s2 s3 s4 s5 t e where
    s: "store_inline ?p d len (put_ent ?p (new_entry v fp m) s) = Inr (True, s1)"
    "store_in_l2 (cpu v) ?p fp s1 = Inr s2"
    "store_inline ?q d' len' (put_ent ?q (new_entry w fp m) s2) = Inr (True, s3)"
    "store_in_l2 (cpu w) ?q fp s3 = Inr s4" "store_in_l3 v ?p fp s4 = Inr s5" "store_in_l3 w ?q fp s5 = Inr t"
    and t: "rcu_pending t = [?p, ?p]" "ent t ?p = Some e" unfolding s_def by blast
  let ?ts = "start [first, second]"
  have "pstep\<^sup>*\<^sup>* (?ts[0 := ({}, program first)], s) (?ts[0 := ({}, second_half v fp ?p)], s2)"
    unfolding first_def by (rule store_first_half [OF assms(1) s(1,2)]) simp
  then have 1: "pstep\<^sup>*\<^sup>* (?ts, s) ([({}, second_half v fp ?p), ({}, program second)], s2)"
    by (simp add: start_def)
  have 2: "pstep\<^sup>*\<^sup>* ([({}, second_half v fp ?p), ({}, program second)], s2)
      ([({}, second_half v fp ?p), ({}, second_half w fp ?q)], s4)"
    using store_first_half [OF assms(2) s(3,4), of 1 "[({}, second_half v fp ?p), ({}, program second)]"]
    by (simp add: second_def)
  have 3: "pstep\<^sup>*\<^sup>* ([({}, second_half v fp ?p), ({}, second_half w fp ?q)], s4) ([?R, ({}, second_half w fp ?q)], s5)"
    using store_second_half [OF s(5), of 0 "[({}, second_half v fp ?p), ({}, second_half w fp ?q)]"] by simp
  have 4: "pstep\<^sup>*\<^sup>* ([?R, ({}, second_half w fp ?q)], s5) ([?R, ?R], t)"
    using store_second_half [OF s(6), of 1 "[?R, ({}, second_half w fp ?q)]"] by simp
  have "pstep\<^sup>*\<^sup>* (?ts, s) (finished [Code 0, Code 0], t)"
    using rtranclp_trans [OF rtranclp_trans [OF rtranclp_trans [OF 1 2] 3] 4] by (simp add: finished_def)
  moreover have "rcu_grace_period t = Inl DoubleFree"
    using grace_twice [OF t] assms(1) by (simp add: small_store_def)
  moreover have "\<exists>t. perform_all [first, second, Grace] s = Inr ([Code 0, Code 0, Freed], t)"
    unfolding first_def second_def s_def by (rule stores_in_sequence [OF assms(1-7)])
  moreover have "\<exists>t. perform_all [second, first, Grace] s = Inr ([Code 0, Code 0, Freed], t)"
    unfolding first_def second_def s_def using assms(3,4)
    by (intro stores_in_sequence [OF assms(2,1) _ _ assms(5-7)]) auto
  ultimately show ?thesis by blast
qed

theorem preempted_store_double_free_witness:
  "\<exists>t. pstep\<^sup>*\<^sup>* (start [Store (ctx 0 100 32 0) 5 (Some [7, 8]) 2 4096, Store (ctx 0 110 48 0) 5 (Some [9, 9]) 2 4096],
       fresh_cache 16 32 1) (finished [Code 0, Code 0], t) \<and> rcu_grace_period t = Inl DoubleFree"
proof -
  have "small_store (ctx 0 100 32 0) [7, 8] 2" "small_store (ctx 0 110 48 0) [9, 9] 2"
    by (simp_all add: small_store_def ctx_def)
  from preempted_store_double_free [OF this, of 16 32 1 5 4096] show ?thesis by (simp add: ctx_def)
qed

end
