(* ===== verification/Cache_Sites.thy ===== *)
theory Cache_Sites
  imports Cache_Race List_Walk
begin

text \<open>
  A site is one CPU with the L3 table of its socket and the addresses its allocations return. Every step
  of an operation is local to its site: what it does to the part of the memory that belongs to the site
  is what it does to the whole.
\<close>

section \<open>Sites\<close>

record site =
  site_cpu :: nat
  site_socket :: nat
  site_count :: int
  site_ptrs :: "ptr set"
  site_bufs :: "ptr set"

fun on_site :: "site \<Rightarrow> hhead \<Rightarrow> bool" where
  "on_site a (L2Head c b) \<longleftrightarrow> c = site_cpu a"
| "on_site a (L3Head i b) \<longleftrightarrow> i = site_socket a"

fun lock_on :: "site \<Rightarrow> lock_id \<Rightarrow> bool" where
  "lock_on a (BucketLock h) \<longleftrightarrow> on_site a h"
| "lock_on a (ExtLock i) \<longleftrightarrow> i = site_socket a"

text \<open>The link to the first node of a list names a list of the site.\<close>

definition link_on :: "site \<Rightarrow> hlink \<Rightarrow> bool" where
  "link_on a l \<longleftrightarrow> (\<forall>h. l = LFirst h \<longrightarrow> on_site a h)"

definition unique_keys :: "cache_state \<Rightarrow> bool" where
  "unique_keys s \<longleftrightarrow> distinct (map fst (entries s))"

text \<open>\<open>s\<close> is what the site sees of the memory \<open>u\<close>: its own entries and buffers are the only ones.\<close>

definition view :: "site \<Rightarrow> cache_state \<Rightarrow> cache_state \<Rightarrow> bool" where
  "view a s u \<longleftrightarrow>
     caches s = caches u \<and> l3_tables s = l3_tables u
     \<and> num_sockets s = site_count a \<and> num_sockets u = site_count a
     \<and> percpu s (site_cpu a) = percpu u (site_cpu a) \<and> stray s (site_cpu a) = stray u (site_cpu a)
     \<and> tables s (site_socket a) = tables u (site_socket a)
     \<and> ent s = ent u |` site_ptrs a \<and> map_of (bufs s) = map_of (bufs u) |` site_bufs a
     \<and> rcu_pending s = filter (\<lambda>q. q \<in> site_ptrs a) (rcu_pending u)
     \<and> unique_keys s \<and> unique_keys u
     \<and> (\<forall>q e. ent s q = Some e \<longrightarrow> link_on a (node_pprev e))"

text \<open>From \<open>u\<close> to \<open>u'\<close> nothing changed but what belongs to the site.\<close>

definition apart :: "site \<Rightarrow> cache_state \<Rightarrow> cache_state \<Rightarrow> bool" where
  "apart a u u' \<longleftrightarrow>
     caches u' = caches u \<and> l3_tables u' = l3_tables u \<and> num_sockets u' = num_sockets u
     \<and> (\<forall>c. c \<noteq> site_cpu a \<longrightarrow> percpu u' c = percpu u c \<and> stray u' c = stray u c)
     \<and> (\<forall>i. i \<noteq> site_socket a \<longrightarrow> tables u' i = tables u i)
     \<and> (\<forall>q. q \<notin> site_ptrs a \<longrightarrow> ent u' q = ent u q)
     \<and> (\<forall>q. q \<notin> site_bufs a \<longrightarrow> map_of (bufs u') q = map_of (bufs u) q)
     \<and> filter (\<lambda>q. q \<notin> site_ptrs a) (rcu_pending u') = filter (\<lambda>q. q \<notin> site_ptrs a) (rcu_pending u)
     \<and> (unique_keys u \<longrightarrow> unique_keys u')"

definition separate :: "site \<Rightarrow> site \<Rightarrow> bool" where
  "separate a b \<longleftrightarrow> site_cpu a \<noteq> site_cpu b \<and> site_socket a \<noteq> site_socket b
     \<and> site_ptrs a \<inter> site_ptrs b = {} \<and> site_bufs a \<inter> site_bufs b = {}"

lemma apart_refl [simp]: "apart a u u"
  by (simp add: apart_def)

lemma apart_trans: "apart a u v \<Longrightarrow> apart a v w \<Longrightarrow> apart a u w"
  by (simp add: apart_def)

lemma view_ent:
  assumes "view a s u"
  shows "ent s q = (if q \<in> site_ptrs a then ent u q else None)"
    "ent s q = Some e \<Longrightarrow> ent u q = Some e" "ent s q = Some e \<Longrightarrow> q \<in> site_ptrs a"
    "ent s q = Some e \<Longrightarrow> link_on a (node_pprev e)"
  using assms by (auto simp: view_def restrict_map_def split: if_splits)

text \<open>What another site does is not seen.\<close>

lemma view_apart: "view b s u \<Longrightarrow> apart a u u' \<Longrightarrow> separate a b \<Longrightarrow> view b s u'"
proof -
  assume v: "view b s u" and ap: "apart a u u'" and sep: "separate a b"
  have "ent u' |` site_ptrs b = ent u |` site_ptrs b"
    using ap sep by (auto simp: restrict_map_def fun_eq_iff apart_def separate_def)
  moreover have "map_of (bufs u') |` site_bufs b = map_of (bufs u) |` site_bufs b"
    using ap sep by (auto simp: restrict_map_def fun_eq_iff apart_def separate_def)
  moreover have "filter (\<lambda>q. q \<in> site_ptrs b) (rcu_pending u') = filter (\<lambda>q. q \<in> site_ptrs b) (rcu_pending u)"
  proof -
    have other: "q \<notin> site_ptrs a \<and> q \<in> site_ptrs b \<longleftrightarrow> q \<in> site_ptrs b" for q
      using sep by (auto simp: separate_def)
    have "filter (\<lambda>q. q \<notin> site_ptrs a) (rcu_pending u') = filter (\<lambda>q. q \<notin> site_ptrs a) (rcu_pending u)"
      using ap by (simp add: apart_def)
    then have "filter (\<lambda>q. q \<in> site_ptrs b) (filter (\<lambda>q. q \<notin> site_ptrs a) (rcu_pending u'))
      = filter (\<lambda>q. q \<in> site_ptrs b) (filter (\<lambda>q. q \<notin> site_ptrs a) (rcu_pending u))" by simp
    then show ?thesis by (simp add: other)
  qed
  ultimately show "view b s u'" using v ap sep by (auto simp: view_def apart_def separate_def)
qed

section \<open>Local operations\<close>

text \<open>What succeeds in the view of a site does the same in the memory, and nothing else.\<close>

definition framed :: "site \<Rightarrow> (cache_state \<Rightarrow> cache_state res) \<Rightarrow> bool" where
  "framed a f \<longleftrightarrow> (\<forall>s u t. view a s u \<longrightarrow> f s = Inr t \<longrightarrow> (\<exists>u'. f u = Inr u' \<and> view a t u' \<and> apart a u u'))"

definition asks :: "site \<Rightarrow> ('a \<Rightarrow> bool) \<Rightarrow> (cache_state \<Rightarrow> 'a res) \<Rightarrow> bool" where
  "asks a Q f \<longleftrightarrow> (\<forall>s u x. view a s u \<longrightarrow> f s = Inr x \<longrightarrow> f u = Inr x \<and> Q x)"

definition yields :: "site \<Rightarrow> ('a \<Rightarrow> bool) \<Rightarrow> (cache_state \<Rightarrow> ('a \<times> cache_state) res) \<Rightarrow> bool" where
  "yields a Q f \<longleftrightarrow> (\<forall>s u x t. view a s u \<longrightarrow> f s = Inr (x, t) \<longrightarrow>
     Q x \<and> (\<exists>u'. f u = Inr (x, u') \<and> view a t u' \<and> apart a u u'))"

named_theorems site_intros \<open>rules for the locality of operations\<close>

lemma framedD: "framed a f \<Longrightarrow> view a s u \<Longrightarrow> f s = Inr t \<Longrightarrow> \<exists>u'. f u = Inr u' \<and> view a t u' \<and> apart a u u'"
  by (simp add: framed_def)

lemma framed_seq [site_intros]: "framed a f \<Longrightarrow> framed a g \<Longrightarrow> framed a (\<lambda>s. rbind (f s) g)"
  unfolding framed_def by (auto simp: rbind_Inr_iff) (meson apart_trans)

lemma framed_bind [site_intros]:
  "asks a Q f \<Longrightarrow> (\<And>x. Q x \<Longrightarrow> framed a (g x)) \<Longrightarrow> framed a (\<lambda>s. rbind (f s) (\<lambda>x. g x s))"
  unfolding framed_def asks_def by (auto simp: rbind_Inr_iff)

lemma framed_pure:
  "(\<And>s u. view a s u \<Longrightarrow> view a (f s) (f u) \<and> apart a u (f u)) \<Longrightarrow> framed a (\<lambda>s. Inr (f s))"
  by (simp add: framed_def)

lemma framed_if [site_intros]: "(b \<Longrightarrow> framed a f) \<Longrightarrow> (\<not> b \<Longrightarrow> framed a g) \<Longrightarrow> framed a (\<lambda>s. if b then f s else g s)"
  by (cases b) simp_all

lemma framed_skip [site_intros]: "framed a Inr"
  by (simp add: framed_def)

lemma framed_fail [site_intros]: "framed a (\<lambda>s. Inl e)"
  by (simp add: framed_def)

lemma framed_rfold [site_intros]: "(\<And>i. framed a (f i)) \<Longrightarrow> framed a (rfold f is)"
proof (induction "is")
  case (Cons i "is")
  have "rfold f (i # is) = (\<lambda>s. rbind (f i s) (rfold f is))" by (simp add: fun_eq_iff)
  with Cons show ?case by (simp add: framed_seq)
qed (simp add: framed_def)

lemma asks_weaken: "asks a Q f \<Longrightarrow> (\<And>x. Q x \<Longrightarrow> R x) \<Longrightarrow> asks a R f"
  by (simp add: asks_def)

section \<open>The heap\<close>

lemma on_site_bucket: "view a s u \<Longrightarrow> on_site a h \<Longrightarrow> bucket_at s h = bucket_at u h"
  by (cases h) (simp_all add: view_def)

lemma unique_keys_simps [simp]:
  "unique_keys (put_bucket h k s) = unique_keys s" "unique_keys (upd_stats c f s) = unique_keys s"
  "unique_keys (upd_table i g s) = unique_keys s" "unique_keys (s\<lparr>bufs := bs\<rparr>) = unique_keys s"
  "unique_keys (s\<lparr>rcu_pending := ps\<rparr>) = unique_keys s"
  "unique_keys s \<Longrightarrow> unique_keys (put_ent p e s)"
  "unique_keys s \<Longrightarrow> unique_keys (s\<lparr>entries := AList.delete p (entries s)\<rparr>)"
  by (simp_all add: unique_keys_def frame_simps upd_stats_def upd_table_def put_ent_def distinct_update
      distinct_delete)

lemma site_bucket:
  assumes "view a s u" and "on_site a h"
  shows "view a (put_bucket h k s) (put_bucket h k u) \<and> apart a u (put_bucket h k u)"
  using assms by (cases h) (auto simp: view_def apart_def ent_def unique_keys_def)

lemma site_set_first: "on_site a h \<Longrightarrow> framed a (\<lambda>s. Inr (set_first h p s))"
  by (rule framed_pure) (simp add: set_first_def on_site_bucket site_bucket)

lemma site_put_ent:
  assumes "view a s u" and "p \<in> site_ptrs a" and "link_on a (node_pprev e)"
  shows "view a (put_ent p e s) (put_ent p e u) \<and> apart a u (put_ent p e u)"
  using assms by (auto simp: view_def apart_def frame_simps restrict_map_def fun_eq_iff split: if_splits)

lemma asks_ent [site_intros]: "asks a (\<lambda>e. p \<in> site_ptrs a \<and> link_on a (node_pprev e)) (\<lambda>s. get_ent s p)"
  unfolding asks_def by (auto simp: get_ent_Inr dest: view_ent)

lemma framed_put_ent [site_intros]:
  "p \<in> site_ptrs a \<Longrightarrow> link_on a (node_pprev e) \<Longrightarrow> framed a (\<lambda>s. Inr (put_ent p e s))"
  by (rule framed_pure) (simp add: site_put_ent)

lemma link_on_simps [simp]: "link_on a LNull" "link_on a LPoison2" "link_on a (LNext p)"
  "link_on a (LFirst h) = on_site a h"
  by (simp_all add: link_on_def)

lemma framed_set_next [site_intros]: "framed a (set_next p v)"
proof -
  have "set_next p v = (\<lambda>s. rbind (get_ent s p) (\<lambda>e. Inr (put_ent p (e\<lparr>node_next := v\<rparr>) s)))"
    by (simp add: set_next_def fun_eq_iff)
  then show ?thesis by simp (rule site_intros | simp)+
qed

lemma framed_set_pprev [site_intros]: "link_on a l \<Longrightarrow> framed a (set_pprev p l)"
proof -
  assume l: "link_on a l"
  have "set_pprev p l = (\<lambda>s. rbind (get_ent s p) (\<lambda>e. Inr (put_ent p (e\<lparr>node_pprev := l\<rparr>) s)))"
    by (simp add: set_pprev_def fun_eq_iff)
  then show ?thesis by simp (rule site_intros | simp add: l)+
qed

lemma framed_write_link [site_intros]: "link_on a l \<Longrightarrow> framed a (write_link l v)"
proof (cases l)
  case (LNext p)
  have "write_link (LNext p) v = set_next p v" by (simp add: fun_eq_iff set_next_def)
  with LNext show ?thesis by (simp add: framed_set_next)
next
  case (LFirst h)
  assume "link_on a l"
  moreover have "write_link (LFirst h) v = (\<lambda>s. Inr (set_first h v s))" by (simp add: fun_eq_iff)
  ultimately show ?thesis using LFirst site_set_first by simp
qed (simp_all add: framed_def)

lemma framed_del [site_intros]: "framed a (hlist_del_rcu n)"
proof -
  have "hlist_del_rcu n = (\<lambda>s. rbind (get_ent s n) (\<lambda>e.
     rbind (write_link (node_pprev e) (node_next e) s) (\<lambda>s.
     rbind (if node_next e \<noteq> NULL then set_pprev (node_next e) (node_pprev e) s else Inr s) (\<lambda>s.
     set_pprev n LPoison2 s))))" by (simp add: hlist_del_rcu_def fun_eq_iff)
  then show ?thesis by simp (rule site_intros | simp)+
qed

lemma asks_first [site_intros]: "on_site a h \<Longrightarrow> asks a (\<lambda>_. True) (\<lambda>s. Inr (hfirst s h))"
  by (simp add: asks_def hfirst_def on_site_bucket)

lemma framed_add [site_intros]: "on_site a h \<Longrightarrow> framed a (hlist_add_head_rcu n h)"
proof -
  assume h: "on_site a h"
  have "hlist_add_head_rcu n h = (\<lambda>s. rbind (Inr (hfirst s h)) (\<lambda>first.
      rbind (set_next n first s) (\<lambda>s.
      rbind (set_pprev n (LFirst h) s) (\<lambda>s.
      rbind (Inr (set_first h n s)) (\<lambda>s.
      if first \<noteq> NULL then set_pprev first (LNext n) s else Inr s)))))"
    by (simp add: hlist_add_head_rcu_def Let_def fun_eq_iff)
  then show ?thesis by (simp only:) (rule site_intros site_set_first | simp add: h)+
qed

lemma framed_queue [site_intros]:
  "p \<in> site_ptrs a \<Longrightarrow> framed a (\<lambda>s. Inr (s\<lparr>rcu_pending := rcu_pending s @ [p]\<rparr>))"
  by (rule framed_pure) (auto simp: view_def apart_def ent_def)

lemma framed_call_rcu [site_intros]: "framed a (call_rcu p)"
proof -
  have "call_rcu p = (\<lambda>s. rbind (get_ent s p) (\<lambda>_. Inr (s\<lparr>rcu_pending := rcu_pending s @ [p]\<rparr>)))"
    by (simp add: call_rcu_def fun_eq_iff)
  then show ?thesis by (auto intro: framed_bind asks_ent framed_queue)
qed

lemma framed_kfree [site_intros]: "framed a (kfree_entry p)"
  unfolding framed_def
proof (intro allI impI)
  fix s u t assume v: "view a s u" and s: "kfree_entry p s = Inr t"
  show "\<exists>u'. kfree_entry p u = Inr u' \<and> view a t u' \<and> apart a u u'"
  proof (cases "p = NULL")
    case True
    with v s show ?thesis by (auto simp: kfree_entry_def)
  next
    case False
    with s obtain e where e: "ent s p = Some e" and t: "t = s\<lparr>entries := AList.delete p (entries s)\<rparr>"
      by (auto simp: kfree_entry_def split: if_splits)
    let ?u = "u\<lparr>entries := AList.delete p (entries u)\<rparr>"
    have d: "ent (x\<lparr>entries := AList.delete p (entries x)\<rparr>) = (ent x)(p := None)" for x
      by (simp add: ent_def delete_conv' fun_eq_iff)
    have "kfree_entry p u = Inr ?u" using False view_ent(2) [OF v e] by (simp add: kfree_entry_def)
    moreover have "view a t ?u" "apart a u ?u" using v view_ent(3) [OF v e]
      by (auto simp: t view_def apart_def d restrict_map_def fun_eq_iff)
    ultimately show ?thesis by blast
  qed
qed

lemma framed_kvfree [site_intros]: "framed a (kvfree p)"
  unfolding framed_def
proof (intro allI impI)
  fix s u t assume v: "view a s u" and s: "kvfree p s = Inr t"
  show "\<exists>u'. kvfree p u = Inr u' \<and> view a t u' \<and> apart a u u'"
  proof (cases "p = NULL")
    case True
    with v s show ?thesis by (auto simp: kvfree_def)
  next
    case False
    with s obtain b where b: "map_of (bufs s) p = Some b" and t: "t = s\<lparr>bufs := AList.delete p (bufs s)\<rparr>"
      by (auto simp: kvfree_def split: if_splits)
    let ?u = "u\<lparr>bufs := AList.delete p (bufs u)\<rparr>"
    have p: "p \<in> site_bufs a" "map_of (bufs u) p = Some b"
      using v b by (auto simp: view_def restrict_map_def split: if_splits)
    have e: "ent (x\<lparr>bufs := bs\<rparr>) = ent x" for x bs by (simp add: ent_def)
    have "kvfree p u = Inr ?u" using False p(2) by (simp add: kvfree_def)
    moreover have "view a t ?u" "apart a u ?u" using v p(1)
      by (auto simp: t view_def apart_def e delete_conv' restrict_map_def fun_eq_iff)
    ultimately show ?thesis by blast
  qed
qed

lemma framed_stats [site_intros]: "framed a (\<lambda>s. Inr (upd_stats (site_cpu a) f s))"
  by (rule framed_pure) (auto simp: view_def apart_def upd_stats_def ent_def unique_keys_def)

lemma framed_table [site_intros]: "framed a (\<lambda>s. Inr (upd_table (site_socket a) f s))"
  by (rule framed_pure) (auto simp: view_def apart_def upd_table_def ent_def unique_keys_def)

lemma asks_table [site_intros]: "asks a (\<lambda>_. True) (\<lambda>s. Inr (g (tables s (site_socket a))))"
  by (simp add: asks_def view_def)

section \<open>List walks\<close>

lemma site_walk:
  assumes "view a s u"
  shows "hlist_find k P s p = Inr q \<Longrightarrow> hlist_find k P u p = Inr q \<and> (q = NULL \<or> q \<in> site_ptrs a)"
proof (induction k arbitrary: p)
  case (Suc k)
  show ?case
  proof (cases "p = NULL")
    case False
    with Suc.prems obtain e where e: "ent s p = Some e"
      "(if P e then Inr p else hlist_find k P s (node_next e)) = Inr q"
      by (auto simp: rbind_Inr_iff get_ent_Inr)
    from view_ent(2,3) [OF assms e(1)] e(2) False Suc.IH [of "node_next e"] show ?thesis
      by (auto split: if_splits)
  qed (use Suc.prems in auto)
qed simp

lemma asks_find [site_intros]:
  assumes "on_site a h"
  shows "asks a (\<lambda>p. p = NULL \<or> p \<in> site_ptrs a) (\<lambda>s. hlist_find (fuel s) P s (hfirst s h))"
  unfolding asks_def
proof (intro allI impI)
  fix s u q assume v: "view a s u" and q: "hlist_find (fuel s) P s (hfirst s h) = Inr q"
  have h: "hfirst u h = hfirst s h" using on_site_bucket [OF v assms] by (simp add: hfirst_def)
  from site_walk [OF v q] have u: "hlist_find (fuel s) P u (hfirst s h) = Inr q"
    and "q = NULL \<or> q \<in> site_ptrs a" by auto
  moreover have "hlist_find (fuel u) P u (hfirst s h) = Inr q"
    using walk_fuel [of "fuel s" P u "hfirst s h"] u by simp
  ultimately show "hlist_find (fuel u) P u (hfirst u h) = Inr q \<and> (q = NULL \<or> q \<in> site_ptrs a)"
    by (simp add: h)
qed

lemma length_unique: "unique_keys s \<Longrightarrow> length (entries s) = card (dom (ent s))"
  using distinct_card [of "map fst (entries s)"] by (simp add: unique_keys_def ent_def dom_map_of_conv_image_fst)

lemma view_fuel: "view a s u \<Longrightarrow> fuel s \<le> fuel u"
proof -
  assume v: "view a s u"
  have "card (dom (ent s)) \<le> card (dom (ent u))"
    by (rule card_mono) (use v in \<open>auto simp: view_def ent_def finite_dom_map_of\<close>)
  with v show ?thesis by (simp add: view_def fuel_def length_unique)
qed

lemma site_flush:
  assumes "framed a (\<lambda>s. Inr (account s))"
  shows "k \<le> j \<Longrightarrow> view a s u \<Longrightarrow> hlist_flush k m account p s = Inr t \<Longrightarrow>
    \<exists>u'. hlist_flush j m account p u = Inr u' \<and> view a t u' \<and> apart a u u'"
proof (induction k arbitrary: j p s u)
  case (Suc k)
  then obtain i where j: "j = Suc i" "k \<le> i" by (cases j) auto
  show ?case
  proof (cases "p = NULL")
    case True
    with Suc.prems show ?thesis by (auto simp: j)
  next
    case False
    let ?f = "\<lambda>e s. if mm e = m
      then rbind (hlist_del_rcu p s) (\<lambda>s. rbind (call_rcu p s) (\<lambda>s. Inr (account s))) else Inr s"
    from False Suc.prems(3) obtain e s1 where e: "ent s p = Some e" and s1: "?f e s = Inr s1"
      and t: "hlist_flush k m account (node_next e) s1 = Inr t"
      by (auto simp: rbind_Inr_iff get_ent_Inr Let_def)
    have "framed a (?f e)" by (rule site_intros assms)+
    from framedD [OF this Suc.prems(2) s1] obtain u1 where
      u1: "?f e u = Inr u1" "view a s1 u1" "apart a u u1" by blast
    from Suc.IH [OF j(2) u1(2) t] obtain u' where
      u': "hlist_flush i m account (node_next e) u1 = Inr u'" "view a t u'" "apart a u1 u'" by blast
    have "get_ent u p = Inr e" using view_ent(2) [OF Suc.prems(2) e] False by simp
    then have "hlist_flush j m account p u = Inr u'" using False u1(1) u'(1) by (simp add: j(1) Let_def)
    with u' apart_trans [OF u1(3)] show ?thesis by blast
  qed
qed simp

lemma framed_flush [site_intros]:
  assumes "framed a (\<lambda>s. Inr (account s))" and h: "on_site a h"
  shows "framed a (\<lambda>s. hlist_flush (fuel s * fuel s) m account (hfirst s h) s)"
  unfolding framed_def
proof (intro allI impI)
  fix s u t assume v: "view a s u" and "hlist_flush (fuel s * fuel s) m account (hfirst s h) s = Inr t"
  moreover have "hfirst u h = hfirst s h" using on_site_bucket [OF v h] by (simp add: hfirst_def)
  ultimately show "\<exists>u'. hlist_flush (fuel u * fuel u) m account (hfirst u h) u = Inr u' \<and> view a t u' \<and> apart a u u'"
    using site_flush [OF assms(1) mult_le_mono [OF view_fuel view_fuel]] by simp
qed


section \<open>The steps of the operations\<close>

text \<open>The context of a call on the site, and a request whose allocations return addresses of the site.\<close>

definition env_on :: "site \<Rightarrow> env \<Rightarrow> bool" where
  "env_on a w \<longleftrightarrow> cpu w = site_cpu a \<and> (if site_count a \<le> node w then 0 else node w) = int (site_socket a)"

fun request_on :: "site \<Rightarrow> request \<Rightarrow> bool" where
  "request_on a (Lookup w fp m) \<longleftrightarrow> env_on a w"
| "request_on a (Store w fp data len m) \<longleftrightarrow> env_on a w
     \<and> kzalloc_ret w \<in> insert NULL (site_ptrs a) \<and> kvmalloc_ret w \<in> insert NULL (site_bufs a)"
| "request_on a (Invalidate w m l u) \<longleftrightarrow> env_on a w"
| "request_on a Grace \<longleftrightarrow> False"

lemma asks_socket [site_intros]: "env_on a w \<Longrightarrow> asks a (\<lambda>i. i = site_socket a) (l3_socket w)"
  by (auto simp: asks_def env_on_def l3_socket_def view_def Let_def split: if_splits)

lemma yields_lookup_l2 [site_intros]:
  assumes "c = site_cpu a"
  shows "yields a (\<lambda>p. p = NULL \<or> p \<in> site_ptrs a) (lookup_l2 w c fp m)"
  unfolding yields_def
proof (intro allI impI)
  let ?find = "\<lambda>s. hlist_find (fuel s) (live_match fp m (jiffies w)) s (hfirst s (L2Head c (l2_index fp)))"
  fix s u p t assume v: "view a s u" and s: "lookup_l2 w c fp m s = Inr (p, t)"
  have c: "caches u = caches s" using v by (simp add: view_def)
  have "on_site a (L2Head c (l2_index fp))" using assms by simp
  from asks_find [OF this] v s have p: "?find u = Inr p" "p = NULL \<or> p \<in> site_ptrs a"
    unfolding asks_def lookup_l2_def by (auto simp: rbind_Inr_iff split: if_splits)
  let ?st = "\<lambda>s. if p \<noteq> NULL then upd_stats c (\<lambda>st. st\<lparr>l2_hits := l2_hits st + 1\<rparr>) s else s"
  have "lookup_l2 w c fp m u = Inr (p, ?st u)" and t: "t = ?st s"
    using s p(1) c by (auto simp: lookup_l2_def rbind_Inr_iff split: if_splits)
  moreover have "view a (?st s) (?st u) \<and> apart a u (?st u)"
    using framedD [OF framed_stats v refl] v assms by auto
  ultimately show "(p = NULL \<or> p \<in> site_ptrs a) \<and>
      (\<exists>u'. lookup_l2 w c fp m u = Inr (p, u') \<and> view a t u' \<and> apart a u u')"
    using p(2) by blast
qed

lemma asks_bind:
  assumes "asks a Q f" and "\<And>x. Q x \<Longrightarrow> asks a R (g x)"
  shows "asks a R (\<lambda>s. rbind (f s) (\<lambda>x. g x s))"
  unfolding asks_def
proof (intro allI impI)
  fix s u y assume v: "view a s u" and "rbind (f s) (\<lambda>x. g x s) = Inr y"
  then obtain x where x: "f s = Inr x" "g x s = Inr y" by (auto simp: rbind_Inr_iff)
  then have "f u = Inr x" "Q x" using assms(1) v by (auto simp: asks_def)
  moreover from this x v have "g x u = Inr y \<and> R y" using assms(2) [of x] by (simp add: asks_def)
  ultimately show "rbind (f u) (\<lambda>x. g x u) = Inr y \<and> R y" by simp
qed

lemma asks_lookup_l3 [site_intros]:
  assumes "env_on a w"
  shows "asks a (\<lambda>p. p = NULL \<or> p \<in> site_ptrs a) (lookup_l3 w fp m)"
proof -
  have "lookup_l3 w fp m = (\<lambda>s. rbind (l3_socket w s) (\<lambda>i.
       hlist_find (fuel s) (live_match fp m (jiffies w)) s (hfirst s (L3Head i (l3_index fp)))))"
    by (simp add: lookup_l3_def fun_eq_iff)
  then show ?thesis by (simp only:) (rule asks_bind, rule asks_socket [OF assms], rule asks_find, simp)
qed

lemma asks_reply [site_intros]: "p = NULL \<or> p \<in> site_ptrs a \<Longrightarrow> asks a (\<lambda>_. True) (\<lambda>s. Inr (Hit (read_reply s p)))"
  by (auto simp: asks_def read_reply_def view_ent(1))

text \<open>A state transformer with a result, from one without.\<close>

lemma yields_bind:
  assumes "asks a Q f" and "\<And>x. Q x \<Longrightarrow> yields a R (g x)"
  shows "yields a R (\<lambda>s. rbind (f s) (\<lambda>x. g x s))"
  unfolding yields_def
proof (intro allI impI)
  fix s u y t assume v: "view a s u" and "rbind (f s) (\<lambda>x. g x s) = Inr (y, t)"
  then obtain x where x: "f s = Inr x" "g x s = Inr (y, t)" by (auto simp: rbind_Inr_iff)
  then have "f u = Inr x" "Q x" using assms(1) v by (auto simp: asks_def)
  moreover from this x v have "R y \<and> (\<exists>u'. g x u = Inr (y, u') \<and> view a t u' \<and> apart a u u')"
    using assms(2) [of x] by (simp add: yields_def)
  ultimately show "R y \<and> (\<exists>u'. rbind (f u) (\<lambda>x. g x u) = Inr (y, u') \<and> view a t u' \<and> apart a u u')" by simp
qed

lemma yields_framed:
  assumes "framed a f"
  shows "yields a (\<lambda>_. True) (\<lambda>s. rbind (f s) (\<lambda>s. Inr (x, s)))"
  using assms unfolding framed_def yields_def by (auto simp: rbind_Inr_iff)

lemma link_on_data [simp]:
  "link_on a (node_pprev (set_ext_data q e)) = link_on a (node_pprev e)"
  "link_on a (node_pprev (set_ext_size k e)) = link_on a (node_pprev e)"
  "link_on a (node_pprev (new_entry w fp m))"
  by (simp_all add: set_ext_data_def set_ext_size_def new_entry_def zero_entry_def)

lemma yields_inline [site_intros]: "yields a (\<lambda>_. True) (store_inline p d len)"
proof -
  have eq: "store_inline p d len = (\<lambda>s. rbind (get_ent s p) (\<lambda>e.
      rbind ((\<lambda>_. memcpy_from d len) s) (\<lambda>bytes.
      rbind (Inr (put_ent p (set_ext_size 0 (set_ext_data NULL (e\<lparr>result_union :=
        wr_bytes (result_union e) 0 bytes\<rparr>))) s)) (\<lambda>s. Inr (True, s)))))"
    by (simp add: store_inline_def Let_def fun_eq_iff)
  have mem: "asks a (\<lambda>_. True) (\<lambda>_. memcpy_from d len)" by (simp add: asks_def)
  show ?thesis unfolding eq
    by (rule yields_bind [OF asks_ent], rule yields_bind [OF mem], rule yields_framed, rule framed_put_ent) simp_all
qed

lemma framed_bufs:
  "b \<in> site_bufs a \<Longrightarrow> framed a (\<lambda>s. Inr (s\<lparr>bufs := (b, x) # bufs s\<rparr>))"
  by (rule framed_pure) (auto simp: view_def apart_def ent_def restrict_map_def fun_eq_iff)

lemma yields_fill [site_intros]:
  assumes "kvmalloc_ret w \<in> insert NULL (site_bufs a)" and "i = site_socket a"
  shows "yields a (\<lambda>_. True) (fill_slot w i p d len)"
proof -
  let ?buf = "kvmalloc_ret w"
  let ?set = "\<lambda>j s. Inr (upd_table i (\<lambda>t. t\<lparr>ext_slots := (ext_slots t)(j := ?buf)\<rparr>) s)"
  let ?len = "\<lambda>j s. Inr (upd_table i (\<lambda>t. t\<lparr>ext_slot_size := (ext_slot_size t)(j := len)\<rparr>) s)"
  have eq: "fill_slot w i p d len = (\<lambda>s. rbind (Inr (free_slot (tables s i))) (\<lambda>j.
      rbind ((\<lambda>s. if j < KCR_EXT_SLOTS then rbind (?set j s)
        (\<lambda>s. if ?buf \<noteq> NULL then rbind ((\<lambda>_. memcpy_from d len) s) (\<lambda>bytes. rbind (get_ent s p) (\<lambda>e.
          rbind (Inr (s\<lparr>bufs := (?buf, bytes) # bufs s\<rparr>)) (\<lambda>s. rbind (?len j s)
          (\<lambda>s. Inr (put_ent p (set_ext_size len (set_ext_data ?buf e)) s))))) else Inr s) else Inr s) s)
      (\<lambda>s. Inr (j, s))))"
    by (auto simp: fill_slot_def Let_def fun_eq_iff intro!: rbind_cong)
  have mem: "asks a (\<lambda>_. True) (\<lambda>_. memcpy_from d len)" by (simp add: asks_def)
  have tab: "framed a (\<lambda>s. Inr (upd_table i f s))" for f unfolding assms(2) by (rule framed_table)
  have buf: "framed a (\<lambda>s. Inr (s\<lparr>bufs := (?buf, bytes) # bufs s\<rparr>))" if "?buf \<noteq> NULL" for bytes
    by (rule framed_bufs) (use assms(1) that in simp)
  have put: "framed a (\<lambda>s. Inr (put_ent p (set_ext_size len (set_ext_data ?buf e)) s))"
    if "p \<in> site_ptrs a \<and> link_on a (node_pprev e)" for e
    by (rule framed_put_ent) (use that in simp_all)
  show ?thesis unfolding eq
    by (rule yields_bind [OF asks_table [of a free_slot, folded assms(2)]], rule yields_framed)
      (rule framed_if framed_skip | rule framed_seq, rule tab | rule framed_bind [OF mem]
        | rule framed_bind [OF asks_ent] | rule framed_seq, rule buf, assumption | rule put, assumption)+
qed

lemma framed_free_slot [site_intros]: "framed a (free_ext_slot (site_socket a) j)"
proof -
  have eq: "free_ext_slot (site_socket a) j = (\<lambda>s. rbind (Inr (ext_slots (tables s (site_socket a)) j)) (\<lambda>q.
      if q \<noteq> NULL then rbind (kvfree q s) (\<lambda>s. Inr (upd_table (site_socket a)
        (\<lambda>t. t\<lparr>ext_slots := (ext_slots t)(j := NULL), ext_slot_size := (ext_slot_size t)(j := 0)\<rparr>) s))
      else Inr s))" by (simp add: free_ext_slot_def fun_eq_iff)
  show ?thesis unfolding eq
    by (rule framed_bind [OF asks_table [of a "\<lambda>t. ext_slots t j"]], (rule framed_if framed_seq framed_kvfree framed_table framed_skip)+)
qed

end
