(* ===== verification/Cache_Nodes.thy ===== *)
theory Cache_Nodes
  imports Cache_Sites
begin

text \<open>
  CPUs of different nodes do not interfere: threads of separate sites, interleaved step by step in any
  way, behave as if each ran alone. On the quiet workload they refine the specification of the cache.
\<close>

section \<open>Local programs\<close>

inductive local :: "site \<Rightarrow> ('a \<Rightarrow> bool) \<Rightarrow> 'a prog \<Rightarrow> bool" for a Q where
  "Q x \<Longrightarrow> local a Q (Return x)"
| "(\<And>s u k t. view a s u \<Longrightarrow> f s = Inr (k, t) \<Longrightarrow>
     local a Q k \<and> (\<exists>u'. f u = Inr (k, u') \<and> view a t u' \<and> apart a u u')) \<Longrightarrow> local a Q (Atomic f)"
| "lock_on a l \<Longrightarrow> local a Q p \<Longrightarrow> local a Q (Acquire l p)"
| "lock_on a l \<Longrightarrow> local a Q p \<Longrightarrow> local a Q (Release l p)"

inductive_cases local_AtomicE: "local a Q (Atomic f)"
inductive_cases local_AcquireE: "local a Q (Acquire l p)"
inductive_cases local_ReleaseE: "local a Q (Release l p)"

named_theorems local_intros \<open>rules for the locality of programs\<close>

lemma local_pbind [local_intros]:
  "local a Q p \<Longrightarrow> (\<And>x. Q x \<Longrightarrow> local a R (g x)) \<Longrightarrow> local a R (pbind p g)"
proof (induction rule: local.induct)
  case (2 f)
  have "local a R k \<and> (\<exists>u'. map_sum id (map_prod (\<lambda>p. pbind p g) id) (f u) = Inr (k, u') \<and> view a t u' \<and> apart a u u')"
    if v: "view a s u" and k: "map_sum id (map_prod (\<lambda>p. pbind p g) id) (f s) = Inr (k, t)" for s u k t
  proof -
    from k obtain k' where k': "f s = Inr (k', t)" "k = pbind k' g" by (cases "f s") auto
    from 2(1) [OF v k'(1)] 2(2) obtain u' where "f u = Inr (k', u')" "view a t u'" "apart a u u'" "local a R k"
      by (auto simp: k'(2))
    then show ?thesis by (auto simp: k'(2))
  qed
  then show ?case by (auto intro: local.intros(2))
qed (auto intro: local.intros)

lemma local_fetch [local_intros]: "yields a Q f \<Longrightarrow> local a Q (fetch f)"
  unfolding fetch_def
proof (rule local.intros(2))
  fix s u k t
  assume f: "yields a Q f" and v: "view a s u" and "map_sum id (map_prod Return id) (f s) = Inr (k, t)"
  then obtain x where x: "f s = Inr (x, t)" "k = Return x" by (cases "f s") auto
  from f v x(1) obtain u' where "Q x" "f u = Inr (x, u')" "view a t u'" "apart a u u'"
    unfolding yields_def by blast
  then show "local a Q k \<and> (\<exists>u'. map_sum id (map_prod Return id) (f u) = Inr (k, u') \<and> view a t u' \<and> apart a u u')"
    by (auto simp: x(2) intro: local.intros(1))
qed

lemma local_ask [local_intros]: "asks a Q f \<Longrightarrow> local a Q (ask f)"
  unfolding ask_def by (rule local_fetch) (auto simp: yields_def asks_def rbind_Inr_iff)

lemma local_act [local_intros]: "framed a f \<Longrightarrow> local a (\<lambda>_. True) (act f)"
  unfolding act_def by (rule local_fetch) (auto simp: yields_def framed_def rbind_Inr_iff)

lemma local_locks [local_intros]:
  "lock_on a l \<Longrightarrow> local a (\<lambda>_. True) (acquire l)" "lock_on a l \<Longrightarrow> local a (\<lambda>_. True) (release l)"
  unfolding acquire_def release_def by (auto intro: local.intros)

lemma local_return [local_intros]: "Q x \<Longrightarrow> local a Q (Return x)"
  by (rule local.intros)

lemma local_if [local_intros]:
  "(b \<Longrightarrow> local a Q p) \<Longrightarrow> (\<not> b \<Longrightarrow> local a Q q) \<Longrightarrow> local a Q (if b then p else q)"
  by simp

lemma local_pfold [local_intros]: "(\<And>i. local a (\<lambda>_. True) (g i)) \<Longrightarrow> local a (\<lambda>_. True) (pfold g is)"
proof (induction "is")
  case (Cons i "is")
  have "local a (\<lambda>_. True) (pbind (g i) (\<lambda>_. pfold g is))" by (rule local_pbind) (use Cons in auto)
  then show ?case by simp
qed (simp add: local_return)

section \<open>The operations are local\<close>

lemma asks_caches: "asks a (\<lambda>_. True) (\<lambda>s. if caches s = NULL then Inl NullDeref else Inr ())"
  by (simp add: asks_def view_def)

lemma local_check [local_intros]: "local a (\<lambda>_. True) check_caches"
  unfolding check_caches_def by (rule local_ask) (rule asks_caches)

lemma local_promote [local_intros]: "c = site_cpu a \<Longrightarrow> local a (\<lambda>_. True) (promote_steps c p fp)"
  unfolding promote_steps_def Let_def by (rule local_intros site_intros | simp)+

lemma local_replace [local_intros]: "on_site a h \<Longrightarrow> local a (\<lambda>_. True) (replace_steps h p fp)"
proof -
  assume h: "on_site a h"
  have find: "asks a (\<lambda>p. p = NULL \<or> p \<in> site_ptrs a)
    (\<lambda>s. rbind (get_ent s p) (\<lambda>e. hlist_find (fuel s) (same_key fp (mm e)) s (hfirst s h)))"
    by (rule asks_bind, rule asks_ent, rule asks_find, rule h)
  show ?thesis unfolding replace_steps_def by (rule local_intros site_intros find | simp add: h)+
qed

lemma local_flush [local_intros]:
  "on_site a h \<Longrightarrow> framed a (\<lambda>s. Inr (account s)) \<Longrightarrow> local a (\<lambda>_. True) (flush_steps m account h)"
  unfolding flush_steps_def by (rule local_intros site_intros | simp)+

lemma local_lookup [local_intros]:
  "env_on a w \<Longrightarrow> local a (\<lambda>p. p = NULL \<or> p \<in> site_ptrs a) (lookup_steps w fp m)"
  unfolding lookup_steps_def by (rule local_intros site_intros | simp add: env_on_def)+


lemma local_external [local_intros]:
  assumes "env_on a w" and "kvmalloc_ret w \<in> insert NULL (site_bufs a)"
  shows "local a (\<lambda>_. True) (external_steps w p d len)"
proof -
  have ent: "asks a (\<lambda>_. True) (\<lambda>s. get_ent s p)" by (rule asks_weaken [OF asks_ent]) simp
  show ?thesis unfolding external_steps_def
    by (rule local_intros asks_socket ent yields_fill | simp add: assms del: insert_iff)+
qed

lemma local_store [local_intros]:
  assumes "request_on a (Store w fp data len m)"
  shows "local a (\<lambda>_. True) (store_steps w fp data len m)"
proof (cases data)
  case None
  then show ?thesis by (simp add: store_steps_def local_return)
next
  case (Some d)
  from assms have w: "env_on a w" "cpu w = site_cpu a" "kzalloc_ret w \<noteq> NULL \<Longrightarrow> kzalloc_ret w \<in> site_ptrs a"
    "kvmalloc_ret w \<in> insert NULL (site_bufs a)" by (auto simp: env_on_def)
  show ?thesis unfolding store_steps_def Some option.case Let_def
    by (rule local_intros asks_socket framed_put_ent framed_kfree yields_inline
        | simp add: w del: insert_iff)+
qed

lemma local_invalidate [local_intros]:
  assumes "env_on a w"
  shows "local a (\<lambda>_. True) (invalidate_steps w m)"
proof -
  have c: "cpu w = site_cpu a" using assms by (simp add: env_on_def)
  have acc: "framed a (\<lambda>s. Inr (count_invalidation (cpu w) s))" "framed a (\<lambda>s. Inr (id s))"
    unfolding count_invalidation_def c by (rule framed_stats, simp add: framed_skip)
  show ?thesis unfolding invalidate_steps_def
    by (rule local_intros asks_socket acc framed_free_slot | simp add: assms c)+
qed

lemma local_program [local_intros]: "request_on a r \<Longrightarrow> local a (\<lambda>_. True) (program r)"
proof (cases r)
  case (Lookup w fp m)
  assume "request_on a r"
  then show ?thesis unfolding Lookup by simp (rule local_intros site_intros | simp)+
next
  case (Store w fp data len m)
  assume "request_on a r"
  from local_store [OF this [unfolded Store]] show ?thesis unfolding Store program.simps
    by (rule local_pbind) (simp add: local_return)
next
  case (Invalidate w m l u)
  assume "request_on a r"
  then have "local a (\<lambda>_. True) (invalidate_steps w m)" by (simp add: Invalidate local_invalidate)
  then show ?thesis unfolding Invalidate program.simps by (rule local_pbind) (simp add: local_return)
qed simp

lemma local_programs: "list_all (request_on a) rs \<Longrightarrow> local a (\<lambda>_. True) (programs rs)"
proof (induction rs)
  case (Cons r rs)
  then have "local a (\<lambda>_. True) (program r)" "local a (\<lambda>_. True) (programs rs)" by (simp_all add: local_program)
  then show ?case unfolding programs.simps by (intro local_pbind local_return) auto
qed (simp add: local_return)

section \<open>Threads of separate sites\<close>

definition all_separate :: "site list \<Rightarrow> bool" where
  "all_separate as \<longleftrightarrow> (\<forall>i<length as. \<forall>j<length as. i \<noteq> j \<longrightarrow> separate (as ! i) (as ! j))"

text \<open>
  Each thread is local to its site, \<open>P\<close> relates it to what its site sees, and only entries of the sites
  are queued for freeing.
\<close>

definition on_sites :: "site list \<Rightarrow> (nat \<Rightarrow> 'a thread \<Rightarrow> cache_state \<Rightarrow> bool) \<Rightarrow> 'a pool \<Rightarrow> bool" where
  "on_sites as P c \<longleftrightarrow> length (fst c) = length as
     \<and> (\<forall>i<length as. local (as ! i) (\<lambda>_. True) (snd (fst c ! i)) \<and> (\<exists>s. view (as ! i) s (snd c) \<and> P i (fst c ! i) s))
     \<and> (\<forall>q\<in>set (rcu_pending (snd c)). \<exists>i<length as. q \<in> site_ptrs (as ! i))"

lemma on_sites_thread:
  assumes "on_sites as P (ts, u)" and "i < length ts" and "ts ! i = (H, p)"
  obtains s where "local (as ! i) (\<lambda>_. True) p" and "view (as ! i) s u" and "P i (H, p) s"
  using assms by (auto simp: on_sites_def)

lemma apart_queue: "apart a u u' \<Longrightarrow> q \<in> set (rcu_pending u') \<Longrightarrow> q \<in> site_ptrs a \<or> q \<in> set (rcu_pending u)"
proof -
  assume "apart a u u'" and "q \<in> set (rcu_pending u')"
  then have "set (filter (\<lambda>q. q \<notin> site_ptrs a) (rcu_pending u')) = set (filter (\<lambda>q. q \<notin> site_ptrs a) (rcu_pending u))"
    by (simp add: apart_def)
  with \<open>q \<in> set (rcu_pending u')\<close> show ?thesis by auto
qed

lemma on_sites_update:
  assumes own: "on_sites as P (ts, u)" and sep: "all_separate as" and i: "i < length ts"
    and "local (as ! i) (\<lambda>_. True) k" and "view (as ! i) s u'" and "P i (H, k) s" and ap: "apart (as ! i) u u'"
  shows "on_sites as P (ts[i := (H, k)], u')"
  unfolding on_sites_def
proof (intro conjI allI impI ballI)
  have len: "length ts = length as" using own by (simp add: on_sites_def)
  then show "length (fst (ts[i := (H, k)], u')) = length as" by simp
  show "\<exists>j<length as. q \<in> site_ptrs (as ! j)" if "q \<in> set (rcu_pending (snd (ts[i := (H, k)], u')))" for q
    using that own apart_queue [OF ap, of q] i len by (auto simp: on_sites_def)
  fix j assume j: "j < length as"
  from own j obtain s' where
    o: "local (as ! j) (\<lambda>_. True) (snd (ts ! j))" "view (as ! j) s' u" "P j (ts ! j) s'"
    by (auto simp: on_sites_def)
  show "local (as ! j) (\<lambda>_. True) (snd (fst (ts[i := (H, k)], u') ! j))"
    using o(1) assms(4) i by (cases "j = i") simp_all
  show "\<exists>s. view (as ! j) s (snd (ts[i := (H, k)], u')) \<and> P j (fst (ts[i := (H, k)], u') ! j) s"
  proof (cases "j = i")
    case True
    with assms(5,6) i show ?thesis by auto
  next
    case False
    then have "separate (as ! i) (as ! j)" using sep i j len by (auto simp: all_separate_def)
    with o(2,3) ap view_apart False show ?thesis by (intro exI [of _ s']) auto
  qed
qed

lemma site_lock:
  assumes "view a s u" and "lock_on a l"
  shows "is_locked l s = is_locked l u" "view a (set_lock l b s) (set_lock l b u)" "apart a u (set_lock l b u)"
proof -
  show "is_locked l s = is_locked l u"
  proof (cases l)
    case (BucketLock h)
    then show ?thesis using on_site_bucket [OF assms(1)] assms(2) by (simp add: is_locked.simps)
  qed (use assms in \<open>simp add: is_locked.simps view_def\<close>)
  have "view a (set_lock l b s) (set_lock l b u) \<and> apart a u (set_lock l b u)"
  proof (cases l)
    case (BucketLock h)
    then show ?thesis using site_bucket [OF assms(1)] on_site_bucket [OF assms(1)] assms(2) by (simp add: set_lock.simps)
  next
    case (ExtLock i)
    have "framed a (\<lambda>s. Inr (upd_table (site_socket a) (\<lambda>t. t\<lparr>ext_lock := b\<rparr>) s))" by (rule framed_table)
    from framedD [OF this assms(1) refl] ExtLock assms(2) show ?thesis by (simp add: set_lock.simps)
  qed
  then show "view a (set_lock l b s) (set_lock l b u)" "apart a u (set_lock l b u)" by simp_all
qed

text \<open>What the steps of a thread alone preserve, they preserve in the pool.\<close>

locale site_threads =
  fixes sites :: "site list" and P :: "nat \<Rightarrow> 'a thread \<Rightarrow> cache_state \<Rightarrow> bool"
  assumes on_atomic: "P i (H, Atomic f) s \<Longrightarrow> \<exists>k t. f s = Inr (k, t) \<and> P i (H, k) t"
    and on_acquire: "P i (H, Acquire l k) s \<Longrightarrow> lock_on (sites ! i) l \<Longrightarrow> P i (insert l H, k) (set_lock l True s)"
    and on_release: "P i (H, Release l k) s \<Longrightarrow> P i (H - {l}, k) (set_lock l False s)"
begin

lemma on_sites_step:
  assumes "pstep c c'" and "on_sites sites P c" and sep: "all_separate sites"
  shows "on_sites sites P c'"
  using assms(1,2)
proof (induction rule: pstep.induct)
  case (atomic i ts H f u k u')
  from on_sites_thread [OF atomic(4,1,2)] obtain s where
    o: "local (sites ! i) (\<lambda>_. True) (Atomic f)" "view (sites ! i) s u" "P i (H, Atomic f) s" .
  from on_atomic [OF o(3)] obtain k' s' where k': "f s = Inr (k', s')" "P i (H, k') s'" by blast
  from o(1) obtain u'' where "local (sites ! i) (\<lambda>_. True) k'" "f u = Inr (k', u'')" "view (sites ! i) s' u''" "apart (sites ! i) u u''"
    by (rule local_AtomicE) (use o(2) k'(1) in blast)
  with atomic(3) k'(2) show ?case by (intro on_sites_update [OF atomic(4) sep atomic(1)]) auto
next
  case (acquire i ts H l k u)
  from on_sites_thread [OF acquire(4,1,2)] obtain s where
    o: "local (sites ! i) (\<lambda>_. True) (Acquire l k)" "view (sites ! i) s u" "P i (H, Acquire l k) s" .
  from o(1) have l: "lock_on (sites ! i) l" "local (sites ! i) (\<lambda>_. True) k" by (auto elim: local_AcquireE)
  from on_acquire [OF o(3) l(1)]
  show ?case using site_lock [OF o(2) l(1)] l(2) by (intro on_sites_update [OF acquire(4) sep acquire(1)])
next
  case (release i ts H l k u)
  from on_sites_thread [OF release(3,1,2)] obtain s where
    o: "local (sites ! i) (\<lambda>_. True) (Release l k)" "view (sites ! i) s u" "P i (H, Release l k) s" .
  from o(1) have l: "lock_on (sites ! i) l" "local (sites ! i) (\<lambda>_. True) k" by (auto elim: local_ReleaseE)
  from on_release [OF o(3)]
  show ?case using site_lock [OF o(2) l(1)] l(2) by (intro on_sites_update [OF release(3) sep release(1)])
qed

lemma no_crash:
  assumes "on_sites sites P (ts, u)"
  shows "\<not> crashes (ts, u) e"
proof
  assume "crashes (ts, u) e"
  then obtain i H f where i: "i < length ts" "ts ! i = (H, Atomic f)" "f u = Inl e" by (auto simp: crashes_iff)
  from on_sites_thread [OF assms i(1,2)] obtain s where
    o: "local (sites ! i) (\<lambda>_. True) (Atomic f)" "view (sites ! i) s u" "P i (H, Atomic f) s" .
  from on_atomic [OF o(3)] obtain k where k: "f s = Inr k" by blast
  from o(1) have "f u \<noteq> Inl e" by (rule local_AtomicE) (use o(2) k in \<open>cases k, force\<close>)
  with i(3) show False by simp
qed

end

sublocale site_threads \<subseteq> pool_invariant "\<lambda>c. all_separate sites \<and> on_sites sites P c"
  by unfold_locales (auto intro: on_sites_step)

lemma run_Atomic_Inr: "run (Atomic f) s = Inr (x, t) \<longleftrightarrow> (\<exists>k u. f s = Inr (k, u) \<and> run k u = Inr (x, t))"
  by (cases "f s") auto

text \<open>Each thread would return its result if it ran alone from here.\<close>

interpretation own: site_threads as "\<lambda>i th s. \<exists>t. run (snd th) s = Inr (y i, t)" for as y
  by unfold_locales (auto simp: run_Atomic_Inr simp del: run.simps(2) split: if_splits)

interpretation pool_size: pool_invariant "\<lambda>c. length (fst c) = n" for n
  by unfold_locales (auto elim: pstep.cases)

lemma fresh_view: "view \<lparr>site_cpu = k, site_socket = i, site_count = n, site_ptrs = P, site_bufs = B\<rparr>
    (fresh_cache c t n) (fresh_cache c t n)"
  by (simp add: view_def fresh_cache_def ent_def unique_keys_def)

definition start_all :: "request list list \<Rightarrow> reply list thread list" where
  "start_all rss = map (\<lambda>rs. ({}, programs rs)) rss"

lemma disc_programs: "disciplined None (programs rs) None"
  by (induction rs) (auto intro!: disc_intros disc_program)

lemma lock_inv_start_all: "(\<And>l. \<not> is_locked l s) \<Longrightarrow> lock_inv (start_all rss, s)"
  by (rule lock_invI) (auto intro!: exI [of _ None] disc_programs simp: start_all_def)

lemma on_sites_start:
  assumes on: "\<And>i. i < length as \<Longrightarrow> site_count (as ! i) = n \<and> list_all (request_on (as ! i)) (rss ! i)"
    and "length rss = length as"
    and P: "\<And>i. i < length as \<Longrightarrow> P i ({}, programs (rss ! i)) (fresh_cache c t3 n)"
  shows "on_sites as P (start_all rss, fresh_cache c t3 n)"
proof -
  let ?f = "fresh_cache c t3 n"
  have "local (as ! i) (\<lambda>_. True) (snd (start_all rss ! i)) \<and> (\<exists>s. view (as ! i) s ?f \<and> P i (start_all rss ! i) s)"
    if i: "i < length as" for i
  proof -
    have "view (as ! i) ?f ?f" using fresh_view [of "site_cpu (as ! i)"] on [OF i]
      by (metis site.surjective old.unit.exhaust)
    then show ?thesis using P [OF i] on [OF i] i assms(2) by (auto simp: start_all_def local_programs)
  qed
  moreover have "rcu_pending ?f = []" by (simp add: fresh_cache_def)
  ultimately show ?thesis using assms(2) by (simp add: on_sites_def start_all_def)
qed

lemma threads_run_alone:
  assumes "all_separate as" and "length rss = length as"
    and on: "\<And>i. i < length as \<Longrightarrow> site_count (as ! i) = n \<and> list_all (request_on (as ! i)) (rss ! i)"
    and alone: "\<And>i. i < length as \<Longrightarrow> \<exists>t. perform_all (rss ! i) (fresh_cache c t3 n) = Inr (ys i, t)"
    and run: "pstep\<^sup>*\<^sup>* (start_all rss, fresh_cache c t3 n) (ts, u)"
  shows "(\<forall>e. \<not> crashes (ts, u) e) \<and> (returned (ts, u) \<or> (\<exists>q. pstep (ts, u) q))
    \<and> (\<forall>i<length as. \<forall>H zs. ts ! i = (H, Return zs) \<longrightarrow> zs = ys i)"
proof -
  let ?f = "fresh_cache c t3 n" and ?P = "\<lambda>i th s. \<exists>t. run (snd th) s = Inr (ys i, t)"
  have "on_sites as ?P (start_all rss, ?f)"
    using on assms(2)
  proof (rule on_sites_start)
    show "?P i ({}, programs (rss ! i)) ?f" if "i < length as" for i using alone [OF that] by (simp add: run_programs)
  qed
  with own.always [OF run] assms(1) have own: "on_sites as ?P (ts, u)" by blast
  have "lock_inv (ts, u)" by (rule locks.always [OF run lock_inv_start_all [OF fresh_unlocked]])
  from never_stuck [OF this] own.no_crash [OF own] have "returned (ts, u) \<or> (\<exists>q. pstep (ts, u) q)" by blast
  moreover have "zs = ys i" if "i < length as" "ts ! i = (H, Return zs)" for i H zs
    using own that by (auto simp: on_sites_def)
  ultimately show ?thesis using own.no_crash [OF own] by blast
qed


text \<open>
  C6. CPUs of different nodes do not interfere. Let each thread execute a sequence of stores, lookups and
  invalidations on a CPU of its own, of a socket of its own, with memory that no other thread's
  allocator hands out; and let each sequence, run alone on a freshly initialised cache, finish without a
  fault. Then however the steps of the threads interleave, no step faults, the execution can go on
  until all threads have returned, and each returns exactly the replies it gets when it runs alone.
\<close>

theorem nodes_do_not_interfere:
  assumes "all_separate as" and "length rss = length as"
    and on: "\<And>i. i < length as \<Longrightarrow> site_count (as ! i) = n \<and> list_all (request_on (as ! i)) (rss ! i)"
    and alone: "\<And>i. i < length as \<Longrightarrow> \<exists>t. perform_all (rss ! i) (fresh_cache c t3 n) = Inr (ys i, t)"
    and run: "pstep\<^sup>*\<^sup>* (start_all rss, fresh_cache c t3 n) (ts, u)"
  shows "(\<forall>e. \<not> crashes (ts, u) e) \<and> (returned (ts, u) \<or> (\<exists>q. pstep (ts, u) q))
    \<and> (\<forall>i<length as. \<forall>H zs. ts ! i = (H, Return zs) \<longrightarrow> zs = ys i)"
  by (rule threads_run_alone [OF assms])

text \<open>
  C4. Concurrency on the quiet workload: one CPU per socket, each executing a sequence of requests that
  meets the conditions under which the cache of a single CPU is correct. Then no interleaving of their
  steps faults or gets stuck, and every thread that has returned got only replies that the specification
  of the cache allows.
\<close>

theorem concurrent_nodes_refine_spec:
  assumes "c \<noteq> NULL" and "t3 \<noteq> NULL" and "0 < n" and "all_separate as" and "length rss = length as"
    and on: "\<And>i. i < length as \<Longrightarrow> site_count (as ! i) = n \<and> list_all (request_on (as ! i)) (rss ! i)"
    and quiet: "\<And>i. i < length as \<Longrightarrow>
      0 \<le> node (v i) \<and> alias_free (F i) \<and> quiet (v i) (F i) (rss ! i) (fresh_cache c t3 n)"
    and run: "pstep\<^sup>*\<^sup>* (start_all rss, fresh_cache c t3 n) (ts, u)"
  shows "(\<forall>e. \<not> crashes (ts, u) e) \<and> (returned (ts, u) \<or> (\<exists>q. pstep (ts, u) q))
    \<and> (\<forall>i<length as. \<forall>H zs. ts ! i = (H, Return zs) \<longrightarrow> (\<exists>b. spec_run (\<lambda>_. []) (rss ! i) zs b))"
proof -
  have "\<exists>zs t b. perform_all (rss ! i) (fresh_cache c t3 n) = Inr (zs, t) \<and> spec_run (\<lambda>_. []) (rss ! i) zs b"
    if "i < length as" for i
    using simulates_run [OF fresh_simulates [OF assms(1-3)]] quiet [OF that] by metis
  then obtain ys where ys: "\<And>i. i < length as \<Longrightarrow>
      (\<exists>t. perform_all (rss ! i) (fresh_cache c t3 n) = Inr (ys i, t)) \<and> (\<exists>b. spec_run (\<lambda>_. []) (rss ! i) (ys i) b)"
    by metis
  show ?thesis
    using threads_run_alone [OF assms(4,5) on _ run, of ys] ys by blast
qed

section \<open>A concrete instance\<close>

text \<open>Since no execution is infinite, every pool can be run until no thread can move.\<close>

lemma runs_to_the_end: "\<exists>q. pstep\<^sup>*\<^sup>* c q \<and> (\<nexists>q'. pstep q q')"
proof (induction c rule: wf_induct_rule [OF pstep_wf])
  case (1 c)
  show ?case
  proof (cases "\<exists>c'. pstep c c'")
    case True
    then obtain c' where c: "pstep c c'" by blast
    with 1 obtain q where "pstep\<^sup>*\<^sup>* c' q" "\<nexists>q'. pstep q q'" by blast
    with c show ?thesis by (blast intro: converse_rtranclp_into_rtranclp)
  qed blast
qed

text \<open>Two nodes: the same key is stored on both and looked up again, with different data.\<close>

definition demo_sites :: "site list" where
  "demo_sites = [\<lparr>site_cpu = 0, site_socket = 0, site_count = 2, site_ptrs = {32}, site_bufs = {}\<rparr>,
     \<lparr>site_cpu = 1, site_socket = 1, site_count = 2, site_ptrs = {48}, site_bufs = {}\<rparr>]"

definition demo_nodes :: "request list list" where
  "demo_nodes = [[Store (ctx 0 100 32 0) 5 (Some (replicate 16 7)) 16 4096, Lookup (ctx 0 110 0 0) 5 4096],
     [Store ((ctx 1 100 48 0)\<lparr>node := 1\<rparr>) 5 (Some (replicate 16 9)) 16 4096, Lookup ((ctx 1 110 0 0)\<lparr>node := 1\<rparr>) 5 4096]]"

definition demo_replies :: "nat \<Rightarrow> reply list" where
  "demo_replies i = [Code 0, Hit (Some (350, inline_union (replicate 16 (if i = 0 then 7 else 9))))]"

lemma demo_setup:
  "all_separate demo_sites" "length demo_nodes = length demo_sites"
  "i < length demo_sites \<Longrightarrow> site_count (demo_sites ! i) = 2 \<and> list_all (request_on (demo_sites ! i)) (demo_nodes ! i)"
  by (auto simp: all_separate_def demo_sites_def demo_nodes_def less_Suc_eq separate_def env_on_def ctx_def)

theorem nodes_do_not_interfere_witness:
  "\<exists>ts u. pstep\<^sup>*\<^sup>* (start_all demo_nodes, fresh_cache 16 32 2) (ts, u) \<and> returned (ts, u)
     \<and> snd (ts ! 0) = Return (demo_replies 0) \<and> snd (ts ! 1) = Return (demo_replies 1)"
proof -
  have alone: "\<exists>t. perform_all (demo_nodes ! i) (fresh_cache 16 32 2) = Inr (demo_replies i, t)"
    if "i < length demo_sites" for i
    using that
    by (auto simp: demo_sites_def demo_nodes_def demo_replies_def less_Suc_eq inline_union_def kcr_eval index_eval time_before_iff)
  from runs_to_the_end [of "(start_all demo_nodes, fresh_cache 16 32 2)"] obtain ts u where
    q: "pstep\<^sup>*\<^sup>* (start_all demo_nodes, fresh_cache 16 32 2) (ts, u)" "\<nexists>q. pstep (ts, u) q" by fastforce
  from nodes_do_not_interfere [OF demo_setup alone q(1)] q(2) have
    r: "returned (ts, u)" "\<forall>i<length demo_sites. \<forall>H zs. ts ! i = (H, Return zs) \<longrightarrow> zs = demo_replies i" by blast+
  have "length ts = length (start_all demo_nodes)" using pool_size.always [OF q(1)] by simp
  then have "length ts = 2" by (simp add: start_all_def demo_nodes_def)
  with r have "snd (ts ! i) = Return (demo_replies i)" if "i < 2" for i
    using that by (fastforce simp: demo_sites_def)
  with q(1) r(1) show ?thesis by auto
qed


theorem concurrent_nodes_refine_spec_witness:
  "\<exists>ts u zs b. pstep\<^sup>*\<^sup>* (start_all demo_nodes, fresh_cache 16 32 2) (ts, u) \<and> snd (ts ! 1) = Return zs
     \<and> spec_run (\<lambda>_. []) (demo_nodes ! 1) zs b"
proof -
  let ?v = "\<lambda>i. (ctx i 0 0 0)\<lparr>node := int i\<rparr>"
  have quiet: "0 \<le> node (?v i) \<and> alias_free {5} \<and> quiet (?v i) {5} (demo_nodes ! i) (fresh_cache 16 32 2)"
    if "i < length demo_sites" for i
    using that by (auto simp: alias_free_def demo_sites_def demo_nodes_def less_Suc_eq kcr_eval index_eval same_cpu_def)
  from runs_to_the_end [of "(start_all demo_nodes, fresh_cache 16 32 2)"] obtain ts u where
    q: "pstep\<^sup>*\<^sup>* (start_all demo_nodes, fresh_cache 16 32 2) (ts, u)" "\<nexists>q. pstep (ts, u) q" by fastforce
  from concurrent_nodes_refine_spec [OF _ _ _ demo_setup(1,2,3) quiet q(1)] q(2) have
    r: "returned (ts, u)" "\<forall>i<length demo_sites. \<forall>H zs. ts ! i = (H, Return zs) \<longrightarrow>
      (\<exists>b. spec_run (\<lambda>_. []) (demo_nodes ! i) zs b)" by simp_all
  have "length ts = length (start_all demo_nodes)" using pool_size.always [OF q(1)] by simp
  then have "1 < length ts" "1 < length demo_sites" by (simp_all add: start_all_def demo_nodes_def demo_sites_def)
  with r obtain H zs b where "ts ! 1 = (H, Return zs)" "spec_run (\<lambda>_. []) (demo_nodes ! 1) zs b"
    by (metis returned.simps)
  with q(1) show ?thesis by (metis snd_conv)
qed

end
