(* ===== verification/Cache_Callbacks.thy ===== *)
theory Cache_Callbacks
  imports Cache_Nodes
begin

text \<open>
  RCU callbacks between the steps of a thread. The entries a CPU queues with \<open>call_rcu\<close> are freed on that
  CPU, in its softirq, one after the other; the locks of the cache are taken with interrupts off, so this
  does not happen while the CPU holds one. Here a queued entry can be freed at any other moment, which is
  more than grace periods allow.
\<close>

section \<open>Callbacks\<close>

definition rcu_callback :: "ptr \<Rightarrow> cache_state \<Rightarrow> cache_state res" where
  "rcu_callback p s = free_entry_rcu p (s\<lparr>rcu_pending := remove1 p (rcu_pending s)\<rparr>)"

text \<open>A grace period runs the callbacks of all queued entries.\<close>

lemma free_entry_queue:
  "free_entry_rcu p (s\<lparr>rcu_pending := qs\<rparr>) = map_sum id (\<lambda>t. t\<lparr>rcu_pending := qs\<rparr>) (free_entry_rcu p s)"
  by (simp add: free_entry_rcu_def kfree_entry_def ent_def)

lemma free_entry_keeps: "free_entry_rcu p s = Inr t \<Longrightarrow> rcu_pending t = rcu_pending s"
  by (auto simp: free_entry_rcu_def kfree_entry_def split: if_splits)

lemma grace_callbacks: "rcu_grace_period s = rfold rcu_callback (rcu_pending s) s"
proof -
  have "rfold free_entry_rcu ps (s\<lparr>rcu_pending := []\<rparr>) = rfold rcu_callback ps s" if "rcu_pending s = ps" for ps s
    using that
  proof (induction ps arbitrary: s)
    case Nil
    then show ?case by simp
  next
    case (Cons p ps)
    show ?case
    proof (cases "free_entry_rcu p s")
      case (Inl e)
      then show ?thesis using Cons.prems by (simp add: rcu_callback_def free_entry_queue)
    next
      case (Inr t)
      have "rfold free_entry_rcu ps (t\<lparr>rcu_pending := []\<rparr>) = rfold rcu_callback ps (t\<lparr>rcu_pending := ps\<rparr>)"
        using Cons.IH [of "t\<lparr>rcu_pending := ps\<rparr>"] by simp
      moreover have "rcu_callback p s = Inr (t\<lparr>rcu_pending := ps\<rparr>)"
        using Inr Cons.prems by (simp add: rcu_callback_def free_entry_queue)
      ultimately show ?thesis using Inr by (simp add: free_entry_queue)
    qed
  qed
  then show ?thesis by (simp add: rcu_grace_period_def)
qed

lemma callback_thinned:
  assumes "distinct (rcu_pending s)" and "p \<in> set (rcu_pending s)" and "p \<noteq> NULL" and "ent s p \<noteq> None"
  shows "\<exists>t. rcu_callback p s = Inr t \<and> thinned (remove1 p (rcu_pending s)) s t"
proof -
  let ?es = "AList.delete p (entries s)" and ?qs = "remove1 p (rcu_pending s)"
  have "rcu_callback p s = Inr (s\<lparr>entries := ?es, rcu_pending := ?qs\<rparr>)"
    using assms(3,4) by (auto simp: rcu_callback_def free_entry_rcu_def kfree_entry_def ent_def)
  moreover have "thinned ?qs s (s\<lparr>entries := ?es, rcu_pending := ?qs\<rparr>)"
    using assms(1,2) by (auto simp: thinned_def ent_def delete_conv' intro!: exI [of _ ?es])
  ultimately show ?thesis by blast
qed

lemma same_locks_callback: "rcu_callback p s = Inr t \<Longrightarrow> same_locks s t"
  by (auto simp: rcu_callback_def free_entry_rcu_def intro: same_locks_views same_locks_trans
      dest: same_locks_steps(5))

section \<open>Programs that tolerate callbacks\<close>

definition site_idle :: "site \<Rightarrow> cache_state \<Rightarrow> bool" where
  "site_idle a s \<longleftrightarrow> (\<forall>l. lock_on a l \<longrightarrow> \<not> is_locked l s)"

definition reclaims :: "site \<Rightarrow> cache_state \<Rightarrow> cache_state \<Rightarrow> bool" where
  "reclaims a s t \<longleftrightarrow> site_idle a s \<and> (\<exists>p\<in>set (rcu_pending s). rcu_callback p s = Inr t)"

text \<open>Whatever callbacks run now, they do not fault and \<open>R\<close> holds.\<close>

definition settles :: "site \<Rightarrow> (cache_state \<Rightarrow> bool) \<Rightarrow> cache_state \<Rightarrow> bool" where
  "settles a R s \<longleftrightarrow> (\<forall>t. (reclaims a)\<^sup>*\<^sup>* s t \<longrightarrow>
     R t \<and> (site_idle a t \<longrightarrow> (\<forall>p\<in>set (rcu_pending t). \<exists>u. rcu_callback p t = Inr u)))"

text \<open>
  A program that runs alone on a site, with callbacks wherever they are possible, does not fault
  and ends with a result and a state related by \<open>\<Phi>\<close>.
\<close>

primrec safe :: "'a prog \<Rightarrow> site \<Rightarrow> ('a \<Rightarrow> cache_state \<Rightarrow> bool) \<Rightarrow> cache_state \<Rightarrow> bool" where
  "safe (Return x) = (\<lambda>a \<Phi>. settles a (\<Phi> x))"
| "safe (Atomic f) = (\<lambda>a \<Phi>. settles a (\<lambda>s.
     case map_sum id (map_prod safe id) (f s) of Inl _ \<Rightarrow> False | Inr (k, t) \<Rightarrow> k a \<Phi> t))"
| "safe (Acquire l p) = (\<lambda>a \<Phi>. settles a (\<lambda>s. \<not> is_locked l s \<and> safe p a \<Phi> (set_lock l True s)))"
| "safe (Release l p) = (\<lambda>a \<Phi>. settles a (\<lambda>s. safe p a \<Phi> (set_lock l False s)))"

lemma settles_now: "settles a R s \<Longrightarrow> R s"
  by (simp add: settles_def)

lemma settles_mono: "settles a R s \<Longrightarrow> (\<And>t. R t \<Longrightarrow> S t) \<Longrightarrow> settles a S s"
  by (simp add: settles_def)

lemma settles_again: "settles a R s \<Longrightarrow> settles a (settles a R) s"
  unfolding settles_def by (meson rtranclp_trans)

lemma settles_callback:
  assumes "settles a R s" and "site_idle a s" and "p \<in> set (rcu_pending s)"
  shows "\<exists>t. rcu_callback p s = Inr t \<and> settles a R t"
proof -
  from assms obtain t where t: "rcu_callback p s = Inr t" by (auto simp: settles_def)
  with assms(2,3) have "reclaims a s t" by (auto simp: reclaims_def)
  then have "settles a R t" using settles_again [OF assms(1)] by (auto simp: settles_def)
  with t show ?thesis by blast
qed

lemma settles_busy: "\<not> site_idle a s \<Longrightarrow> R s \<Longrightarrow> settles a R s"
  by (auto simp: settles_def reclaims_def elim: converse_rtranclpE)

text \<open>What no callback breaks settles.\<close>

definition withstands :: "(cache_state \<Rightarrow> bool) \<Rightarrow> bool" where
  "withstands J \<longleftrightarrow> (\<forall>s. \<forall>p\<in>set (rcu_pending s). J s \<longrightarrow> (\<exists>t. rcu_callback p s = Inr t \<and> J t))"

lemma withstandsD: "withstands J \<Longrightarrow> J s \<Longrightarrow> p \<in> set (rcu_pending s) \<Longrightarrow> \<exists>t. rcu_callback p s = Inr t \<and> J t"
  by (simp add: withstands_def)

lemma settlesI:
  assumes "withstands J" and "J s" and "\<And>t. J t \<Longrightarrow> R t"
  shows "settles a R s"
proof -
  have "J t" if "(reclaims a)\<^sup>*\<^sup>* s t" for t
    using that assms(1,2) by (induction rule: rtranclp_induct) (fastforce simp: withstands_def reclaims_def)+
  then show ?thesis using withstandsD [OF assms(1)] assms(3) unfolding settles_def by blast
qed

text \<open>A condition on states in which the queued entries are allocated, that keeps when some are freed.\<close>

lemma withstandsI:
  assumes "\<And>s. J s \<Longrightarrow> distinct (rcu_pending s)"
    and "\<And>s q. J s \<Longrightarrow> q \<in> set (rcu_pending s) \<Longrightarrow> q \<noteq> NULL \<and> ent s q \<noteq> None"
    and "\<And>s qs t. J s \<Longrightarrow> thinned qs s t \<Longrightarrow> J t"
  shows "withstands J"
  unfolding withstands_def using callback_thinned assms by meson

lemma safe_settles: "safe p a \<Phi> s \<Longrightarrow> settles a (safe p a \<Phi>) s"
  by (cases p) (auto dest: settles_again)

lemma safe_Atomic: "safe (Atomic f) a \<Phi> s \<longleftrightarrow> settles a (\<lambda>s. \<exists>k t. f s = Inr (k, t) \<and> safe k a \<Phi> t) s"
proof -
  have "(case map_sum id (map_prod safe id) (f s) of Inl _ \<Rightarrow> False | Inr (k, t) \<Rightarrow> k a \<Phi> t)
    \<longleftrightarrow> (\<exists>k t. f s = Inr (k, t) \<and> safe k a \<Phi> t)" for s
    by (cases "f s") auto
  then show ?thesis by simp
qed

declare safe.simps(2) [simp del]

lemma safe_pbind: "safe p a (\<lambda>x. safe (g x) a \<Phi>) s \<Longrightarrow> safe (pbind p g) a \<Phi> s"
proof (induction p arbitrary: s)
  case (Return x)
  then show ?case by (auto dest: settles_now)
next
  case (Atomic f)
  have "\<exists>k t. map_sum id (map_prod (\<lambda>p. pbind p g) id) (f s) = Inr (k, t) \<and> safe k a \<Phi> t"
    if "\<exists>k t. f s = Inr (k, t) \<and> safe k a (\<lambda>x. safe (g x) a \<Phi>) t" for s
  proof -
    from that obtain k t where k: "f s = Inr (k, t)" "safe k a (\<lambda>x. safe (g x) a \<Phi>) t" by blast
    have "safe (pbind k g) a \<Phi> t"
      by (rule Atomic.IH [OF rangeI [of f s], of "(k, t)"]) (simp_all add: k)
    with k(1) show ?thesis by simp
  qed
  with Atomic.prems show ?case unfolding pbind.simps safe_Atomic by (rule settles_mono)
qed (auto elim: settles_mono)

lemma safe_weaken:
  "safe p a \<Phi> s \<Longrightarrow> (\<And>x t. settles a (\<Phi> x) t \<Longrightarrow> settles a (\<Psi> x) t) \<Longrightarrow> safe p a \<Psi> s"
proof (induction p arbitrary: s)
  case (Atomic f)
  have "\<exists>k t. f s = Inr (k, t) \<and> safe k a \<Psi> t" if "\<exists>k t. f s = Inr (k, t) \<and> safe k a \<Phi> t" for s
  proof -
    from that obtain k t where k: "f s = Inr (k, t)" "safe k a \<Phi> t" by blast
    have "safe k a \<Psi> t" by (rule Atomic.IH [OF rangeI [of f s], of "(k, t)"]) (simp_all add: k Atomic.prems(2))
    with k(1) show ?thesis by simp
  qed
  with Atomic.prems(1) show ?case unfolding safe_Atomic by (rule settles_mono)
qed (auto elim!: settles_mono)

lemma safe_mono: "safe p a \<Phi> s \<Longrightarrow> (\<And>x t. \<Phi> x t \<Longrightarrow> \<Psi> x t) \<Longrightarrow> safe p a \<Psi> s"
  by (erule safe_weaken) (auto elim: settles_mono)

lemma safe_bind_return: "safe p a (\<lambda>x. \<Phi> (h x)) s \<Longrightarrow> safe (pbind p (\<lambda>x. Return (h x))) a \<Phi> s"
  by (rule safe_pbind, erule safe_weaken) (simp add: settles_again)

section \<open>Rules for the steps\<close>

lemma safe_fetch:
  "settles a (\<lambda>s. \<exists>x t. f s = Inr (x, t) \<and> settles a (\<Phi> x) t) s \<Longrightarrow> safe (fetch f) a \<Phi> s"
  unfolding fetch_def safe_Atomic by (auto elim!: settles_mono)

lemma safe_ask: "settles a (\<lambda>s. \<exists>x. f s = Inr x \<and> settles a (\<Phi> x) s) s \<Longrightarrow> safe (ask f) a \<Phi> s"
  unfolding ask_def by (rule safe_fetch) (auto elim!: settles_mono)

lemma safe_act: "settles a (\<lambda>s. \<exists>t. f s = Inr t \<and> settles a (\<Phi> ()) t) s \<Longrightarrow> safe (act f) a \<Phi> s"
  unfolding act_def by (rule safe_fetch) (auto elim!: settles_mono)

text \<open>While a lock of the site is held no callback runs.\<close>

lemma site_busy: "is_locked l s \<Longrightarrow> lock_on a l \<Longrightarrow> \<not> site_idle a s"
  by (auto simp: site_idle_def)

lemma safe_locked:
  "(\<And>l. disciplined l p l) \<Longrightarrow> run p s = Inr (x, t) \<Longrightarrow> is_locked l0 s \<Longrightarrow> lock_on a l0 \<Longrightarrow>
    \<Phi> x t \<Longrightarrow> safe p a \<Phi> s"
proof (induction p arbitrary: s)
  case (Return y)
  then show ?case by (auto intro: settles_busy [OF site_busy])
next
  case (Atomic f)
  from Atomic.prems(2) obtain k u where k: "f s = Inr (k, u)" "run k u = Inr (x, t)" by (cases "f s") auto
  have d: "same_locks s u \<and> disciplined l k l" for l
    using Atomic.prems(1) [of l] k(1) by (auto elim: disciplined_AtomicE)
  have "safe k a \<Phi> u"
    by (rule Atomic.IH [OF rangeI [of f s], of "(k, u)"]) (use Atomic.prems k d in \<open>auto simp: same_locks_def\<close>)
  with k(1) site_busy [OF Atomic.prems(3,4)] show ?case by (auto simp: safe_Atomic intro: settles_busy)
next
  case (Acquire l p)
  from Acquire.prems(1) [of "Some l"] show ?case by (auto elim: disciplined_AcquireE)
next
  case (Release l p)
  from Release.prems(1) [of None] show ?case by (auto elim: disciplined_ReleaseE)
qed

lemma straight_locks:
  "run p s = Inr (x, t) \<Longrightarrow> (\<And>l. disciplined l p l) \<Longrightarrow> is_locked l0 s \<Longrightarrow> is_locked l0 t"
proof (induction p arbitrary: s)
  case (Atomic f)
  then obtain k u where k: "f s = Inr (k, u)" "run k u = Inr (x, t)" by (cases "f s") auto
  have d: "same_locks s u \<and> disciplined l k l" for l
    using Atomic.prems(2) [of l] k(1) by (auto elim: disciplined_AtomicE)
  show ?case
    by (rule Atomic.IH [OF rangeI [of f s], of "(k, u)" k u]) (use Atomic.prems k d in \<open>auto simp: same_locks_def\<close>)
next
  case (Acquire l p)
  from Acquire.prems(2) [of "Some l"] show ?case by (auto elim: disciplined_AcquireE)
next
  case (Release l p)
  from Release.prems(2) [of None] show ?case by (auto elim: disciplined_ReleaseE)
qed simp

text \<open>A critical section is one step.\<close>

lemma safe_section:
  assumes l: "lock_on a l" and p: "\<And>l'. disciplined l' p l'"
    and s: "settles a (\<lambda>s. \<not> is_locked l s \<and> (\<exists>x t. run p (set_lock l True s) = Inr (x, t)
      \<and> safe (g x) a \<Phi> (set_lock l False t))) s"
  shows "safe (pbind (acquire l) (\<lambda>_. pbind p (\<lambda>x. pbind (release l) (\<lambda>_. g x)))) a \<Phi> s"
proof -
  let ?k = "\<lambda>x. pbind (release l) (\<lambda>_. g x)"
  have "safe (pbind p ?k) a \<Phi> (set_lock l True s)"
    if r: "run p (set_lock l True s) = Inr (x, t)" "safe (g x) a \<Phi> (set_lock l False t)" for s x t
  proof (rule safe_pbind, rule safe_locked [OF p r(1) _ l])
    show "is_locked l (set_lock l True s)" by simp
    then have "is_locked l t" by (rule straight_locks [OF r(1) p])
    with r(2) l show "safe (?k x) a \<Phi> t"
      by (auto simp: release_def intro: settles_busy [OF site_busy])
  qed
  with s show ?thesis by (auto simp: acquire_def elim!: settles_mono)
qed

section \<open>Sequences of steps\<close>

lemma safe_return_step: "withstands J \<Longrightarrow> J s \<Longrightarrow> (\<And>s. J s \<Longrightarrow> \<Phi> x s) \<Longrightarrow> safe (Return x) a \<Phi> s"
  by (simp add: settlesI)

lemma safe_fetch_step:
  assumes "withstands J" and "J s" and "\<And>s. J s \<Longrightarrow> \<exists>x t. f s = Inr (x, t) \<and> safe (g x) a \<Phi> t"
  shows "safe (pbind (fetch f) g) a \<Phi> s"
proof (rule safe_pbind, rule safe_fetch, rule settlesI [OF assms(1,2)])
  fix t assume "J t"
  from assms(3) [OF this] show "\<exists>x u. f t = Inr (x, u) \<and> settles a (safe (g x) a \<Phi>) u"
    using safe_settles by blast
qed

lemma safe_ask_step:
  assumes "withstands J" and "J s" and "\<And>s. J s \<Longrightarrow> \<exists>x. f s = Inr x \<and> safe (g x) a \<Phi> s"
  shows "safe (pbind (ask f) g) a \<Phi> s"
  unfolding ask_def by (rule safe_fetch_step [OF assms(1,2)]) (auto dest: assms(3))

lemma safe_act_step:
  assumes "withstands J" and "J s" and "\<And>s. J s \<Longrightarrow> \<exists>t. f s = Inr t \<and> safe (g ()) a \<Phi> t"
  shows "safe (pbind (act f) g) a \<Phi> s"
  unfolding act_def by (rule safe_fetch_step [OF assms(1,2)]) (auto dest: assms(3))

lemma safe_section_step:
  assumes "withstands J" and "J s" and l: "lock_on a l" and p: "\<And>l'. disciplined l' p l'"
    and s: "\<And>s. J s \<Longrightarrow> \<exists>x t. run (pbind (acquire l) (\<lambda>_. pbind p (\<lambda>x. pbind (release l) (\<lambda>_. Return x)))) s = Inr (x, t)
      \<and> safe (g x) a \<Phi> t"
  shows "safe (pbind (acquire l) (\<lambda>_. pbind p (\<lambda>x. pbind (release l) (\<lambda>_. g x)))) a \<Phi> s"
proof (rule safe_section [OF l p], rule settlesI [OF assms(1,2)])
  fix s assume "J s"
  from s [OF this] show "\<not> is_locked l s \<and> (\<exists>x t. run p (set_lock l True s) = Inr (x, t) \<and> safe (g x) a \<Phi> (set_lock l False t))"
    by (auto simp: rbind_Inr_iff split: if_splits)
qed

lemma safe_replace_step:
  assumes "withstands J" and "J s" and "on_site a h"
    and s: "\<And>s. J s \<Longrightarrow> \<exists>t. replace_in_bucket h p fp s = Inr t \<and> safe (g ()) a \<Phi> t"
  shows "safe (pbind (replace_steps h p fp) g) a \<Phi> s"
proof -
  let ?body = "pbind (ask (\<lambda>s. rbind (get_ent s p) (\<lambda>e. hlist_find (fuel s) (same_key fp (mm e)) s (hfirst s h)))) (\<lambda>old.
     pbind (if old \<noteq> NULL then pbind (act (hlist_del_rcu old)) (\<lambda>_. act (call_rcu old)) else Return ()) (\<lambda>_.
     act (hlist_add_head_rcu p h)))"
  let ?s = "\<lambda>g. pbind (acquire (BucketLock h)) (\<lambda>_. pbind ?body (\<lambda>x. pbind (release (BucketLock h)) (\<lambda>_. g x)))"
  have eq: "pbind (replace_steps h p fp) g = ?s g" for g :: "unit \<Rightarrow> 'b prog"
    by (simp add: replace_steps_def pbind_assoc)
  have d: "disciplined l ?body l" for l by (rule disc_intros)+
  show ?thesis
    unfolding eq
  proof (rule safe_section_step [OF assms(1,2) _ d])
    fix s assume "J s"
    from s [OF this] show "\<exists>x t. run (?s Return) s = Inr (x, t) \<and> safe (g x) a \<Phi> t"
      unfolding eq [symmetric] by (auto simp: run_replace)
  qed (simp add: assms(3))
qed

end
