(* ===== verification/Cache_Tolerant.thy ===== *)
theory Cache_Tolerant
  imports Cache_Callbacks
begin

text \<open>
  Lookups and stores on the quiet workload, with callbacks between their steps. Between two operations the
  lists of the CPU are coherent (\<open>resting\<close>); a store first carries an entry nobody else sees (\<open>carrying\<close>),
  then is between its two insertions (\<open>halfway\<close>). Callbacks preserve all three.
\<close>

section \<open>The states a callback may find\<close>

definition coherent_with :: "((nat \<Rightarrow> ptr list) \<Rightarrow> cache_state \<Rightarrow> bool) \<Rightarrow> site \<Rightarrow> env \<Rightarrow> u64 set \<Rightarrow> ptr set \<Rightarrow> abs_cache \<Rightarrow> cache_state \<Rightarrow> bool" where
  "coherent_with G a v F X c s \<longleftrightarrow> num_sockets s = site_count a \<and> dom (ent s) \<subseteq> X
     \<and> (\<exists>A. coherent v F A s \<and> c = (\<lambda>b. abs_bucket_of s (A b)) \<and> G A s)"

abbreviation resting :: "site \<Rightarrow> env \<Rightarrow> u64 set \<Rightarrow> ptr set \<Rightarrow> abs_cache \<Rightarrow> cache_state \<Rightarrow> bool" where
  "resting \<equiv> coherent_with (\<lambda>_ _. True)"

text \<open>A lookup has found \<open>p\<close>.\<close>

abbreviation found :: "u64 \<Rightarrow> ptr \<Rightarrow> ptr \<Rightarrow> site \<Rightarrow> env \<Rightarrow> u64 set \<Rightarrow> ptr set \<Rightarrow> abs_cache \<Rightarrow> cache_state \<Rightarrow> bool" where
  "found fp m p a v \<equiv>
     coherent_with (\<lambda>A s. p = first_match (ent s) (live_match fp m (jiffies v)) (A (l2_index fp))) a v"

abbreviation carrying :: "ptr \<Rightarrow> kcr_entry \<Rightarrow> site \<Rightarrow> env \<Rightarrow> u64 set \<Rightarrow> ptr set \<Rightarrow> abs_cache \<Rightarrow> cache_state \<Rightarrow> bool" where
  "carrying p e \<equiv> coherent_with (\<lambda>A s. p \<noteq> NULL \<and> ent s p = Some e \<and> p \<notin> set (rcu_pending s) \<and> (\<forall>b. p \<notin> set (A b)))"

definition halfway :: "site \<Rightarrow> env \<Rightarrow> u64 set \<Rightarrow> ptr set \<Rightarrow> abs_cache \<Rightarrow> u64 \<Rightarrow> ptr \<Rightarrow> cache_state \<Rightarrow> bool" where
  "halfway a v F X c fp p s \<longleftrightarrow> num_sockets s = site_count a \<and> dom (ent s) \<subseteq> X
     \<and> (\<exists>A e. half_stored v F A fp p s \<and> ent s p = Some e
       \<and> c = (\<lambda>b. abs_bucket_of s (A b))(l2_index fp := abs_entry e # abs_bucket_of s (A (l2_index fp))))"

lemma thinned_dom: "thinned qs s t \<Longrightarrow> dom (ent t) \<subseteq> dom (ent s)"
  by (auto simp: thinned_views(1) split: if_splits)

lemma thinned_keeps: "thinned qs s t \<Longrightarrow> p \<notin> set (rcu_pending s) \<Longrightarrow> ent t p = ent s p \<and> p \<notin> set (rcu_pending t)"
  using thinned_queue(2) by (force simp: thinned_views(1))

lemma half_thinned:
  assumes ha: "half_stored v F A fp p s" and th: "thinned qs s t"
  shows "half_stored v F A fp p t" "abs_bucket_of t (A b) = abs_bucket_of s (A b)"
proof -
  note D = half_storedD [OF ha]
  have live: "q \<notin> set (rcu_pending s)" if "q \<in> set (A b)" for q b using that D(15) [of q] by blast
  note same = thinned_lists [OF th live]
  show "abs_bucket_of t (A b) = abs_bucket_of s (A b)" by (simp add: same)
  have "\<exists>e. ent t q = Some e \<and> fingerprint e \<in> F \<and> l2_index (fingerprint e) = b" if "q \<in> set (A b)" for q b
    using D(9) [OF that] live [OF that] by (simp add: thinned_views(1) [OF th])
  moreover have "q \<noteq> NULL \<and> ent t q \<noteq> None \<and> (\<forall>b. q \<notin> set (A b))" if "q \<in> set (rcu_pending t)" for q
    using thinned_queue(2) [OF th that] D(15) [of q] by simp
  ultimately show "half_stored v F A fp p t"
    using ha thinned_queue(1) [OF th] thinned_keeps [OF th D(11)] unfolding half_stored_def
    by (simp add: same thinned_views(3-14) [OF th])
qed

lemma coherent_withE:
  assumes "coherent_with G a v F X c s"
  obtains A where "coherent v F A s" "c = (\<lambda>b. abs_bucket_of s (A b))" "G A s" "num_sockets s = site_count a" "dom (ent s) \<subseteq> X"
  using assms by (auto simp: coherent_with_def)

lemma withstands_coherent:
  assumes G: "\<And>A s qs t. coherent v F A s \<Longrightarrow> thinned qs s t \<Longrightarrow> G A s \<Longrightarrow> G A t"
  shows "withstands (coherent_with G a v F X c)"
proof (rule withstandsI)
  fix s assume "coherent_with G a v F X c s"
  then obtain A where A: "coherent v F A s" by (rule coherent_withE)
  then show "distinct (rcu_pending s)" by (rule coherentD(8))
  show "q \<noteq> NULL \<and> ent s q \<noteq> None" if "q \<in> set (rcu_pending s)" for q using coherentD(9) [OF A that] by simp
next
  fix s qs t assume r: "coherent_with G a v F X c s" and th: "thinned qs s t"
  from r obtain A where A: "coherent v F A s" "c = (\<lambda>b. abs_bucket_of s (A b))" "G A s"
    "num_sockets s = site_count a" "dom (ent s) \<subseteq> X" by (rule coherent_withE)
  have "coherent v F A t \<and> c = (\<lambda>b. abs_bucket_of t (A b)) \<and> G A t"
    unfolding A(2) using coherent_thinned(1,2) [OF A(1) th] G [OF A(1) th A(3)] by simp
  then show "coherent_with G a v F X c t"
    using A(4) order_trans [OF thinned_dom [OF th] A(5)] thinned_views(9) [OF th] unfolding coherent_with_def by auto
qed

named_theorems withstanding \<open>conditions that callbacks preserve\<close>

lemma withstands_resting [withstanding]: "withstands (resting a v F X c)"
  by (rule withstands_coherent)

lemma withstands_carrying [withstanding]: "withstands (carrying p e a v F X c)"
  by (rule withstands_coherent) (use thinned_keeps in auto)

lemma first_match_cong: "(\<And>q. q \<in> set qs \<Longrightarrow> g q = h q) \<Longrightarrow> first_match g P qs = first_match h P qs"
  by (simp add: first_match_def cong: find_cong)

lemma withstands_found [withstanding]: "withstands (found fp m p a v F X c)"
proof (rule withstands_coherent)
  fix A s qs t assume co: "coherent v F A s" and th: "thinned qs s t"
    and p: "p = first_match (ent s) (live_match fp m (jiffies v)) (A (l2_index fp))"
  have "ent t q = ent s q" if "q \<in> set (A (l2_index fp))" for q
    using that coherentD(9) [OF co, of q] by (auto simp: thinned_views(1) [OF th])
  then show "p = first_match (ent t) (live_match fp m (jiffies v)) (A (l2_index fp))"
    unfolding p by (intro first_match_cong) simp
qed

lemma withstands_halfway [withstanding]: "withstands (halfway a v F X c fp p)"
proof (rule withstandsI)
  fix s assume "halfway a v F X c fp p s"
  then obtain A where A: "half_stored v F A fp p s" by (auto simp: halfway_def)
  then show "distinct (rcu_pending s)" by (rule half_storedD)
  show "q \<noteq> NULL \<and> ent s q \<noteq> None" if "q \<in> set (rcu_pending s)" for q using half_storedD(15) [OF A that] by simp
next
  fix s qs t assume h: "halfway a v F X c fp p s" and th: "thinned qs s t"
  from h obtain A e where A: "half_stored v F A fp p s" "ent s p = Some e"
    "c = (\<lambda>b. abs_bucket_of s (A b))(l2_index fp := abs_entry e # abs_bucket_of s (A (l2_index fp)))"
    by (auto simp: halfway_def)
  have "half_stored v F A fp p t \<and> ent t p = Some e
    \<and> c = (\<lambda>b. abs_bucket_of t (A b))(l2_index fp := abs_entry e # abs_bucket_of t (A (l2_index fp)))"
    unfolding A(3) using half_thinned [OF A(1) th] thinned_keeps [OF th half_storedD(11) [OF A(1)]] A(2) by simp
  then show "halfway a v F X c fp p t"
    using h thinned_dom [OF th] thinned_views(9) [OF th] unfolding halfway_def by fastforce
qed

section \<open>Lookups\<close>

lemma coherent_with_same_cpu: "same_cpu v w \<Longrightarrow> resting a v F X c s = resting a w F X c s"
proof -
  assume w: "same_cpu v w"
  then have "same_cpu w v" by (simp add: same_cpu_def)
  with w have "coherent v F A s = coherent w F A s" for A using coherent_same_cpu by blast
  then show ?thesis by (simp add: coherent_with_def)
qed

lemma found_l2:
  assumes "resting a w F X c s" and fp: "fp \<in> F"
  shows "\<exists>p t. lookup_l2 w (cpu w) fp m s = Inr (p, t) \<and> found fp m p a w F X c t"
proof -
  from assms(1) obtain A where A: "coherent w F A s" "c = (\<lambda>b. abs_bucket_of s (A b))"
    "num_sockets s = site_count a" "dom (ent s) \<subseteq> X" by (rule coherent_withE)
  have tw: "twin w s fp (A (l2_index fp))" by (rule coherentD(5) [OF A(1) fp])
  let ?p = "first_match (ent s) (live_match fp m (jiffies w)) (A (l2_index fp))"
  let ?t = "if ?p \<noteq> NULL then upd_stats (cpu w) (\<lambda>st. st\<lparr>l2_hits := l2_hits st + 1\<rparr>) s else s"
  have "hlist_find (fuel s) (live_match fp m (jiffies w)) s (hfirst s (L2Head (cpu w) (l2_index fp))) = Inr ?p"
    using twin_chain [OF tw] by (intro hlist_find_total) (simp add: l2_head_def)
  then have "lookup_l2 w (cpu w) fp m s = Inr (?p, ?t)"
    using coherentD(1) [OF A(1)] by (simp add: lookup_l2_def l2_ready_def)
  moreover have "found fp m ?p a w F X c ?t"
    unfolding coherent_with_def using A coherent_upd_stats [OF A(1)]
    by (intro conjI exI [of _ A]) (simp_all add: abs_bucket_of_def)
  ultimately show ?thesis by blast
qed

lemma found_l3:
  assumes "found fp m p a w F X c s" and fp: "fp \<in> F"
  shows "lookup_l3 w fp m s = Inr p"
proof -
  from assms(1) obtain A where A: "coherent w F A s" "p = first_match (ent s) (live_match fp m (jiffies w)) (A (l2_index fp))"
    by (rule coherent_withE)
  show ?thesis
    unfolding A(2) using twin_chain [OF coherentD(5) [OF A(1) fp]] by (intro lookup_l3_chain [OF coherentD(2) [OF A(1)]]) simp
qed

lemma found_missed: "found fp m p a w F X c s \<Longrightarrow> found fp m p a w F X c (upd_stats k f s)"
  by (erule coherent_withE, unfold coherent_with_def, intro conjI exI)
    (auto simp: abs_bucket_of_def intro: coherent_upd_stats)

lemma found_answers:
  assumes "found fp m p a w F X c s" and fp: "fp \<in> F"
  shows "read_reply s p = mru_find (jiffies w) (fp, m) (c (l2_index fp))" "resting a w F X c s"
proof -
  from assms(1) obtain A where A: "coherent w F A s" "c = (\<lambda>b. abs_bucket_of s (A b))"
    "p = first_match (ent s) (live_match fp m (jiffies w)) (A (l2_index fp))" by (rule coherent_withE)
  have "answers s p (mru_find (jiffies w) (fp, m) (abs_bucket_of s (A (l2_index fp))))"
    unfolding A(3) using twin_alloc [OF coherentD(5) [OF A(1) fp]] coherentD(6) [OF A(1)] by (intro first_match_live) blast+
  then show "read_reply s p = mru_find (jiffies w) (fp, m) (c (l2_index fp))" using answers_read A(2) by simp
  show "resting a w F X c s" using assms(1) by (auto simp: coherent_with_def)
qed

lemma safe_lookup:
  assumes r: "resting a v F X c s" and w: "same_cpu v w" and fp: "fp \<in> F"
  shows "safe (program (Lookup w fp m)) a (\<lambda>y t. spec_step c (Lookup w fp m) y c \<and> resting a v F X c t) s"
proof -
  let ?\<Phi> = "\<lambda>y t. spec_step c (Lookup w fp m) y c \<and> resting a v F X c t"
  let ?read = "\<lambda>p. ask (\<lambda>s. Inr (Hit (read_reply s p)))"
  have read: "safe (?read p) a ?\<Phi> t" if "found fp m p a w F X c t" for p t
  proof (rule safe_ask, rule settlesI [OF withstands_found that], intro exI conjI, rule refl, rule settlesI [OF withstands_found])
    fix t u assume "found fp m p a w F X c t" "found fp m p a w F X c u"
    then show "?\<Phi> (Hit (read_reply t p)) u"
      using found_answers(1) [OF _ fp] found_answers(2) [OF _ fp] spec_step.lookup coherent_with_same_cpu [OF w] by metis
  qed
  have miss: "safe (pbind (ask (lookup_l3 w fp m)) g) a ?\<Phi> t"
    if "found fp m NULL a w F X c t" "\<And>t. found fp m NULL a w F X c t \<Longrightarrow> safe (g NULL) a ?\<Phi> t" for g t
    by (rule safe_ask_step [OF withstands_found that(1)]) (use that(2) found_l3 [OF _ fp] in blast)
  have count: "safe (pbind (act (\<lambda>s. Inr (upd_stats (cpu w) f s))) (\<lambda>_. ?read NULL)) a ?\<Phi> t"
    if "found fp m NULL a w F X c t" for f t
    by (rule safe_act_step [OF withstands_found that]) (use read found_missed in blast)
  have "resting a w F X c s" using r coherent_with_same_cpu [OF w] by blast
  then show ?thesis
    unfolding program.simps lookup_steps_def pbind_assoc
  proof (rule safe_fetch_step [OF withstands_resting])
    fix s assume "resting a w F X c s"
    from found_l2 [OF this fp] obtain p t where
      p: "lookup_l2 w (cpu w) fp m s = Inr (p, t)" "found fp m p a w F X c t" by blast
    show "\<exists>x t. lookup_l2 w (cpu w) fp m s = Inr (x, t) \<and> safe (pbind (if x \<noteq> NULL then Return x
       else pbind (ask (lookup_l3 w fp m)) (\<lambda>p. if p \<noteq> NULL
         then pbind (promote_steps (cpu w) p fp) (\<lambda>_. pbind (act (\<lambda>s. Inr (upd_stats (cpu w) (\<lambda>st. st\<lparr>l3_hits := l3_hits st + 1\<rparr>) s))) (\<lambda>_. Return p))
         else pbind (act (\<lambda>s. Inr (upd_stats (cpu w) (\<lambda>st. st\<lparr>misses := misses st + 1\<rparr>) s))) (\<lambda>_. Return NULL))) ?read) a ?\<Phi> t"
      using p read miss count by (cases "p = NULL") (simp_all add: pbind_assoc)
  qed
qed

section \<open>Stores\<close>

text \<open>The new entry, until it is on a list.\<close>

lemma carry:
  assumes "resting a w F X c s" and new: "p \<noteq> NULL" "p \<notin> X"
  shows "carrying p e a w F (insert p X) c (put_ent p e s)"
proof -
  from assms(1) obtain A where A: "coherent w F A s" "c = (\<lambda>b. abs_bucket_of s (A b))"
    "num_sockets s = site_count a" "dom (ent s) \<subseteq> X" by (rule coherent_withE)
  from A(4) new have none: "ent s p = None" by auto
  have pl: "placed s (put_ent p e s) p e" by (simp add: placed_def frame_simps)
  have es: "ent (put_ent p e s) = (ent s)(p \<mapsto> e)" "num_sockets (put_ent p e s) = num_sockets s"
    using pl by (simp_all add: placed_def)
  note co = coherent_placed [OF A(1) pl none]
  show ?thesis
    unfolding coherent_with_def A(2)
    using A(3,4) new co by (intro conjI exI [of _ A]) (auto simp: es)
qed

lemma carry_placed:
  assumes "carrying p e a w F X c s" and pl: "placed s t p e'"
  shows "carrying p e' a w F X c t"
proof -
  from assms(1) obtain A where A: "coherent w F A s" "c = (\<lambda>b. abs_bucket_of s (A b))"
    "num_sockets s = site_count a" "dom (ent s) \<subseteq> X"
    and p: "p \<noteq> NULL" "ent s p = Some e" "p \<notin> set (rcu_pending s)" "\<And>b. p \<notin> set (A b)"
    unfolding coherent_with_def by blast
  from pl have es: "ent t = (ent s)(p \<mapsto> e')" "num_sockets t = num_sockets s" "rcu_pending t = rcu_pending s"
    by (simp_all add: placed_def)
  show ?thesis
    unfolding coherent_with_def A(2)
    using A(3,4) p placed_coherent [OF A(1) pl p(4)] by (intro conjI exI [of _ A]) (auto simp: es)
qed

lemma drop_carried:
  assumes "carrying p e a w F X c s"
  shows "\<exists>t. kfree_entry p s = Inr t \<and> resting a w F X c t"
proof -
  from assms obtain A where A: "coherent w F A s" "c = (\<lambda>b. abs_bucket_of s (A b))"
    "num_sockets s = site_count a" "dom (ent s) \<subseteq> X"
    and p: "p \<noteq> NULL" "ent s p = Some e" "p \<notin> set (rcu_pending s)" "\<And>b. p \<notin> set (A b)"
    unfolding coherent_with_def by blast
  let ?t = "s\<lparr>entries := AList.delete p (entries s)\<rparr>"
  have es: "ent ?t = (ent s)(p := None)" by (simp add: ent_def delete_conv' fun_eq_iff)
  have same: "ent ?t q = ent s q" if "q \<in> set (A b)" for q b using that p(4) es by auto
  have hf: "hfirst ?t h = hfirst s h" "bucket_at ?t h = bucket_at s h" for h by (cases h; simp add: hfirst_def)+
  have hl: "hlist ?t h (A b) = hlist s h (A b)" for h b
    using dlist_frame [of "A b" "ent ?t" "ent s"] same by (simp add: hlist_def hf)
  have keys: "entry_keys ?t (A b) = entry_keys s (A b)" "abs_bucket_of ?t (A b) = abs_bucket_of s (A b)" for b
    using same by (simp_all add: entry_keys_def abs_bucket_of_def)
  have heads: "l2_head w ?t f = l2_head w s f" "l3_head w ?t f = l3_head w s f" for f
    by (simp_all add: l2_head_def l3_head_def socket_of_def)
  have "q \<noteq> NULL \<and> ent ?t q \<noteq> None \<and> (\<forall>b. q \<notin> set (A b))" if "q \<in> set (rcu_pending s)" for q
    using coherentD(9) [OF A(1) that] that p(3) by (auto simp: es)
  moreover have "\<exists>e. ent ?t q = Some e \<and> fingerprint e \<in> F \<and> l2_index (fingerprint e) = b" if "q \<in> set (A b)" for q b
    using coherentD(7) [OF A(1) that] same [OF that] by simp
  ultimately have "coherent w F A ?t"
    using A(1) unfolding coherent_def twin_def heads hl keys hf by (simp add: l2_ready_def l3_ready_def)
  then have "resting a w F X c ?t"
    unfolding coherent_with_def A(2) using A(3,4) by (intro conjI exI [of _ A]) (auto simp: es keys)
  moreover have "kfree_entry p s = Inr ?t" using p(1,2) by (simp add: kfree_entry_def)
  ultimately show ?thesis by blast
qed

text \<open>The data: what the steps of \<open>store_external\<close> do to the entry, and that they do not fault.\<close>

lemma update_same: "map_of al k = Some v \<Longrightarrow> AList.update k v al = al"
  by (induction al) auto

lemma put_ent_same: "ent s p = Some e \<Longrightarrow> put_ent p e s = s"
  by (simp add: put_ent_def ent_def update_same)

lemma place_carried:
  assumes "carrying p (new_entry w fp m) a w F X c s" and "unat len \<le> length d"
  shows "\<exists>ok t. place_data w p d len s = Inr (ok, t) \<and>
    (if ok then carrying p ((new_entry w fp m)\<lparr>result_union := stored_union w d len\<rparr>) a w F X c t
     else KCR_RESULT_SIZE_MAX < unat len \<and> carrying p (new_entry w fp m) a w F X c t)"
proof -
  from assms(1) obtain A where A: "coherent w F A s" and p: "p \<noteq> NULL" "ent s p = Some (new_entry w fp m)"
    unfolding coherent_with_def by blast
  from place_data_total [OF coherentD(2,4) [OF A] p(1) _ assms(2)] p(2) obtain ok t where
    t: "place_data w p d len s = Inr (ok, t)" by auto
  show ?thesis
  proof (cases ok)
    case True
    with t put_ent_same [OF p(2)] have "placed s t p ((new_entry w fp m)\<lparr>result_union := stored_union w d len\<rparr>)"
      by (intro place_data_placed) (auto split: if_splits)
    from carry_placed [OF assms(1) this] t True show ?thesis by auto
  next
    case False
    have "KCR_RESULT_SIZE_MAX < unat len"
      using t False put_ent_same [OF p(2)] store_inline_placed [of p d len w fp m s ok t] by (auto split: if_splits)
    moreover from this have "t = s"
      using t False put_ent_same [OF p(2)] store_external_failed [of w p d len "new_entry w fp m" s t] new_entry_no_ext
      by simp
    ultimately show ?thesis using t False assms(1) by auto
  qed
qed

lemma carrying_get: "carrying p e a w F X c s \<Longrightarrow> get_ent s p = Inr e"
  by (auto simp: coherent_with_def get_ent_Inr)

lemma carrying_socket: "carrying p e a w F X c s \<Longrightarrow> env_on a w \<Longrightarrow> l3_socket w s = Inr (site_socket a)"
  by (erule coherent_withE) (auto dest!: coherentD(2) simp: l3_socket_ready socket_of_def env_on_def)

lemma safe_external:
  assumes c: "carrying p (new_entry w fp m) a w F X c s" and len: "unat len \<le> length d" "KCR_RESULT_SIZE_MAX < unat len"
    and w: "env_on a w"
    and ok: "\<And>t. carrying p ((new_entry w fp m)\<lparr>result_union := stored_union w d len\<rparr>) a w F X c t \<Longrightarrow> safe (g True) a \<Phi> t"
    and failed: "\<And>t. carrying p (new_entry w fp m) a w F X c t \<Longrightarrow> safe (g False) a \<Phi> t"
  shows "safe (pbind (external_steps w p d len) g) a \<Phi> s"
proof -
  let ?e0 = "new_entry w fp m" and ?e1 = "(new_entry w fp m)\<lparr>result_union := stored_union w d len\<rparr>" and ?i = "site_socket a"
  let ?sec = "\<lambda>g. pbind (acquire (ExtLock ?i)) (\<lambda>_. pbind (fetch (fill_slot w ?i p d len)) (\<lambda>x. pbind (release (ExtLock ?i)) (\<lambda>_. g x)))"
  let ?good = "\<lambda>x e. \<not> (KCR_EXT_SLOTS \<le> x \<or> ext_data e = NULL)"
  let ?rest = "\<lambda>x. pbind (ask (\<lambda>s. get_ent s p)) (\<lambda>e. Return (?good x e))"
  have check: "safe (pbind (?rest x) g) a \<Phi> t" if t: "carrying p e a w F X c t"
    and k: "\<And>t. carrying p e a w F X c t \<Longrightarrow> safe (g (?good x e)) a \<Phi> t" for x e t
    unfolding pbind_assoc by (rule safe_ask_step [OF withstands_carrying t]) (use k carrying_get in auto)
  have part: "\<exists>x t. run (?sec Return) s = Inr (x, t) \<and> safe (pbind (?rest x) g) a \<Phi> t"
    if s: "carrying p ?e0 a w F X c s" for s
  proof -
    from place_carried [OF s len(1)] len(2) obtain b t where
      t: "store_external w p d len s = Inr (b, t)" "carrying p (if b then ?e1 else ?e0) a w F X c t"
      by (cases rule: exE) (auto split: if_splits)
    have "external_steps w p d len = pbind (ask (l3_socket w)) (\<lambda>i. pbind (acquire (ExtLock i)) (\<lambda>_.
        pbind (fetch (fill_slot w i p d len)) (\<lambda>x. pbind (release (ExtLock i)) (\<lambda>_. ?rest x))))"
      by (simp add: external_steps_def)
    then have "run (pbind (?sec Return) ?rest) s = Inr (b, t)"
      using t(1) carrying_socket [OF s w] unfolding run_external [symmetric] by (simp add: pbind_assoc)
    then have "rbind (run (?sec Return) s) (\<lambda>(x, t). run (?rest x) t) = Inr (b, t)" unfolding run_pbind .
    then obtain x u where x: "run (?sec Return) s = Inr (x, u)" "run (?rest x) u = Inr (b, t)"
      unfolding rbind_Inr_iff by auto
    from x(2) have u: "u = t" "b = ?good x (if b then ?e1 else ?e0)"
      using carrying_get [OF t(2)] by (auto simp: rbind_Inr_iff)
    have "safe (g b) a \<Phi> t'" if "carrying p (if b then ?e1 else ?e0) a w F X c t'" for t'
      using that ok failed by (cases b) simp_all
    then have "safe (pbind (?rest x) g) a \<Phi> t" using u(2) by (intro check [OF t(2)]) simp
    with x(1) u(1) show ?thesis by blast
  qed
  have d: "disciplined l (fetch (fill_slot w ?i p d len)) l" for l by (rule disc_intros)
  show ?thesis
    unfolding external_steps_def pbind_assoc
  proof (rule safe_ask_step [OF withstands_carrying c])
    fix s assume s: "carrying p ?e0 a w F X c s"
    have "safe (?sec (\<lambda>x. pbind (?rest x) g)) a \<Phi> s"
      by (rule safe_section_step [OF withstands_carrying s _ d part]) simp
    then show "\<exists>i. l3_socket w s = Inr i \<and> safe (pbind (acquire (ExtLock i)) (\<lambda>_. pbind (fetch (fill_slot w i p d len)) (\<lambda>x.
        pbind (release (ExtLock i)) (\<lambda>_. pbind (ask (\<lambda>s. get_ent s p)) (\<lambda>e. pbind (Return (?good x e)) g))))) a \<Phi> s"
      using carrying_socket [OF s w] by (simp add: pbind_assoc)
  qed
qed

text \<open>The two insertions.\<close>

lemma frame_dom: "cache_frame s t \<Longrightarrow> dom (ent t) = dom (ent s)"
  using cache_frame_dom by (auto simp: dom_def)

lemma insert_first:
  assumes "carrying p e a w F X c s" and F: "alias_free F" "fp \<in> F" and e: "fingerprint e = fp"
  shows "\<exists>t. replace_in_bucket (L2Head (cpu w) (l2_index fp)) p fp s = Inr t
    \<and> halfway a w F X (c(l2_index fp := mru_store (key_of e) (expiry_jiffies e, result_union e) (c (l2_index fp)))) fp p t"
proof -
  let ?b = "l2_index fp"
  from assms(1) obtain A where A: "coherent w F A s" "c = (\<lambda>b. abs_bucket_of s (A b))"
    "num_sockets s = site_count a" "dom (ent s) \<subseteq> X"
    and p: "p \<noteq> NULL" "ent s p = Some e" "p \<notin> set (rcu_pending s)" "\<And>b. p \<notin> set (A b)"
    unfolding coherent_with_def by blast
  let ?old = "first_match (ent s) (same_key fp (mm e)) (A ?b)"
  let ?A = "A(?b := remove1 ?old (A ?b))"
  from coherent_half [OF A(1) F p(1,2) e p(4,3)] obtain t where
    t: "store_in_l2 (cpu w) p fp s = Inr t" "cache_frame s t" "half_stored w F ?A fp p t" by blast
  have run: "replace_in_bucket (L2Head (cpu w) ?b) p fp s = Inr t"
    using t(1) coherentD(1) [OF A(1)] by (simp add: store_in_l2_def l2_ready_def)
  have tw: "twin w s fp (A ?b)" by (rule coherentD(5) [OF A(1) F(2)])
  have "q \<in> set (?A b) \<Longrightarrow> ent s q \<noteq> None" for q b
    using coherent_alloc [OF A(1), of q b] set_remove1_subset [of ?old "A ?b"] by (auto split: if_splits)
  then have abs: "abs_bucket_of t (?A b) = abs_bucket_of s (?A b)" for b by (rule abs_bucket_frame [OF t(2)])
  have rm: "abs_bucket_of s (remove1 ?old (A ?b)) = filter (\<lambda>(k', _). k' \<noteq> (fp, mm e)) (abs_bucket_of s (A ?b))"
    using twin_alloc [OF tw] coherentD(6) [OF A(1)] chain_distinct twin_chain [OF tw] by (intro abs_remove1) blast+
  from cache_frame_ent [OF t(2) p(2)] obtain e' where e': "ent t p = Some e'" "payload e' = payload e" .
  have entry: "abs_entry e' = (key_of e, (expiry_jiffies e, result_union e))"
    using abs_entry_payload [OF e'(2)] by (simp add: abs_entry_def)
  have "c(?b := mru_store (key_of e) (expiry_jiffies e, result_union e) (c ?b))
    = (\<lambda>b. abs_bucket_of t (?A b))(?b := abs_entry e' # abs_bucket_of t (?A ?b))"
    unfolding abs using rm e by (auto simp: A(2) fun_eq_iff mru_store_def entry key_of_def)
  moreover have "num_sockets t = site_count a" "dom (ent t) \<subseteq> X"
    using A(3,4) t(2) by (simp_all add: frame_dom) (simp add: cache_frame_def)
  ultimately show ?thesis using run t(3) e'(1) unfolding halfway_def by blast
qed

lemma halfway_socket: "halfway a w F X c fp p s \<Longrightarrow> env_on a w \<Longrightarrow> l3_socket w s = Inr (site_socket a)"
  by (auto dest!: half_storedD(2) simp: halfway_def l3_socket_ready socket_of_def env_on_def)

lemma insert_second:
  assumes h: "halfway a w F X c fp p s" and F: "alias_free F" "fp \<in> F" and w: "env_on a w"
  shows "\<exists>t. replace_in_bucket (L3Head (site_socket a) (l3_index fp)) p fp s = Inr t \<and> resting a w F X c t"
proof -
  let ?b = "l2_index fp"
  from h obtain A e where A: "half_stored w F A fp p s" "ent s p = Some e" "num_sockets s = site_count a" "dom (ent s) \<subseteq> X"
    "c = (\<lambda>b. abs_bucket_of s (A b))(?b := abs_entry e # abs_bucket_of s (A ?b))"
    unfolding halfway_def by blast
  let ?B = "A(?b := p # A ?b)"
  from half_coherent [OF A(1) F] obtain t where
    t: "store_in_l3 w p fp s = Inr t" "cache_frame s t" "coherent w F ?B t" by blast
  have run: "replace_in_bucket (L3Head (site_socket a) (l3_index fp)) p fp s = Inr t"
    using t(1) halfway_socket [OF h w] by (simp add: store_in_l3_def)
  have "q \<in> set (?B b) \<Longrightarrow> ent s q \<noteq> None" for q b
    using half_storedD(9) [OF A(1), of q b] A(2) by (auto split: if_splits)
  then have abs: "abs_bucket_of t (?B b) = abs_bucket_of s (?B b)" for b by (rule abs_bucket_frame [OF t(2)])
  have "c = (\<lambda>b. abs_bucket_of t (?B b))" unfolding abs by (simp add: A(2,5) fun_eq_iff)
  moreover have "num_sockets t = site_count a" "dom (ent t) \<subseteq> X"
    using A(3,4) t(2) by (simp_all add: frame_dom) (simp add: cache_frame_def)
  ultimately show ?thesis using run t(3) unfolding coherent_with_def by blast
qed

lemma safe_insertions:
  assumes c: "carrying p e a w F X c s" and F: "alias_free F" "fp \<in> F" and e: "fingerprint e = fp" and w: "env_on a w"
    and fin: "\<And>t. resting a w F X (c(l2_index fp := mru_store (key_of e) (expiry_jiffies e, result_union e) (c (l2_index fp)))) t
      \<Longrightarrow> \<Phi> y t"
  shows "safe (pbind check_caches (\<lambda>_. pbind (replace_steps (L2Head (cpu w) (l2_index fp)) p fp) (\<lambda>_.
      pbind (ask (l3_socket w)) (\<lambda>i. pbind (replace_steps (L3Head i (l3_index fp)) p fp) (\<lambda>_. Return y))))) a \<Phi> s"
proof -
  let ?c = "c(l2_index fp := mru_store (key_of e) (expiry_jiffies e, result_union e) (c (l2_index fp)))"
  let ?l3 = "\<lambda>i. pbind (replace_steps (L3Head i (l3_index fp)) p fp) (\<lambda>_. Return y)"
  have last: "safe (Return y) a \<Phi> t" if "resting a w F X ?c t" for t
    by (rule safe_return_step [OF withstands_resting that]) (rule fin)
  have second: "safe (?l3 (site_socket a)) a \<Phi> t" if "halfway a w F X ?c fp p t" for t
  proof (rule safe_replace_step [OF withstands_halfway that])
    show "\<exists>u. replace_in_bucket (L3Head (site_socket a) (l3_index fp)) p fp t = Inr u \<and> safe (Return y) a \<Phi> u"
      if "halfway a w F X ?c fp p t" for t using insert_second [OF that F w] last by blast
  qed simp
  have between: "safe (pbind (ask (l3_socket w)) ?l3) a \<Phi> t" if "halfway a w F X ?c fp p t" for t
    by (rule safe_ask_step [OF withstands_halfway that]) (use halfway_socket [OF _ w] second in blast)
  have first: "safe (pbind (replace_steps (L2Head (cpu w) (l2_index fp)) p fp) (\<lambda>_. pbind (ask (l3_socket w)) ?l3)) a \<Phi> t"
    if "carrying p e a w F X c t" for t
  proof (rule safe_replace_step [OF withstands_carrying that])
    show "\<exists>u. replace_in_bucket (L2Head (cpu w) (l2_index fp)) p fp t = Inr u \<and> safe (pbind (ask (l3_socket w)) ?l3) a \<Phi> u"
      if "carrying p e a w F X c t" for t using insert_first [OF that F e] between by blast
  qed (use w in \<open>simp add: env_on_def\<close>)
  show ?thesis
    unfolding check_caches_def
    by (rule safe_ask_step [OF withstands_carrying c])
      (use first in \<open>auto elim!: coherent_withE dest: coherentD(1) simp: l2_ready_def\<close>)
qed

lemma safe_discard:
  assumes "carrying p e a w F X c s" and "\<And>t. resting a w F X c t \<Longrightarrow> \<Phi> y t"
  shows "safe (pbind (act (kfree_entry p)) (\<lambda>_. Return y)) a \<Phi> s"
proof (rule safe_act_step [OF withstands_carrying assms(1)])
  fix t assume "carrying p e a w F X c t"
  from drop_carried [OF this] obtain u where u: "kfree_entry p t = Inr u" "resting a w F X c u" by blast
  have "safe (Return y) a \<Phi> u" by (rule safe_return_step [OF withstands_resting u(2)]) (rule assms(2))
  with u(1) show "\<exists>u. kfree_entry p t = Inr u \<and> safe (Return y) a \<Phi> u" by blast
qed

lemma safe_place:
  assumes c: "carrying p (new_entry w fp m) a w F X c s" and len: "unat len \<le> length d" and w: "env_on a w"
    and ok: "\<And>t. carrying p ((new_entry w fp m)\<lparr>result_union := stored_union w d len\<rparr>) a w F X c t \<Longrightarrow> safe (g True) a \<Phi> t"
    and failed: "\<And>t. KCR_RESULT_SIZE_MAX < unat len \<Longrightarrow> carrying p (new_entry w fp m) a w F X c t \<Longrightarrow> safe (g False) a \<Phi> t"
  shows "safe (pbind (if KCR_RESULT_SIZE_MAX < unat len then external_steps w p d len else fetch (store_inline p d len)) g) a \<Phi> s"
proof (cases "KCR_RESULT_SIZE_MAX < unat len")
  case True
  have "safe (pbind (external_steps w p d len) g) a \<Phi> s"
    by (rule safe_external [OF c len True w]) (use ok failed True in simp_all)
  with True show ?thesis by simp
next
  case False
  have "safe (pbind (fetch (store_inline p d len)) g) a \<Phi> s"
  proof (rule safe_fetch_step [OF withstands_carrying c])
    fix t assume "carrying p (new_entry w fp m) a w F X c t"
    from place_carried [OF this len] False
    show "\<exists>x u. store_inline p d len t = Inr (x, u) \<and> safe (g x) a \<Phi> u" using ok by (auto split: if_splits)
  qed
  with False show ?thesis by simp
qed

lemma safe_store:
  assumes r: "resting a v F X c s" and w: "same_cpu v w" "env_on a w" and F: "alias_free F" "fp \<in> F"
    and len: "case data of None \<Rightarrow> True | Some d \<Rightarrow> unat len \<le> length d" and new: "kzalloc_ret w \<notin> X - {NULL}"
  shows "safe (program (Store w fp data len m)) a
    (\<lambda>y t. \<exists>c'. spec_step c (Store w fp data len m) y c' \<and> resting a v F (insert (kzalloc_ret w) X) c' t) s"
proof -
  let ?p = "kzalloc_ret w" and ?X = "insert (kzalloc_ret w) X" and ?e0 = "new_entry w fp m"
  let ?\<Phi> = "\<lambda>y t. \<exists>c'. spec_step c (Store w fp data len m) y c' \<and> resting a v F ?X c' t"
  have fin: "?\<Phi> y t" if "resting a w F ?X c' t" "spec_step c (Store w fp data len m) y c'" for y c' t
    using that coherent_with_same_cpu [OF w(1)] by blast
  have stop: "safe (Return y) a ?\<Phi> s" if "spec_step c (Store w fp data len m) y c" for y
  proof (rule safe_return_step [OF withstands_resting])
    show "resting a w F ?X c s" using r coherent_with_same_cpu [OF w(1)] by (auto simp: coherent_with_def)
    then show "?\<Phi> y t" if "resting a w F ?X c t" for t using fin that \<open>spec_step c (Store w fp data len m) y c\<close> by blast
  qed
  consider (invalid) "data = None \<or> len = 0" | (null) d where "data = Some d" "len \<noteq> 0" "?p = NULL"
    | (place) d where "data = Some d" "len \<noteq> 0" "?p \<noteq> NULL" by (metis option.exhaust)
  then show ?thesis
  proof cases
    case invalid
    then have "program (Store w fp data len m) = Return (Code (- EINVAL))"
      by (auto simp: store_steps_def split: option.split)
    then show ?thesis using stop spec_step.invalid [OF invalid] by simp
  next
    case null
    then have "program (Store w fp data len m) = Return (Code (- ENOMEM))" by (simp add: store_steps_def)
    moreover have "spec_step c (Store w fp data len m) (Code (- ENOMEM)) c"
      using null by (intro spec_step.no_memory) auto
    ultimately show ?thesis using stop by simp
  next
    case (place d)
    let ?e1 = "?e0\<lparr>result_union := stored_union w d len\<rparr>"
    let ?k = "\<lambda>ok. if \<not> ok then pbind (act (kfree_entry ?p)) (\<lambda>_. Return (Code (- ENOMEM)))
      else pbind check_caches (\<lambda>_. pbind (replace_steps (L2Head (cpu w) (l2_index fp)) ?p fp) (\<lambda>_.
        pbind (ask (l3_socket w)) (\<lambda>i. pbind (replace_steps (L3Head i (l3_index fp)) ?p fp) (\<lambda>_. Return (Code 0)))))"
    let ?place = "pbind (if KCR_RESULT_SIZE_MAX < unat len then external_steps w ?p d len else fetch (store_inline ?p d len)) ?k"
    have prog: "program (Store w fp data len m) = pbind (act (\<lambda>s. Inr (put_ent ?p ?e0 s))) (\<lambda>_. ?place)"
      using place by (simp add: store_steps_def pbind_assoc Let_def if_distrib [of "\<lambda>p. pbind p _"] cong: if_cong)
    have ok: "safe (?k True) a ?\<Phi> t" if "carrying ?p ?e1 a w F ?X c t" for t
      using safe_insertions [OF that F _ w(2), of ?\<Phi> "Code 0"] fin spec_step.store [OF place(2,3) refl]
      by (simp add: new_entry_def key_of_def place(1))
    have failed: "safe (?k False) a ?\<Phi> t" if "KCR_RESULT_SIZE_MAX < unat len" "carrying ?p ?e0 a w F ?X c t" for t
      using safe_discard [OF that(2), of ?\<Phi> "Code (- ENOMEM)"] fin spec_step.no_memory [of data len w c fp m] place(1,2) that(1)
      by simp
    have "unat len \<le> length d" using len place(1) by simp
    then have placed: "safe ?place a ?\<Phi> t" if "carrying ?p ?e0 a w F ?X c t" for t
      by (rule safe_place [OF that _ w(2)]) (fact ok, fact failed)
    show ?thesis
      unfolding prog
    proof (rule safe_act_step [OF withstands_resting])
      show "resting a w F X c s" using r coherent_with_same_cpu [OF w(1)] by blast
      show "\<exists>t. Inr (put_ent ?p ?e0 s) = Inr t \<and> safe ?place a ?\<Phi> t" if "resting a w F X c s" for s
        using carry [OF that place(3), of ?e0] new place(3) placed by simp
    qed
  qed
qed

section \<open>Sequences of requests\<close>

text \<open>
  Requests whose conditions do not depend on the state: lookups and stores of one CPU, fingerprints in
  \<open>F\<close>, and an allocator that does not return an address of \<open>X\<close>, nor one twice.
\<close>

fun calm :: "env \<Rightarrow> u64 set \<Rightarrow> ptr set \<Rightarrow> request list \<Rightarrow> bool" where
  "calm v F X [] \<longleftrightarrow> True"
| "calm v F X (Lookup w fp m # rs) \<longleftrightarrow> same_cpu v w \<and> fp \<in> F \<and> calm v F X rs"
| "calm v F X (Store w fp data len m # rs) \<longleftrightarrow> same_cpu v w \<and> fp \<in> F
     \<and> (case data of None \<Rightarrow> True | Some d \<Rightarrow> unat len \<le> length d) \<and> kzalloc_ret w \<notin> X - {NULL}
     \<and> calm v F (insert (kzalloc_ret w) X) rs"
| "calm v F X (Invalidate w m l u # rs) \<longleftrightarrow> False"
| "calm v F X (Grace # rs) \<longleftrightarrow> False"

lemma safe_programs:
  assumes "resting a v F X c s" and "alias_free F" and "calm v F X rs" and "list_all (request_on a) rs"
  shows "safe (programs rs) a (\<lambda>zs t. \<exists>b. spec_run c rs zs b) s"
  using assms(1,3,4)
proof (induction rs arbitrary: c X s)
  case Nil
  show ?case
    unfolding programs.simps by (rule safe_return_step [OF withstands_resting Nil(1)]) (auto intro: spec_run.stop)
next
  case (Cons r rs)
  obtain Y where Y: "calm v F Y rs"
    "safe (program r) a (\<lambda>y t. \<exists>c'. spec_step c r y c' \<and> resting a v F Y c' t) s"
  proof (cases r)
    case (Lookup w fp m)
    have "safe (program r) a (\<lambda>y t. \<exists>c'. spec_step c r y c' \<and> resting a v F X c' t) s"
      unfolding Lookup by (rule safe_mono [OF safe_lookup [OF Cons.prems(1)]]) (use Cons.prems(2) Lookup in auto)
    with Cons.prems(2) show thesis by (intro that [of X]) (simp_all add: Lookup)
  next
    case (Store w fp data len m)
    have "safe (program r) a (\<lambda>y t. \<exists>c'. spec_step c r y c' \<and> resting a v F (insert (kzalloc_ret w) X) c' t) s"
      unfolding Store by (rule safe_store [OF Cons.prems(1) _ _ assms(2)]) (use Cons.prems(2,3) Store in auto)
    with Cons.prems(2) show thesis by (intro that [of "insert (kzalloc_ret w) X"]) (simp_all add: Store)
  qed (use Cons.prems(2) in simp_all)
  have rest: "safe (pbind (programs rs) (\<lambda>ys. Return (y # ys))) a (\<lambda>zs t. \<exists>b. spec_run c (r # rs) zs b) t"
    if "spec_step c r y c'" "resting a v F Y c' t" for y c' t
  proof (rule safe_bind_return, rule safe_mono)
    show "safe (programs rs) a (\<lambda>zs t. \<exists>b. spec_run c' rs zs b) t"
      by (rule Cons.IH [OF that(2) Y(1)]) (use Cons.prems(3) in simp)
    show "\<exists>b. spec_run c (r # rs) (y # zs) b" if "\<exists>b. spec_run c' rs zs b" for zs
      using that \<open>spec_step c r y c'\<close> by (auto intro: spec_run.go)
  qed
  show ?case unfolding programs.simps
    by (rule safe_pbind, rule safe_mono [OF Y(2)]) (use rest in blast)
qed

end
