(* ===== verification/Cache_Reclaim.thy ===== *)
theory Cache_Reclaim
  imports Cache_Tolerant
begin

text \<open>
  Concurrency and reclamation together: threads on CPUs of separate nodes whose steps interleave with each
  other and with the RCU callbacks of every CPU.
\<close>

section \<open>Pools with callbacks\<close>

text \<open>
  The callbacks of the entries a CPU has queued run on that CPU, while it holds no lock. \<open>as\<close> tells which
  entries are whose.
\<close>

inductive rstep :: "site list \<Rightarrow> 'a pool \<Rightarrow> 'a pool \<Rightarrow> bool" for as where
  thread: "pstep c c' \<Longrightarrow> rstep as c c'"
| callback: "i < length ts \<Longrightarrow> fst (ts ! i) = {} \<Longrightarrow> q \<in> set (rcu_pending u) \<Longrightarrow> q \<in> site_ptrs (as ! i) \<Longrightarrow>
    rcu_callback q u = Inr u' \<Longrightarrow> rstep as (ts, u) (ts, u')"

inductive callback_faults :: "site list \<Rightarrow> 'a pool \<Rightarrow> fault \<Rightarrow> bool" for as where
  "i < length ts \<Longrightarrow> fst (ts ! i) = {} \<Longrightarrow> q \<in> set (rcu_pending u) \<Longrightarrow> q \<in> site_ptrs (as ! i) \<Longrightarrow>
    rcu_callback q u = Inl e \<Longrightarrow> callback_faults as (ts, u) e"

inductive_simps callback_faults_iff: "callback_faults as (ts, u) e"

text \<open>No execution is infinite: a thread step makes a thread shorter, a callback the queue.\<close>

lemma callback_shortens: "rcu_callback q u = Inr u' \<Longrightarrow> q \<in> set (rcu_pending u) \<Longrightarrow> length (rcu_pending u') < length (rcu_pending u)"
  using length_pos_if_in_set [of q "rcu_pending u"]
  by (auto simp: rcu_callback_def length_remove1 dest!: free_entry_keeps)

lemma rstep_wf: "wf {(c', c). rstep as c c'}"
proof (rule wf_subset)
  let ?r = "listrel1 next_prog <*lex*> measure length"
  let ?f = "\<lambda>c :: 'a pool. (map snd (fst c), rcu_pending (snd c))"
  show "wf (inv_image ?r ?f)" by (simp add: wf_next_prog wf_lex_prod)
  have "(?f c', ?f c) \<in> ?r" if "rstep as c c'" for c c'
    using that by (cases rule: rstep.cases) (simp_all add: pstep_decreases callback_shortens)
  then show "{(c', c). rstep as c c'} \<subseteq> inv_image ?r ?f" by auto
qed

section \<open>Callbacks and sites\<close>

lemma framed_callback: "q \<in> site_ptrs a \<Longrightarrow> framed a (rcu_callback q)"
proof -
  assume q: "q \<in> site_ptrs a"
  let ?deq = "\<lambda>s. s\<lparr>rcu_pending := remove1 q (rcu_pending s)\<rparr>"
  have "framed a (\<lambda>s. Inr (?deq s))"
  proof (rule framed_pure)
    fix s u assume "view a s u"
    moreover have "filter (\<lambda>x. x \<notin> site_ptrs a) (remove1 q (rcu_pending u)) = filter (\<lambda>x. x \<notin> site_ptrs a) (rcu_pending u)"
      using q by (simp add: filter_remove1 remove1_idem)
    ultimately show "view a (?deq s) (?deq u) \<and> apart a u (?deq u)"
      by (simp add: view_def apart_def ent_def filter_remove1)
  qed
  moreover have "framed a (free_entry_rcu q)"
  proof -
    have "free_entry_rcu q = kfree_entry q" by (simp add: free_entry_rcu_def fun_eq_iff)
    then show ?thesis by (simp add: framed_kfree)
  qed
  ultimately have "framed a (\<lambda>s. rbind (Inr (?deq s)) (free_entry_rcu q))" by (rule framed_seq)
  then show ?thesis by (simp add: rcu_callback_def [abs_def])
qed

lemma lock_inv_callback: "lock_inv (ts, u) \<Longrightarrow> rcu_callback q u = Inr u' \<Longrightarrow> lock_inv (ts, u')"
  by (drule same_locks_callback) (simp add: lock_inv.simps same_locks_def)

lemma separate_locks:
  assumes "separate a b" and "lock_on a l"
  shows "\<not> lock_on b l"
proof (cases l)
  case (BucketLock h)
  then show ?thesis using assms by (cases h) (auto simp: separate_def)
qed (use assms in \<open>auto simp: separate_def\<close>)

text \<open>
  Each thread holds locks of its site only, and what is left of it tolerates callbacks.
\<close>

abbreviation tolerant :: "site list \<Rightarrow> (nat \<Rightarrow> 'a \<Rightarrow> cache_state \<Rightarrow> bool) \<Rightarrow> nat \<Rightarrow> 'a thread \<Rightarrow> cache_state \<Rightarrow> bool" where
  "tolerant as \<Phi> i th s \<equiv> (\<forall>l\<in>fst th. lock_on (as ! i) l) \<and> safe (snd th) (as ! i) (\<Phi> i) s"

interpretation tolerant: site_threads as "tolerant as \<Phi>" for as \<Phi>
  by unfold_locales (auto simp: safe_Atomic dest!: settles_now)

lemma idle_site:
  assumes inv: "lock_inv (ts, u)" and on: "on_sites as (tolerant as \<Phi>) (ts, u)" and sep: "all_separate as"
    and i: "i < length ts" "fst (ts ! i) = {}" and v: "view (as ! i) s u"
  shows "site_idle (as ! i) s"
  unfolding site_idle_def
proof (intro allI impI notI)
  fix l assume l: "lock_on (as ! i) l" "is_locked l s"
  then have "is_locked l u" using site_lock(1) [OF v] by simp
  then obtain j where j: "j < length ts" "l \<in> fst (ts ! j)" using lock_invD(2) [OF inv] by blast
  with on have "lock_on (as ! j) l" by (auto simp: on_sites_def)
  moreover have "j \<noteq> i" using i j by auto
  then have "separate (as ! i) (as ! j)" using sep on i j by (simp add: all_separate_def on_sites_def)
  ultimately show False using separate_locks l(1) by blast
qed

lemma callback_works:
  assumes inv: "lock_inv (ts, u)" and on: "on_sites as (tolerant as \<Phi>) (ts, u)" and sep: "all_separate as"
    and i: "i < length ts" "fst (ts ! i) = {}" and q: "q \<in> set (rcu_pending u)" "q \<in> site_ptrs (as ! i)"
  shows "\<exists>u'. rcu_callback q u = Inr u' \<and> on_sites as (tolerant as \<Phi>) (ts, u')"
proof -
  obtain p where p: "ts ! i = ({}, p)" using i(2) by (cases "ts ! i") simp
  from on_sites_thread [OF on i(1) p] obtain s where
    s: "local (as ! i) (\<lambda>_. True) p" "view (as ! i) s u" "tolerant as \<Phi> i ({}, p) s" .
  then have safe: "safe p (as ! i) (\<Phi> i) s" by simp
  have "q \<in> set (rcu_pending s)" using s(2) q by (simp add: view_def)
  from settles_callback [OF safe_settles [OF safe] idle_site [OF inv on sep i s(2)] this] obtain t where
    t: "rcu_callback q s = Inr t" "safe p (as ! i) (\<Phi> i) t" using settles_now by blast
  from framedD [OF framed_callback [OF q(2)] s(2) t(1)] obtain u' where
    u': "rcu_callback q u = Inr u'" "view (as ! i) t u'" "apart (as ! i) u u'" by blast
  have "on_sites as (tolerant as \<Phi>) (ts[i := ({}, p)], u')"
    using t(2) by (intro on_sites_update [OF on sep i(1) s(1) u'(2) _ u'(3)]) simp
  moreover have "ts[i := ({}, p)] = ts" by (metis p list_update_id)
  ultimately show ?thesis using u'(1) by simp
qed

definition tolerant_pool :: "site list \<Rightarrow> (nat \<Rightarrow> 'a \<Rightarrow> cache_state \<Rightarrow> bool) \<Rightarrow> 'a pool \<Rightarrow> bool" where
  "tolerant_pool as \<Phi> c \<longleftrightarrow> all_separate as \<and> on_sites as (tolerant as \<Phi>) c \<and> lock_inv c"

lemma tolerant_step: "rstep as c c' \<Longrightarrow> tolerant_pool as \<Phi> c \<Longrightarrow> tolerant_pool as \<Phi> c'"
proof (induction rule: rstep.induct)
  case (thread c c')
  then show ?case using tolerant.step locks.step unfolding tolerant_pool_def by blast
next
  case (callback i ts q u u')
  then show ?case
    using callback_works [of ts u as \<Phi> i q] lock_inv_callback unfolding tolerant_pool_def by fastforce
qed

lemma tolerant_run: "(rstep as)\<^sup>*\<^sup>* c c' \<Longrightarrow> tolerant_pool as \<Phi> c \<Longrightarrow> tolerant_pool as \<Phi> c'"
  by (induction rule: rtranclp_induct) (auto intro: tolerant_step)

lemma tolerant_no_fault:
  assumes "tolerant_pool as \<Phi> (ts, u)"
  shows "\<not> crashes (ts, u) e" "\<not> callback_faults as (ts, u) e" "returned (ts, u) \<or> (\<exists>c. pstep (ts, u) c)"
proof -
  note inv = assms [unfolded tolerant_pool_def]
  show no: "\<not> crashes (ts, u) e" for e using tolerant.no_crash inv by blast
  show "\<not> callback_faults as (ts, u) e"
    using callback_works [of ts u as \<Phi>] inv by (fastforce simp: callback_faults_iff)
  show "returned (ts, u) \<or> (\<exists>c. pstep (ts, u) c)" using never_stuck [of ts u] inv no by blast
qed

lemma tolerant_Return:
  assumes "on_sites as (tolerant as \<Phi>) (ts, u)" and "i < length ts" and "ts ! i = (H, Return x)"
    and "\<And>s. \<Phi> i x s \<Longrightarrow> R"
  shows R
  using on_sites_thread [OF assms(1-3)] assms(4) by (auto dest: settles_now)

section \<open>Reclamation while the nodes run\<close>

lemma fresh_resting:
  assumes "c \<noteq> NULL" and "t3 \<noteq> NULL" and "0 < site_count a" and "0 \<le> node v"
  shows "resting a v F {} (\<lambda>_. []) (fresh_cache c t3 (site_count a))"
  unfolding coherent_with_def using fresh_coherent [OF assms(1-4), of F]
  by (intro conjI exI [of _ "\<lambda>_. []"]) (auto simp: fresh_cache_def ent_def)

lemma start_tolerant:
  assumes "c \<noteq> NULL" and "t3 \<noteq> NULL" and "0 < n" and "all_separate as" and "length rss = length as"
    and on: "\<And>i. i < length as \<Longrightarrow> site_count (as ! i) = n \<and> list_all (request_on (as ! i)) (rss ! i)"
    and calm: "\<And>i. i < length as \<Longrightarrow> 0 \<le> node (v i) \<and> alias_free (F i) \<and> calm (v i) (F i) {} (rss ! i)"
  shows "tolerant_pool as (\<lambda>i zs t. \<exists>b. spec_run (\<lambda>_. []) (rss ! i) zs b) (start_all rss, fresh_cache c t3 n)"
  unfolding tolerant_pool_def
proof (intro conjI)
  show "on_sites as (tolerant as (\<lambda>i zs t. \<exists>b. spec_run (\<lambda>_. []) (rss ! i) zs b)) (start_all rss, fresh_cache c t3 n)"
  proof (rule on_sites_start [OF on assms(5)])
    fix i assume i: "i < length as"
    with fresh_resting [OF assms(1,2), of "as ! i" "v i" "F i"] on [OF i] calm [OF i] assms(3)
    have "resting (as ! i) (v i) (F i) {} (\<lambda>_. []) (fresh_cache c t3 n)" by simp
    from safe_programs [OF this] calm [OF i] on [OF i]
    show "tolerant as (\<lambda>i zs t. \<exists>b. spec_run (\<lambda>_. []) (rss ! i) zs b) i ({}, programs (rss ! i)) (fresh_cache c t3 n)"
      by simp
  qed
qed (use assms(4) lock_inv_start_all [OF fresh_unlocked] in simp_all)

text \<open>
  C5. Reclamation is safe while the nodes run. Let each of the threads execute lookups and stores on a CPU of
  its own, of a socket of its own, with fingerprints of which two share an L2 bucket only if they share the
  L3 bucket, and with allocators that return each address once. Then however their steps interleave, with
  each other and with the RCU callbacks of their CPUs, no step and no callback faults, the threads can go
  on until all have returned, no execution is infinite, every queued entry is one of the callbacks' to free,
  and every thread that has returned got only replies that the specification of the cache allows.
\<close>

theorem reclaiming_nodes_refine_spec:
  assumes "c \<noteq> NULL" and "t3 \<noteq> NULL" and "0 < n" and "all_separate as" and "length rss = length as"
    and on: "\<And>i. i < length as \<Longrightarrow> site_count (as ! i) = n \<and> list_all (request_on (as ! i)) (rss ! i)"
    and calm: "\<And>i. i < length as \<Longrightarrow> 0 \<le> node (v i) \<and> alias_free (F i) \<and> calm (v i) (F i) {} (rss ! i)"
    and run: "(rstep as)\<^sup>*\<^sup>* (start_all rss, fresh_cache c t3 n) (ts, u)"
  shows "(\<forall>e. \<not> crashes (ts, u) e \<and> \<not> callback_faults as (ts, u) e)
    \<and> (returned (ts, u) \<or> (\<exists>q. pstep (ts, u) q)) \<and> wf {(c' :: reply list pool, c). rstep as c c'}
    \<and> (\<forall>q\<in>set (rcu_pending u). \<exists>i<length as. q \<in> site_ptrs (as ! i))
    \<and> (\<forall>i<length as. \<forall>H zs. ts ! i = (H, Return zs) \<longrightarrow> (\<exists>b. spec_run (\<lambda>_. []) (rss ! i) zs b))"
proof -
  from tolerant_run [OF run start_tolerant [OF assms(1-5) on calm]]
  have inv: "tolerant_pool as (\<lambda>i zs t. \<exists>b. spec_run (\<lambda>_. []) (rss ! i) zs b) (ts, u)" .
  then have on: "on_sites as (tolerant as (\<lambda>i zs t. \<exists>b. spec_run (\<lambda>_. []) (rss ! i) zs b)) (ts, u)"
    by (simp add: tolerant_pool_def)
  have "\<exists>b. spec_run (\<lambda>_. []) (rss ! i) zs b" if "i < length as" "ts ! i = (H, Return zs)" for i H zs
    by (rule tolerant_Return [OF on _ that(2)]) (use on that(1) in \<open>simp_all add: on_sites_def\<close>)
  moreover have "\<forall>q\<in>set (rcu_pending u). \<exists>i<length as. q \<in> site_ptrs (as ! i)" using on by (simp add: on_sites_def)
  ultimately show ?thesis using tolerant_no_fault [OF inv] rstep_wf by blast
qed

section \<open>A concrete instance\<close>

text \<open>On node 0 the key is stored twice, so that the first entry is freed while node 1 stores and looks up.\<close>

definition churn_sites :: "site list" where
  "churn_sites = [\<lparr>site_cpu = 0, site_socket = 0, site_count = 2, site_ptrs = {32, 64}, site_bufs = {}\<rparr>,
     \<lparr>site_cpu = 1, site_socket = 1, site_count = 2, site_ptrs = {48}, site_bufs = {}\<rparr>]"

definition churn_nodes :: "request list list" where
  "churn_nodes = [[Store (ctx 0 100 32 0) 5 (Some (replicate 16 7)) 16 4096, Store (ctx 0 105 64 0) 5 (Some (replicate 16 8)) 16 4096,
       Lookup (ctx 0 110 0 0) 5 4096],
     [Store ((ctx 1 100 48 0)\<lparr>node := 1\<rparr>) 5 (Some (replicate 16 9)) 16 4096, Lookup ((ctx 1 110 0 0)\<lparr>node := 1\<rparr>) 5 4096]]"

lemma churn_setup:
  "all_separate churn_sites" "length churn_nodes = length churn_sites"
  "i < length churn_sites \<Longrightarrow> site_count (churn_sites ! i) = 2 \<and> list_all (request_on (churn_sites ! i)) (churn_nodes ! i)"
  "i < length churn_sites \<Longrightarrow> 0 \<le> node ((ctx i 0 0 0)\<lparr>node := int i\<rparr>) \<and> alias_free {5}
     \<and> calm ((ctx i 0 0 0)\<lparr>node := int i\<rparr>) {5} {} (churn_nodes ! i)"
proof -
  show "all_separate churn_sites" "length churn_nodes = length churn_sites"
    by (auto simp: all_separate_def churn_sites_def churn_nodes_def less_Suc_eq separate_def)
  assume "i < length churn_sites"
  then have i: "i = 0 \<or> i = 1" by (auto simp: churn_sites_def)
  then show "site_count (churn_sites ! i) = 2 \<and> list_all (request_on (churn_sites ! i)) (churn_nodes ! i)"
    by (rule disjE) (simp_all add: churn_sites_def churn_nodes_def env_on_def ctx_def)
  from i show "0 \<le> node ((ctx i 0 0 0)\<lparr>node := int i\<rparr>) \<and> alias_free {5}
     \<and> calm ((ctx i 0 0 0)\<lparr>node := int i\<rparr>) {5} {} (churn_nodes ! i)"
    by (rule disjE) (simp_all add: churn_nodes_def alias_free_def same_cpu_def ctx_def)
qed

lemma rsteps_to_the_end: "\<exists>q. (rstep as)\<^sup>*\<^sup>* c q \<and> (\<nexists>q'. rstep as q q')"
proof (induction c rule: wf_induct_rule [OF rstep_wf [of as]])
  case (1 c)
  show ?case
  proof (cases "\<exists>c'. rstep as c c'")
    case True
    then obtain c' where c: "rstep as c c'" by blast
    with 1 obtain q where "(rstep as)\<^sup>*\<^sup>* c' q" "\<nexists>q'. rstep as q q'" by blast
    with c show ?thesis by (blast intro: converse_rtranclp_into_rtranclp)
  qed blast
qed

lemma returned_idle: "lock_inv (ts, u) \<Longrightarrow> returned (ts, u) \<Longrightarrow> i < length ts \<Longrightarrow> fst (ts ! i) = {}"
proof -
  assume inv: "lock_inv (ts, u)" and "returned (ts, u)" and i: "i < length ts"
  then obtain H x where t: "ts ! i = (H, Return x)" by auto
  from lock_inv_thread [OF inv i t] show ?thesis using t by (auto elim: disciplined_ReturnE)
qed

theorem reclaiming_nodes_refine_spec_witness:
  "\<exists>ts u zs b. (rstep churn_sites)\<^sup>*\<^sup>* (start_all churn_nodes, fresh_cache 16 32 2) (ts, u)
     \<and> rcu_pending u = [] \<and> snd (ts ! 0) = Return zs \<and> spec_run (\<lambda>_. []) (churn_nodes ! 0) zs b"
proof -
  let ?v = "\<lambda>i. (ctx i 0 0 0)\<lparr>node := int i\<rparr>" and ?c = "(start_all churn_nodes, fresh_cache 16 32 2)"
  from rsteps_to_the_end [of churn_sites ?c] obtain ts u where
    q: "(rstep churn_sites)\<^sup>*\<^sup>* ?c (ts, u)" "\<nexists>q. rstep churn_sites (ts, u) q" by fastforce
  note claim = reclaiming_nodes_refine_spec [OF _ _ _ churn_setup(1-3) churn_setup(4) q(1)]
  have r: "returned (ts, u)" "\<not> callback_faults churn_sites (ts, u) e"
    "\<forall>q\<in>set (rcu_pending u). \<exists>i<length churn_sites. q \<in> site_ptrs (churn_sites ! i)"
    "\<forall>i<length churn_sites. \<forall>H zs. ts ! i = (H, Return zs) \<longrightarrow> (\<exists>b. spec_run (\<lambda>_. []) (churn_nodes ! i) zs b)" for e
    using claim q(2) rstep.thread by fastforce+
  have inv: "tolerant_pool churn_sites (\<lambda>i zs t. \<exists>b. spec_run (\<lambda>_. []) (churn_nodes ! i) zs b) (ts, u)"
    by (rule tolerant_run [OF q(1) start_tolerant [OF _ _ _ churn_setup(1-3) churn_setup(4)]]) simp_all
  then have len: "length ts = length churn_sites" and locks: "lock_inv (ts, u)"
    by (simp_all add: tolerant_pool_def on_sites_def)
  have "rcu_pending u = []"
  proof (rule ccontr)
    assume "rcu_pending u \<noteq> []"
    then obtain p where p: "p \<in> set (rcu_pending u)" by (cases "rcu_pending u") auto
    with r(3) obtain i where i: "i < length ts" "p \<in> site_ptrs (churn_sites ! i)" using len by auto
    note idle = returned_idle [OF locks r(1) i(1)]
    show False
    proof (cases "rcu_callback p u")
      case (Inl e)
      with r(2) [of e] i p idle show ?thesis by (auto simp: callback_faults_iff)
    next
      case (Inr u')
      with q(2) rstep.callback [OF i(1) idle p i(2) Inr] show ?thesis by blast
    qed
  qed
  moreover have "0 < length ts" "0 < length churn_sites" using len by (simp_all add: churn_sites_def)
  with r(1,4) obtain H zs b where "ts ! 0 = (H, Return zs)" "spec_run (\<lambda>_. []) (churn_nodes ! 0) zs b"
    by (metis returned.simps)
  ultimately show ?thesis using q(1) by (metis snd_conv)
qed

end
