(* ===== verification/Cache_Slots.thy ===== *)
theory Cache_Slots
  imports Cache_Entries
begin

text \<open>
  The external slots of a socket. A slot is taken by a store of a large result and given back only
  by \<open>invalidate_range\<close>: freeing an entry, after a replacement and a grace period, does not free the
  buffer the entry points to, nor the slot.
\<close>

definition slots_kept :: "cache_state \<Rightarrow> cache_state \<Rightarrow> bool" where
  "slots_kept s t \<longleftrightarrow> num_sockets t = num_sockets s
     \<and> (\<forall>i j. ext_slots (tables s i) j \<noteq> NULL \<longrightarrow> ext_slots (tables t i) j = ext_slots (tables s i) j)"

lemma slots_kept_refl [simp]: "slots_kept s s"
  by (simp add: slots_kept_def)

lemma slots_kept_trans: "slots_kept s t \<Longrightarrow> slots_kept t u \<Longrightarrow> slots_kept s u"
  by (simp add: slots_kept_def)

lemma slots_kept_frame: "cache_frame s t \<Longrightarrow> slots_kept s t"
  by (simp add: slots_kept_def cache_frame_def)

lemma full_slots:
  "(\<forall>j<KCR_EXT_SLOTS. ext_slots t j \<noteq> NULL) \<Longrightarrow> free_slot t = KCR_EXT_SLOTS"
  by (simp add: free_slot_def takeWhile_eq_all_conv [THEN iffD2])

lemma slots_kept_place:
  assumes "place_data v p d len s = Inr (ok, t)"
  shows "slots_kept s t"
proof (cases "KCR_RESULT_SIZE_MAX < unat len")
  case True
  with assms have "store_external v p d len s = Inr (ok, t)" by simp
  then show ?thesis
    using free_slot_NULL
    by (auto simp: store_external_def res_simps Let_def ext_spin_lock_def ext_spin_unlock_def
        upd_table_def frame_simps slots_kept_def memcpy_from_def split: if_splits)
next
  case False
  with assms have "store_inline p d len s = Inr (ok, t)" by simp
  then show ?thesis
    by (auto simp: store_inline_def res_simps Let_def frame_simps slots_kept_def memcpy_from_def
        split: if_splits)
qed

lemma slots_kept_store:
  assumes "store_result v fp data len m s = Inr (r, t)"
  shows "slots_kept s t"
  using assms
proof (cases rule: store_result_cases)
  case no_slot
  then have "num_sockets t = num_sockets s" "tables t = tables s"
    by (auto simp: kfree_entry_def frame_simps split: if_splits)
  then show ?thesis by (simp add: slots_kept_def)
next
  case (stored d s1 s2)
  let ?s0 = "put_ent (kzalloc_ret v) (new_entry v fp m) s"
  have "slots_kept s ?s0" by (simp add: slots_kept_def frame_simps)
  moreover have "slots_kept ?s0 s1" by (rule slots_kept_place [OF stored(8)])
  moreover have "slots_kept s1 t"
    by (rule slots_kept_frame) (rule cache_frame_trans [OF store_in_l2_frame store_in_l3_frame], (rule stored(6,7))+)
  ultimately show ?thesis by (blast intro: slots_kept_trans)
qed simp_all

lemma slots_kept_grace:
  assumes "rcu_grace_period s = Inr t"
  shows "slots_kept s t"
proof -
  have "num_sockets t = num_sockets s \<and> tables t = tables s"
    using assms unfolding rcu_grace_period_def
    by (rule rfold_invariant [where I = "\<lambda>t. num_sockets t = num_sockets s \<and> tables t = tables s"])
      (auto simp: free_entry_rcu_def kfree_entry_def split: if_splits)
  then show ?thesis by (simp add: slots_kept_def)
qed

fun invalidates :: "request \<Rightarrow> bool" where
  "invalidates (Invalidate v m a b) \<longleftrightarrow> True"
| "invalidates _ \<longleftrightarrow> False"

lemma slots_kept_perform: "perform r s = Inr (y, t) \<Longrightarrow> \<not> invalidates r \<Longrightarrow> slots_kept s t"
  by (cases r) (auto simp: rbind_Inr_iff intro: slots_kept_store slots_kept_grace slots_kept_frame
      dest: lookup_unified_frame(1))

lemma slots_kept_run:
  "perform_all rs s = Inr (ys, t) \<Longrightarrow> \<forall>r\<in>set rs. \<not> invalidates r \<Longrightarrow> slots_kept s t"
proof (induction rs arbitrary: s ys)
  case (Cons r rs)
  from Cons.prems(1) obtain y zs u where
    u: "perform r s = Inr (y, u)" "perform_all rs u = Inr (zs, t)" by (auto simp: rbind_Inr_iff)
  with Cons show ?case by (auto intro: slots_kept_trans slots_kept_perform)
qed simp

lemma store_needs_slot:
  assumes "store_result v fp (Some d) len m s = Inr (r, t)" and "KCR_RESULT_SIZE_MAX < unat len"
    and "\<forall>j<KCR_EXT_SLOTS. ext_slots (tables s (socket_of v s)) j \<noteq> NULL"
  shows "r = - ENOMEM"
  using assms(1)
proof (cases rule: store_result_cases)
  case rejected
  with assms(2) show ?thesis by (auto simp: KCR_RESULT_SIZE_MAX_def)
next
  case (stored d s1 s2)
  from stored(8) assms(2)
  have "store_external v (kzalloc_ret v) d len (put_ent (kzalloc_ret v) (new_entry v fp m) s) = Inr (True, s1)"
    by simp
  from store_external_placed [OF this] full_slots [OF assms(3)] show ?thesis by simp
qed

text \<open>
  C25. External slots are never given back without an invalidation: once all 256 slots of a socket are
  taken, then after any run of lookups, stores and grace periods, on any CPUs, in which entries may
  have been replaced, expired and freed, every store of a large result on that socket that returns
  fails with \<open>-ENOMEM\<close>.
\<close>

theorem full_slots_stay_full:
  assumes "perform_all (rs @ [Store w fp (Some d) len m]) s = Inr (ys, t)"
    and "\<forall>r\<in>set rs. \<not> invalidates r" and "KCR_RESULT_SIZE_MAX < unat len"
    and "\<forall>j<KCR_EXT_SLOTS. ext_slots (tables s (socket_of w s)) j \<noteq> NULL"
  shows "last ys = Code (- ENOMEM)"
proof -
  from assms(1) obtain zs u x where run: "perform_all rs s = Inr (zs, u)"
    and st: "store_result w fp (Some d) len m u = Inr (x, t)" and ys: "ys = zs @ [Code x]"
    by (auto simp: perform_all_snoc rbind_Inr_iff)
  from slots_kept_run [OF run assms(2)] assms(4)
  have "\<forall>j<KCR_EXT_SLOTS. ext_slots (tables u (socket_of w u)) j \<noteq> NULL"
    by (simp add: slots_kept_def socket_of_def)
  from store_needs_slot [OF st assms(3) this] show ?thesis by (simp add: ys)
qed

text \<open>
  All slots are taken; the entry that refers to the first one has been replaced and is freed by the
  grace period, its buffer 48 keeps the slot.
\<close>

definition full_cache :: cache_state where
  "full_cache = (let f = fresh_cache 16 32 1;
       e = zero_entry\<lparr>result_union := external_union 48 70\<rparr>
     in f\<lparr>entries := [(8192, e)], rcu_pending := [8192], bufs := [(48, replicate 70 9)],
          tables := (tables f)(0 := (tables f 0)\<lparr>ext_slots := (\<lambda>j. word_of_nat (48 + j))\<rparr>)\<rparr>)"

lemma full_cache_slots: "\<forall>j<KCR_EXT_SLOTS. ext_slots (tables full_cache 0) j \<noteq> NULL"
proof (intro allI impI)
  fix j assume "j < KCR_EXT_SLOTS"
  then have "48 + j < 2 ^ 64" by (simp add: KCR_EXT_SLOTS_def)
  then have "\<not> 2 ^ 64 dvd 48 + j" by (auto dest: dvd_imp_le)
  then show "ext_slots (tables full_cache 0) j \<noteq> NULL"
    by (simp add: full_cache_def Let_def word_of_nat_eq_0_iff del: of_nat_add)
qed

theorem full_slots_stay_full_witness:
  "\<exists>ys t. perform_all [Grace, Store (ctx 0 100 8448 96) 5 (Some (replicate 70 9)) 70 4096] full_cache
       = Inr (ys, t) \<and> last ys = Code (- ENOMEM) \<and> ent t 8192 = None"
proof -
  let ?s = "full_cache\<lparr>entries := [], rcu_pending := []\<rparr>" and ?v = "ctx 0 100 8448 96"
  have g: "perform Grace full_cache = Inr (Freed, ?s)"
    by (simp add: full_cache_def Let_def rcu_grace_period_def free_entry_rcu_def kfree_entry_def ent_def)
  have full: "\<forall>j<KCR_EXT_SLOTS. ext_slots (tables ?s 0) j \<noteq> NULL" using full_cache_slots by simp
  let ?init = "put_ent 8448 (new_entry ?v 5 4096) ?s" and ?d = "replicate 70 9 :: u8 list"
  have rdy: "l3_ready ?v ?init" "socket_of ?v ?init = 0" "\<not> ext_lock (tables ?init 0)" "socket_of ?v full_cache = 0"
    by (simp_all add: l3_ready_def socket_of_def full_cache_def Let_def fresh_cache_def ctx_def frame_simps)
  obtain ok s1 where pl: "place_data ?v 8448 ?d 70 ?init = Inr (ok, s1)"
    using place_data_total [OF rdy(1), of 8448 70 ?d] rdy by auto
  have "socket_of ?v ?s = 0" "kzalloc_ret ?v = 8448" by (simp_all add: socket_of_def ctx_simps ctx_def)
  have ok: "\<not> ok"
  proof
    assume "ok"
    with pl have "store_external ?v 8448 ?d 70 ?init = Inr (True, s1)" by (simp add: KCR_RESULT_SIZE_MAX_def)
    from store_external_placed [OF this] show False
      using full_slots [OF full] \<open>socket_of ?v ?s = 0\<close> by simp
  qed
  with pl have "place_data ?v 8448 ?d 70 ?init = Inr (False, s1)" by simp
  then have "kfree_entry 8448 s1 = Inr ?s" by (rule failed_placement_undone) (simp_all add: ent_def)
  with pl ok have "perform (Store ?v 5 (Some ?d) 70 4096) ?s = Inr (Code (- ENOMEM), ?s)"
    using \<open>kzalloc_ret ?v = 8448\<close> by (simp add: store_result_def Let_def)
  with g have run: "perform_all ([Grace] @ [Store ?v 5 (Some ?d) 70 4096]) full_cache
      = Inr ([Freed, Code (- ENOMEM)], ?s)" by simp
  have "last [Freed, Code (- ENOMEM)] = Code (- ENOMEM)"
    by (rule full_slots_stay_full [OF run]) (simp_all add: KCR_RESULT_SIZE_MAX_def rdy(4) full_cache_slots)
  with run show ?thesis by (simp add: ent_def)
qed

end
