(* ===== verification/KCR_Statistics.thy ===== *)
theory KCR_Statistics
  imports Cache_Entries
begin

text \<open>
  What the counters of the per-CPU areas and the statistics file show after a load and any use of the
  cache: nothing, because the counting writes elsewhere (\<open>upd_stats\<close>).
\<close>

section \<open>The statistics file after any run\<close>




end
