(* ===== verification/KCR_Determinism.thy ===== *)
theory KCR_Determinism
  imports KCR_Types
begin

text \<open>
  \<open>kernel/kcr/kcr_determinism.c\<close>: the three-state learning machine \<open>verify_deterministic\<close>, and
  \<open>should_cache\<close>. The states are ordered as the values of the C enum, so that the machine's
  progress is a monotonicity property.
\<close>

section \<open>States and metadata\<close>

datatype kcr_vma_state = KCR_VMA_UNVERIFIED | KCR_VMA_VERIFIED | KCR_VMA_REJECTED

primrec vma_state_value :: "kcr_vma_state \<Rightarrow> nat" where
  "vma_state_value KCR_VMA_UNVERIFIED = 0"
| "vma_state_value KCR_VMA_VERIFIED = 1"
| "vma_state_value KCR_VMA_REJECTED = 2"

instantiation kcr_vma_state :: linorder
begin

definition less_eq_kcr_vma_state :: "kcr_vma_state \<Rightarrow> kcr_vma_state \<Rightarrow> bool" where
  "less_eq_kcr_vma_state a b \<longleftrightarrow> vma_state_value a \<le> vma_state_value b"

definition less_kcr_vma_state :: "kcr_vma_state \<Rightarrow> kcr_vma_state \<Rightarrow> bool" where
  "less_kcr_vma_state a b \<longleftrightarrow> vma_state_value a < vma_state_value b"

instance
proof
  fix a b c :: kcr_vma_state
  show "a < b \<longleftrightarrow> a \<le> b \<and> \<not> b \<le> a"
    by (auto simp: less_eq_kcr_vma_state_def less_kcr_vma_state_def)
  show "a \<le> a" by (simp add: less_eq_kcr_vma_state_def)
  show "a \<le> b \<Longrightarrow> b \<le> c \<Longrightarrow> a \<le> c" by (simp add: less_eq_kcr_vma_state_def)
  show "a \<le> b \<Longrightarrow> b \<le> a \<Longrightarrow> a = b"
    by (cases a; cases b) (auto simp: less_eq_kcr_vma_state_def)
  show "a \<le> b \<or> b \<le> a" by (auto simp: less_eq_kcr_vma_state_def)
qed

end

record vma_metadata =
  vstate :: kcr_vma_state
  execution_count :: u32
  result_history :: "u64 list"
  first_result :: u64
  vrefcount :: int

definition zero_vma_metadata :: vma_metadata where
  "zero_vma_metadata = \<lparr>vstate = KCR_VMA_UNVERIFIED, execution_count = 0,
     result_history = replicate 4 0, first_result = 0, vrefcount = 0\<rparr>"

text \<open>The body of the UNVERIFIED case: the return value and the new metadata.\<close>

definition observe :: "vma_metadata \<Rightarrow> u64 \<Rightarrow> bool \<times> vma_metadata" where
  "observe m r =
     (if execution_count m \<noteq> 0 \<and> first_result m \<noteq> r
      then (False, m\<lparr>vstate := KCR_VMA_REJECTED\<rparr>)
      else
        let m = (if execution_count m = 0 then m\<lparr>first_result := r\<rparr> else m);
            m = m\<lparr>result_history := (result_history m)[unat (execution_count m mod 4) := r]\<rparr>;
            m = m\<lparr>execution_count := execution_count m + 1\<rparr>;
            m = (if 100 \<le> execution_count m then m\<lparr>vstate := KCR_VMA_VERIFIED\<rparr> else m)
        in (True, m))"

definition verify_deterministic ::
    "vma_metadata option \<Rightarrow> u64 \<Rightarrow> bool \<times> vma_metadata option" where
  "verify_deterministic meta current_result =
     (case meta of
        None \<Rightarrow> (False, None)
      | Some m \<Rightarrow>
          (case vstate m of
             KCR_VMA_UNVERIFIED \<Rightarrow> map_prod id Some (observe m current_result)
           | KCR_VMA_VERIFIED \<Rightarrow> (True, Some m)
           | KCR_VMA_REJECTED \<Rightarrow> (False, Some m)))"

text \<open>The VMA pointer (None for NULL); the flags are not looked at.\<close>

record vm_area_struct =
  vm_flags :: u64
  kcr_metadata :: "vma_metadata option"

definition should_cache :: "vm_area_struct option \<Rightarrow> bool" where
  "should_cache vma = (case vma of None \<Rightarrow> False | Some v \<Rightarrow> False)"

text \<open>A run of the learning mode over the results of successive executions.\<close>

definition learn1 :: "u64 \<Rightarrow> vma_metadata \<Rightarrow> vma_metadata" where
  "learn1 r m = the (snd (verify_deterministic (Some m) r))"

definition learn :: "vma_metadata \<Rightarrow> u64 list \<Rightarrow> vma_metadata" where
  "learn m rs = fold learn1 rs m"

section \<open>Lemmas\<close>

lemma learn_simps [simp]: "learn m [] = m" "learn m (r # rs) = learn (learn1 r m) rs"
  by (simp_all add: learn_def)

lemma learn1_settled: "vstate m \<noteq> KCR_VMA_UNVERIFIED \<Longrightarrow> learn1 r m = m"
  by (cases "vstate m") (simp_all add: learn1_def verify_deterministic_def)

lemma learn_settled: "vstate m \<noteq> KCR_VMA_UNVERIFIED \<Longrightarrow> learn m rs = m"
  by (induction rs) (simp_all add: learn1_settled)

lemma learn1_unverified:
  "vstate m = KCR_VMA_UNVERIFIED \<Longrightarrow> learn1 r m = snd (observe m r)"
  by (simp add: learn1_def verify_deterministic_def)

lemma unat_Suc_u32: "unat (c :: u32) < 100 \<Longrightarrow> unat (c + 1) = Suc (unat c)"
  by (simp add: unat_word_ariths)

lemma u32_ge_100: "100 \<le> (c :: u32) \<longleftrightarrow> 100 \<le> unat c"
  by (simp add: word_le_nat_alt)

text \<open>
  The machine with \<open>n\<close> consistent observations behind it: it is rejected by the first of the
  next \<open>100 - n\<close> results that differs, and verified if there is none among so many.
\<close>

lemma learn_from:
  assumes "vstate m = KCR_VMA_UNVERIFIED" and "execution_count m \<noteq> 0"
    and "unat (execution_count m) < 100"
  shows "vstate (learn m rs) =
    (let us = take (100 - unat (execution_count m)) rs in
     if \<forall>u \<in> set us. u = first_result m
     then if length us = 100 - unat (execution_count m) then KCR_VMA_VERIFIED
          else KCR_VMA_UNVERIFIED
     else KCR_VMA_REJECTED)"
  using assms
proof (induction rs arbitrary: m)
  case Nil
  then show ?case by simp
next
  case (Cons r rs)
  let ?n = "unat (execution_count m)"
  obtain k where k: "100 - ?n = Suc k" using Cons.prems(3) by (cases "100 - ?n") auto
  have n1: "unat (execution_count m + 1) = Suc ?n" by (rule unat_Suc_u32 [OF Cons.prems(3)])
  show ?case
  proof (cases "r = first_result m")
    case False
    then have "vstate (learn1 r m) = KCR_VMA_REJECTED"
      using Cons.prems by (simp add: learn1_unverified observe_def)
    with False k show ?thesis by (simp add: learn_settled)
  next
    case True
    let ?m = "learn1 r m"
    have m: "first_result ?m = first_result m" "execution_count ?m = execution_count m + 1"
      "vstate ?m = (if 100 \<le> Suc ?n then KCR_VMA_VERIFIED else KCR_VMA_UNVERIFIED)"
      using True Cons.prems n1 by (simp_all add: learn1_unverified observe_def Let_def u32_ge_100)
    show ?thesis
    proof (cases "100 \<le> Suc ?n")
      case enough: True
      then have "k = 0" using k by simp
      with enough True m(3) k show ?thesis by (simp add: learn_settled)
    next
      case False
      have nz: "execution_count ?m \<noteq> 0"
        using n1 m(2) by (metis nat.distinct(1) unat_0)
      have kk: "100 - unat (execution_count ?m) = k" using k n1 m(2) by simp
      have "vstate (learn ?m rs) =
        (let us = take k rs in
         if \<forall>u \<in> set us. u = first_result m
         then if length us = k then KCR_VMA_VERIFIED else KCR_VMA_UNVERIFIED
         else KCR_VMA_REJECTED)"
        using Cons.IH [of ?m] False m(1,3) nz n1 m(2) unfolding kk by simp
      with True k show ?thesis by (simp add: Let_def)
    qed
  qed
qed

section \<open>Properties\<close>

text \<open>
  The learning mode as it is documented: a VMA is verified if the first 100 results exist and agree,
  rejected if two of the first 100 differ, and still unverified otherwise.
\<close>

definition learning_spec :: "u64 list \<Rightarrow> kcr_vma_state" where
  "learning_spec rs =
    (let us = take 100 rs in
     if \<forall>u \<in> set us. u = hd us
     then if length us = 100 then KCR_VMA_VERIFIED else KCR_VMA_UNVERIFIED
     else KCR_VMA_REJECTED)"

text \<open>
  C30. The learning machine computes the documented verdict: after any sequence of results, starting
  from zeroed metadata, one call of \<open>verify_deterministic\<close> per result, the state is that of the
  reference definition.
\<close>

theorem learning_outcome: "vstate (learn zero_vma_metadata rs) = learning_spec rs"
proof (cases rs)
  case Nil
  then show ?thesis by (simp add: zero_vma_metadata_def learning_spec_def)
next
  case (Cons r qs)
  let ?m = "learn1 r zero_vma_metadata"
  have m: "vstate ?m = KCR_VMA_UNVERIFIED" "execution_count ?m = 1" "first_result ?m = r"
    by (simp_all add: learn1_unverified zero_vma_metadata_def observe_def Let_def u32_ge_100)
  have take: "take 100 (r # qs) = r # take 99 qs" by (simp add: take_Cons')
  show ?thesis
    using learn_from [of ?m qs] m unfolding Cons learning_spec_def take by (simp add: Let_def)
qed

theorem learning_outcome_witness:
  "vstate (learn zero_vma_metadata (replicate 100 7)) = KCR_VMA_VERIFIED
   \<and> vstate (learn zero_vma_metadata [7, 7, 8]) = KCR_VMA_REJECTED"
  using learning_outcome [of "replicate 100 7"] learning_outcome [of "[7, 7, 8]"]
  by (simp add: learning_spec_def)

text \<open>
  The state only moves forward in the enum's order, and once it is VERIFIED or REJECTED
  the metadata never change again: a verified VMA stays verified even when later results differ,
  a rejected one stays rejected.
\<close>

lemma learning_monotone:
  "vstate m \<le> vstate (learn m rs)
   \<and> (vstate m \<noteq> KCR_VMA_UNVERIFIED \<longrightarrow> learn m rs = m)"
proof -
  have step: "vstate m \<le> vstate (learn1 r m)" for m r
    by (cases "vstate m")
      (auto simp: learn1_settled less_eq_kcr_vma_state_def)
  have "vstate m \<le> vstate (learn m rs)"
  proof (induction rs arbitrary: m)
    case (Cons r rs)
    then show ?case using step [of m r] order_trans by fastforce
  qed simp
  then show ?thesis by (simp add: learn_settled)
qed

text \<open>
  The value returned agrees with the state it leaves: false exactly for NULL metadata or
  a state that is REJECTED after the call.
\<close>

lemma verify_deterministic_return:
  "fst (verify_deterministic meta r) \<longleftrightarrow>
     (\<exists>m. snd (verify_deterministic meta r) = Some m \<and> vstate m \<noteq> KCR_VMA_REJECTED)"
  by (cases meta)
    (auto simp: verify_deterministic_def observe_def Let_def split: kcr_vma_state.splits)

text \<open>The invariant of the metadata in learning mode.\<close>

definition learning_inv :: "vma_metadata \<Rightarrow> bool" where
  "learning_inv m \<longleftrightarrow> length (result_history m) = 4 \<and> unat (execution_count m) \<le> 100
     \<and> (vstate m = KCR_VMA_UNVERIFIED \<longrightarrow> unat (execution_count m) < 100)
     \<and> (vstate m = KCR_VMA_VERIFIED \<longrightarrow> unat (execution_count m) = 100)
     \<and> (\<forall>i < min 4 (unat (execution_count m)). result_history m ! i = first_result m)"

lemma learning_inv_step:
  assumes "learning_inv m"
  shows "learning_inv (learn1 r m)"
proof (cases "vstate m = KCR_VMA_UNVERIFIED \<and> (execution_count m = 0 \<or> first_result m = r)")
  case False
  then show ?thesis
    using assms by (cases "vstate m = KCR_VMA_UNVERIFIED")
      (auto simp: learn1_settled learn1_unverified observe_def learning_inv_def)
next
  case True
  let ?n = "unat (execution_count m)"
  have n: "?n < 100" using True assms by (simp add: learning_inv_def)
  have n1: "unat (execution_count m + 1) = Suc ?n" by (rule unat_Suc_u32 [OF n])
  have md: "unat (execution_count m mod 4) = ?n mod 4" by (simp add: unat_mod)
  have hist: "result_history (learn1 r m) = (result_history m)[?n mod 4 := r]"
    and first: "first_result (learn1 r m) = r"
    and count: "execution_count (learn1 r m) = execution_count m + 1"
    and st: "vstate (learn1 r m) = (if 100 \<le> Suc ?n then KCR_VMA_VERIFIED else KCR_VMA_UNVERIFIED)"
    using True n1 md
    by (auto simp: learn1_unverified observe_def Let_def u32_ge_100)
  have old: "result_history m ! i = r" if "i < min 4 ?n" for i
    using True assms that by (cases "execution_count m = 0") (auto simp: learning_inv_def)
  have "result_history (learn1 r m) ! i = r" if "i < min 4 (Suc ?n)" for i
  proof (cases "i = ?n mod 4")
    case True
    with assms hist show ?thesis by (simp add: learning_inv_def)
  next
    case False
    with that have "i < min 4 ?n" by (cases "?n < 4") auto
    with False hist old show ?thesis by simp
  qed
  then show ?thesis
    using assms n n1 hist first count st by (auto simp: learning_inv_def)
qed

text \<open>
  C31. In every state the learning mode reaches, the counter is below 100 while the VMA is
  unverified, exactly 100 once it is verified and never above 100, and every slot of the ring
  buffer filled so far holds the baseline result.
\<close>

theorem learning_invariant: "learning_inv (learn zero_vma_metadata rs)"
proof -
  have "learning_inv m \<Longrightarrow> learning_inv (learn m rs)" for m
    by (induction rs arbitrary: m) (simp_all add: learning_inv_step)
  moreover have "learning_inv zero_vma_metadata"
    by (simp add: learning_inv_def zero_vma_metadata_def)
  ultimately show ?thesis by blast
qed

text \<open>
  \<open>should_cache\<close> refuses every VMA, also one whose metadata the learning mode has marked VERIFIED and
  whose \<open>VM_KCR\<close> flag is set.
\<close>

lemma should_cache_never:
  "\<not> should_cache vma
   \<and> \<not> should_cache (Some \<lparr>vm_flags = VM_KCR,
         kcr_metadata = Some (learn zero_vma_metadata (replicate 100 r))\<rparr>)"
  by (simp add: should_cache_def split: option.splits)

end
