(* ===== verification/KCR_Iommu.thy ===== *)
theory KCR_Iommu
  imports Cache_Faults
begin

text \<open>
  \<open>drivers/iommu/kcr_iommu.c\<close>: the notifier that turns IOMMU events into cache invalidations. Nothing
  in the source registers it with the IOMMU core. \<open>PAGE_SHIFT\<close> belongs to the architecture and is an
  argument, \<open>k\<close>; what the code relies on is that it is less than 63.
\<close>

section \<open>State and operations\<close>

text \<open>
  \<open>struct iommu_notifier_data\<close>. Of the embedded notifier block only the callback is set; \<open>start\<close> and
  \<open>end\<close> are never written.
\<close>

datatype notifier_fn = No_call | Iommu_invalidate_handler

record iommu_notifier_data =
  notifier_call :: notifier_fn
  nmm :: ptr
  nstart :: u64
  nend :: u64
  aggressive_mode :: bool

definition IOMMU_INVALIDATE_WRITE :: u64 where "IOMMU_INVALIDATE_WRITE = 0x100"

definition page_size :: "nat \<Rightarrow> u64" where "page_size k = push_bit k 1"
definition page_mask :: "nat \<Rightarrow> u64" where "page_mask k = NOT (page_size k - 1)"
definition page_align :: "nat \<Rightarrow> u64 \<Rightarrow> u64" where
  "page_align k a = (a + page_size k - 1) AND page_mask k"

text \<open>Lines 47 to 49: the range handed to \<open>invalidate_range\<close>.\<close>

definition invalidate_start :: "nat \<Rightarrow> u64 \<Rightarrow> u64" where
  "invalidate_start k data = data AND page_mask k"

definition invalidate_end :: "nat \<Rightarrow> u64 \<Rightarrow> u64" where
  "invalidate_end k data = page_align k (invalidate_start k data + page_size k)"

definition iommu_invalidate_handler ::
    "nat \<Rightarrow> env \<Rightarrow> iommu_notifier_data \<Rightarrow> u64 \<Rightarrow> u64 \<Rightarrow> cache_state \<Rightarrow> (int \<times> cache_state) res" where
  "iommu_invalidate_handler k v n event data s =
     (if event \<noteq> IOMMU_INVALIDATE_WRITE then Inr (0, s)
      else rbind (invalidate_range v (nmm n) (invalidate_start k data) (invalidate_end k data) s)
             (\<lambda>s. Inr (0, s)))"

text \<open>
  What the notifier chain of the kernel does with an event: it calls the function pointer of the
  block, which nobody has set before \<open>kcr_iommu_init\<close>.
\<close>

definition call_notifier ::
    "nat \<Rightarrow> env \<Rightarrow> iommu_notifier_data \<Rightarrow> u64 \<Rightarrow> u64 \<Rightarrow> cache_state \<Rightarrow> (int \<times> cache_state) res" where
  "call_notifier k v n event data s =
     (case notifier_call n of
        No_call \<Rightarrow> Inl NullDeref
      | Iommu_invalidate_handler \<Rightarrow> iommu_invalidate_handler k v n event data s)"

text \<open>A NULL pointer argument is \<open>None\<close>.\<close>

definition kcr_iommu_init ::
    "ptr \<Rightarrow> iommu_notifier_data option \<Rightarrow> int \<times> iommu_notifier_data option" where
  "kcr_iommu_init m n =
     (case n of
        None \<Rightarrow> (- EINVAL, None)
      | Some d \<Rightarrow>
          if m = NULL then (- EINVAL, Some d)
          else (0, Some (d\<lparr>nmm := m, aggressive_mode := True,
                           notifier_call := Iommu_invalidate_handler\<rparr>)))"

definition kcr_iommu_exit :: "iommu_notifier_data option \<Rightarrow> iommu_notifier_data option" where
  "kcr_iommu_exit n = n"

section \<open>Page arithmetic\<close>

lemma page_size_mask: "page_size k - 1 = mask k"
  by (simp add: page_size_def mask_eq_exp_minus_1 push_bit_eq_mult)

lemma page_mask_eq: "page_mask k = NOT (mask k)"
  by (simp add: page_mask_def page_size_mask)

lemma unat_page_size: "k < 64 \<Longrightarrow> unat (page_size k) = 2 ^ k"
  using power_strict_increasing [of k 64 "2 :: nat"]
  unfolding page_size_def unsigned_push_bit_eq by (simp add: take_bit_eq_mod)

lemma and_mask_split: "(a AND mask k) + (a AND NOT (mask k)) = (a :: u64)"
proof -
  have z: "(a AND mask k) AND (a AND NOT (mask k)) = 0"
    by (rule bit_eqI) (auto simp: bit_simps)
  have "(a AND mask k) + (a AND NOT (mask k)) = (a AND mask k) OR (a AND NOT (mask k))"
    by (rule disjunctive_add_eq_or [OF z])
  also have "\<dots> = a" by (rule bit_eqI) (auto simp: bit_simps)
  finally show ?thesis .
qed

lemma unat_take_bit_word: "unat (take_bit k (a :: u64)) = unat a mod 2 ^ k"
  unfolding unsigned_take_bit_eq by (simp add: take_bit_eq_mod)

lemma unat_round_down: "unat (a AND page_mask k) = unat a div 2 ^ k * 2 ^ k"
proof -
  let ?l = "a AND mask k" and ?h = "a AND NOT (mask k)"
  have l: "unat ?l = unat a mod 2 ^ k" by (simp add: take_bit_eq_mask [symmetric] unat_take_bit_word)
  have "?h = a - ?l" using and_mask_split [of a k] by (simp add: eq_diff_eq add.commute)
  moreover have "unat ?l \<le> unat a" by (simp add: l)
  then have "?l \<le> a" by (simp add: word_le_nat_alt)
  ultimately have "unat ?h = unat a - unat a mod 2 ^ k" using unat_sub [of ?l a] l by simp
  then show ?thesis by (simp add: page_mask_eq minus_mod_eq_div_mult)
qed

lemma align_aligned:
  assumes "unat a mod 2 ^ k = 0"
  shows "page_align k a = a"
proof -
  have "take_bit k a = 0"
    using assms unat_take_bit_word [of k a] by (metis unat_eq_zero)
  then have z: "a AND mask k = 0" by (simp add: take_bit_eq_mask)
  have "a + page_size k - 1 = a + mask k" by (simp add: page_size_mask [symmetric] add_diff_eq)
  also have "\<dots> = a OR mask k" by (rule disjunctive_add_eq_or [OF z])
  finally have e: "a + page_size k - 1 = a OR mask k" .
  have "(a OR mask k) AND NOT (mask k) = a AND NOT (mask k)"
    by (rule bit_eqI) (auto simp: bit_simps)
  also have "\<dots> = a" using and_mask_split [of a k] z by simp
  finally show ?thesis by (simp add: page_align_def e page_mask_eq)
qed

section \<open>Properties\<close>

text \<open>
  The range of an event is the page of the address: for every page size below \<open>2^64\<close> the range
  starts at the address rounded down to a page boundary, contains the address, and is exactly one
  page long (modulo \<open>2^64\<close>, for the last page).
\<close>

lemma iommu_range_is_page:
  assumes "k < 64"
  shows "unat (invalidate_start k data) = unat data div 2 ^ k * 2 ^ k
    \<and> unat (invalidate_start k data) \<le> unat data \<and> unat data < unat (invalidate_start k data) + 2 ^ k
    \<and> invalidate_end k data = invalidate_start k data + page_size k"
proof -
  let ?s = "invalidate_start k data"
  have s: "unat ?s = unat data div 2 ^ k * 2 ^ k" by (simp add: invalidate_start_def unat_round_down)
  have d: "(2 :: nat) ^ k dvd 2 ^ 64" using assms by (intro le_imp_power_dvd) simp
  have "unat (?s + page_size k) = (unat data div 2 ^ k * 2 ^ k + 2 ^ k) mod 2 ^ 64"
    by (simp add: unat_word_ariths s unat_page_size [OF assms])
  then have "unat (?s + page_size k) mod 2 ^ k = 0"
    using d by (simp add: mod_mod_cancel)
  then have "invalidate_end k data = ?s + page_size k"
    unfolding invalidate_end_def by (rule align_aligned)
  moreover have "unat data < unat data div 2 ^ k * 2 ^ k + 2 ^ k"
  proof -
    have "unat data mod 2 ^ k < 2 ^ k" by simp
    then show ?thesis using div_mult_mod_eq [of "unat data" "2 ^ k"] by linarith
  qed
  ultimately show ?thesis using s by simp
qed

text \<open>
  C40. The life of a notifier: \<open>kcr_iommu_init\<close> refuses a NULL memory space or notifier with \<open>-EINVAL\<close> and
  otherwise sets the notifier up. On the quiet workload, a write event delivered to it through the
  callback it installed, for any address, runs without a fault, returns 0, and removes all entries of
  the memory space: every later lookup of it misses, whatever the fingerprint, unless the key is stored
  again. An event of another type changes nothing.
\<close>

theorem iommu_event_invalidates_memory_space:
  assumes "m \<noteq> NULL" and "c \<noteq> NULL" and "t3 \<noteq> NULL" and "0 < i" and "0 \<le> node v" and "alias_free F"
    and "quiet v F (rs @ Invalidate w m a b # rs' @ [Lookup w' fp m]) (fresh_cache c t3 i)"
    and "\<forall>r\<in>set rs'. \<not> stores_key (fp, m) r"
  shows "kcr_iommu_init NULL d = (- EINVAL, d) \<and> kcr_iommu_init m None = (- EINVAL, None)
    \<and> (\<exists>n. kcr_iommu_init m (Some e) = (0, Some n)
      \<and> (\<exists>ys s u zs x. perform_all rs (fresh_cache c t3 i) = Inr (ys, s)
          \<and> (\<forall>data. call_notifier k w n IOMMU_INVALIDATE_WRITE data s = Inr (0, u))
          \<and> perform_all (rs' @ [Lookup w' fp m]) u = Inr (zs, x) \<and> last zs = Hit None)
      \<and> (\<forall>event data s. event \<noteq> IOMMU_INVALIDATE_WRITE \<longrightarrow> call_notifier k w n event data s = Inr (0, s)))"
proof -
  from invalidated_misses [OF assms(2-8)] obtain ys0 t where
    run: "perform_all (rs @ Invalidate w m a b # rs' @ [Lookup w' fp m]) (fresh_cache c t3 i) = Inr (ys0, t)"
    and miss: "last ys0 = Hit None" by blast
  from run obtain ys s u zs where
    one: "perform_all rs (fresh_cache c t3 i) = Inr (ys, s)" and inv: "invalidate_range w m a b s = Inr u"
    and two: "perform_all (rs' @ [Lookup w' fp m]) u = Inr (zs, t)" and ys0: "ys0 = ys @ Done # zs"
    by (auto simp: perform_all_append [of rs] rbind_Inr_iff)
  have "zs \<noteq> []" using two by (auto simp: perform_all_append rbind_Inr_iff)
  with miss ys0 have last: "last zs = Hit None" by simp
  have range: "invalidate_range w m a' b' s = Inr u" for a' b'
    using inv by (simp add: invalidate_range_def)
  let ?n = "e\<lparr>nmm := m, aggressive_mode := True, notifier_call := Iommu_invalidate_handler\<rparr>"
  have "kcr_iommu_init m (Some e) = (0, Some ?n)" using assms(1) by (simp add: kcr_iommu_init_def)
  moreover have "call_notifier k w ?n IOMMU_INVALIDATE_WRITE data s = Inr (0, u)" for data
    by (simp add: call_notifier_def iommu_invalidate_handler_def range)
  moreover have "call_notifier k w ?n event data s = Inr (0, s)" if "event \<noteq> IOMMU_INVALIDATE_WRITE" for event data s
    using that by (simp add: call_notifier_def iommu_invalidate_handler_def)
  ultimately show ?thesis
    using one two last by (simp add: kcr_iommu_init_def split: option.split)
qed

theorem iommu_event_invalidates_memory_space_witness:
  "\<exists>n ys s u zs x. kcr_iommu_init 4096 (Some \<lparr>notifier_call = No_call, nmm = NULL, nstart = 0, nend = 0,
       aggressive_mode = False\<rparr>) = (0, Some n)
     \<and> perform_all (take 2 demo_invalidate) (fresh_cache 16 32 1) = Inr (ys, s)
     \<and> call_notifier 12 (ctx 0 115 0 0) n IOMMU_INVALIDATE_WRITE 8200 s = Inr (0, u)
     \<and> perform_all (drop 3 demo_invalidate) u = Inr (zs, x) \<and> last zs = Hit None"
proof -
  let ?d = "\<lparr>notifier_call = No_call, nmm = NULL, nstart = 0, nend = 0, aggressive_mode = False\<rparr>"
  let ?two = "[Store (ctx 0 100 8192 0) 5 (Some [7, 8]) 2 4096, Store (ctx 0 110 8448 0) 5 (Some [9]) 1 8192]"
  have sp: "demo_invalidate = ?two @ Invalidate (ctx 0 115 0 0) 4096 0 0
      # [Grace] @ [Lookup (ctx 0 120 0 0) 5 4096]" by (simp add: demo_invalidate_def)
  have tk: "take 2 demo_invalidate = ?two" by (simp add: demo_invalidate_def)
  have dr: "drop 3 demo_invalidate = [Grace] @ [Lookup (ctx 0 120 0 0) 5 4096]" by (simp add: demo_invalidate_def)
  have h: "(4096 :: ptr) \<noteq> NULL" "(16 :: ptr) \<noteq> NULL" "(32 :: ptr) \<noteq> NULL" "(0 :: int) < 1"
    "0 \<le> node (ctx 0 0 0 0)" "\<forall>r\<in>set [Grace]. \<not> stores_key (5, 4096) r" by (simp_all add: ctx_simps)
  from iommu_event_invalidates_memory_space [OF h(1-5) demo_invalidate_quiet(1)
      demo_invalidate_quiet(2) [unfolded sp] h(6), of None ?d 12]
  show ?thesis unfolding tk dr by blast
qed

end
