(* ===== verification/KCR_Stubs.thy ===== *)
theory KCR_Stubs
  imports KCR_Main KCR_Core KCR_Determinism KCR_Iommu
begin

text \<open>
  The inline functions of \<open>kcr.h\<close> for kernels built without \<open>CONFIG_KCR\<close>, and the flag of \<open>kcr_flags.h\<close>
  for such builds. A function that returns nothing gives back the state it could have changed.
\<close>

definition VM_KCR_stub :: u64 where "VM_KCR_stub = 0"

definition kcr_init_stub :: int where "kcr_init_stub = 0"
definition kcr_exit_stub :: "kcr_state \<Rightarrow> kcr_state" where "kcr_exit_stub s = s"
definition kcr_is_enabled_stub :: bool where "kcr_is_enabled_stub = False"
definition kcr_alloc_region_stub :: ptr where "kcr_alloc_region_stub = NULL"
definition kcr_free_region_stub :: "ptr \<Rightarrow> mem_state \<Rightarrow> mem_state" where
  "kcr_free_region_stub r s = s"
definition kcr_map_to_user_stub :: "ptr \<Rightarrow> ptr \<Rightarrow> int" where
  "kcr_map_to_user_stub r t = - ENODEV"
definition lookup_unified_stub :: "u64 \<Rightarrow> ptr \<Rightarrow> ptr" where
  "lookup_unified_stub f m = NULL"
definition store_result_stub :: "u64 \<Rightarrow> u8 list option \<Rightarrow> u32 \<Rightarrow> ptr \<Rightarrow> int" where
  "store_result_stub f d l m = - ENODEV"
definition invalidate_range_stub :: "ptr \<Rightarrow> u64 \<Rightarrow> u64 \<Rightarrow> cache_state \<Rightarrow> cache_state" where
  "invalidate_range_stub m a b s = s"
definition compute_fingerprint_stub :: "u8 list \<Rightarrow> nat \<Rightarrow> u64 \<Rightarrow> u64" where
  "compute_fingerprint_stub d l s = 0"
definition crypto_compute_fingerprint_stub :: "skcipher_request option \<Rightarrow> u64" where
  "crypto_compute_fingerprint_stub r = 0"
definition verify_deterministic_stub :: "vma_metadata option \<Rightarrow> u64 \<Rightarrow> bool \<times> vma_metadata option" where
  "verify_deterministic_stub m r = (False, m)"
definition should_cache_stub :: "vm_area_struct option \<Rightarrow> bool" where
  "should_cache_stub v = False"
definition validate_entry_stub :: "kcr_entry option \<Rightarrow> ptr \<Rightarrow> bool" where
  "validate_entry_stub e m = False"
definition inject_result_stub :: "pt_regs option \<Rightarrow> kcr_entry option \<Rightarrow> pt_regs option" where
  "inject_result_stub r e = r"
definition kcr_debugfs_init_stub :: int where "kcr_debugfs_init_stub = 0"
definition kcr_debugfs_exit_stub :: "debugfs_state \<Rightarrow> debugfs_state" where
  "kcr_debugfs_exit_stub d = d"
definition kcr_iommu_init_stub ::
    "ptr \<Rightarrow> iommu_notifier_data option \<Rightarrow> int \<times> iommu_notifier_data option" where
  "kcr_iommu_init_stub m n = (0, n)"
definition kcr_iommu_exit_stub :: "iommu_notifier_data option \<Rightarrow> iommu_notifier_data option" where
  "kcr_iommu_exit_stub n = n"

text \<open>
  Where the two builds agree: \<open>should_cache\<close> never allows caching in either, and a module whose
  start failed or that was unloaded reports itself disabled as the stub does. They differ for a
  NULL entry: the stub of \<open>inject_result\<close> returns, the function dereferences it.
\<close>

lemma stub_should_cache: "should_cache v = should_cache_stub v"
  by (simp add: should_cache_def should_cache_stub_def split: option.split)

lemma stub_is_enabled: "unloaded s \<Longrightarrow> kcr_is_enabled s = kcr_is_enabled_stub"
  by (simp add: unloaded_def kcr_is_enabled_def kcr_is_enabled_stub_def)

lemma stub_inject_differs:
  "inject_result r None = Inl NullDeref" "inject_result_stub r None = r"
  by (simp_all add: inject_result_def inject_result_stub_def)

end
