(* ===== verification/Spec2Isabelle.thy ===== *)
theory Spec2Isabelle
  imports Cache_Readers Cache_Preempted Cache_Reclaim Cache_Slots KCR_Statistics KCR_Stubs
begin

text \<open>
  Kernel Computation Reuse (KCR): a model of the kernel module and what is proved of it.

  \<^bold>\<open>The program.\<close> KCR caches results of computations under a 64-bit fingerprint and the address of
  the memory space (\<open>mm\<close>) they belong to. Results live in slab entries (\<open>struct kcr_entry\<close>), each linked
  by one \<open>hlist_node\<close>. A store inserts the entry into a bucket of the calling CPU's L2 table and then
  into a bucket of its socket's L3 table; a lookup searches L2, then L3, and promotes an L3 hit;
  results above 64 bytes go to a buffer referenced from one of 256 slots of the socket. Entries are
  freed after an RCU grace period. Around this are the fingerprint, validation and injection
  functions (\<open>kernel/kcr/kcr_core.c\<close>), the learning mode that decides whether a VMA is deterministic
  (\<open>kcr_determinism.c\<close>), the shared region (\<open>kcr_mem.c\<close>), module start and stop (\<open>kcr_main.c\<close>), the
  statistics files (\<open>kcr_debugfs.c\<close>) and an IOMMU notifier that invalidates (\<open>kcr_iommu.c\<close>).

  \<^bold>\<open>Theories and the code they model.\<close>
  \<^item> \<open>KCR_Prelude\<close>, \<open>Kernel_Lib\<close>: faults as values (\<open>fault\<close>, \<open>rbind\<close>), little-endian memory, loops over
    indices, jiffies comparison.
  \<^item> \<open>KCR_Types\<close>: constants and structures of \<open>include/linux/kcr.h\<close>, \<open>kcr_flags.h\<close>, \<open>kcr_task.h\<close>. The
    union of \<open>struct kcr_entry\<close> is its 64 bytes.
  \<^item> \<open>KCR_Heap\<close>, \<open>Hlist\<close>: the memory the cache works on, spinlocks, \<open>kfree\<close>, \<open>call_rcu\<close>, the \<open>hlist\<close>
    macros pointer by pointer, and their specification on well-formed lists (\<open>chain\<close>, \<open>dlist\<close>).
  \<^item> \<open>KCR_Core\<close>, \<open>KCR_Determinism\<close>, \<open>KCR_Cache\<close>, \<open>KCR_Mem\<close>, \<open>KCR_Debugfs\<close>, \<open>KCR_Main\<close>, \<open>KCR_Iommu\<close>: one
    theory per source file, functions under their C names. Each takes what the kernel supplies (CPU,
    node, jiffies, allocator results) in a record and returns the C return value with the new
    state, or the fault it runs into.
    \<open>KCR_Stubs\<close> has the inline functions of builds without \<open>CONFIG_KCR\<close>, with the suffix \<open>_stub\<close>.
  \<^item> \<open>Cache_Tier\<close>: the contract of one tier on a well-formed bucket, as the locale \<open>cache_tier\<close>,
    interpreted for L2 and for L3. The locale \<open>region_provider\<close> of \<open>KCR_Mem\<close> is the contract between
    the region and module start; the locale \<open>entry_property\<close> of \<open>Cache_Entries\<close> is what every property
    of stored entries shares, whatever it says.
  \<^item> \<open>List_Walk\<close>: the fuel of the list walks is exact.
  \<^item> \<open>Cache_Ops\<close>, \<open>Cache_Store\<close>, \<open>Cache_Flush\<close>: what the operations guarantee in arbitrary states:
    soundness and accounting of lookups, error returns, contents of the stored entry, invalidation of
    a bucket as a filter.
  \<^item> \<open>Cache_Entries\<close>, \<open>Cache_History\<close>, \<open>Cache_Slots\<close>: what holds over all runs that do not fault, on
    any CPUs: the type invariant of entries; every hit returns what a successful store of its key put
    there; external slots are never given back without an invalidation.
  \<^item> \<open>Cache_Shared\<close>, \<open>Cache_Quiet\<close>, \<open>Cache_Run\<close>: the two tiers together. One node in two lists makes
    the L2 head point into the L3 list. Where all keys of an L2 bucket share an L3 bucket this works
    as one list, and on one CPU the cache refines a specification with last-write-wins lookups,
    across grace periods and reuse of addresses.
  \<^item> \<open>Cache_Invalidate\<close>: \<open>invalidate_range\<close> on that shape. As long as no L2 head points to an entry of the
    memory space, it filters the lists, frees the external slots and keeps the shape; then
    invalidations belong to the workload of the refinement.
  \<^item> \<open>Cache_Closed\<close>, \<open>Cache_Readers\<close>: the read side of RCU. A reader that walks a bucket node by node
    (\<open>read_section\<close>, an inductive relation that interleaves its turns with complete operations of
    writers) never touches freed memory on that workload; the entry returned after the section is
    not protected; and after a grace period nothing is allocated that a lookup does not find.
  \<^item> \<open>Cache_Faults\<close>: outside that workload it fails; symbolic runs exhibit the poisoned link, use after
    free, double free, the list cycle, the entry that promotion takes out of L3, and entries that
    survive invalidation.
  \<^item> \<open>KCR_Threads\<close>, \<open>Cache_Interleaved\<close>, \<open>Cache_Race\<close>: the cache operations as threads (\<open>program\<close>) whose
    steps interleave on any CPUs (\<open>pstep\<close>). A step is a list walk, a list macro, an allocation or release,
    an access to a counter, or a lock operation; run without interruption a thread is the function of
    \<open>KCR_Cache\<close> (\<open>run_program\<close>). The spinlocks exclude each other's critical sections and no
    interleaving deadlocks (what all steps preserve is an instance of the locale
    \<open>pool_invariant\<close>); but two concurrent lookups can crash.
  \<^item> \<open>Cache_Preempted\<close>: on one CPU, a store that preempts another between its insertions into L2 and L3
    makes the next grace period free an entry twice; in sequence the two are fine.
  \<^item> \<open>Cache_Sites\<close>, \<open>Cache_Nodes\<close>: one CPU with its socket's table and its allocations as a part of the memory
    (\<open>view\<close>), and the frame rule: each step does to the memory what it does to that part (\<open>framed\<close>,
    \<open>local\<close>). So threads on CPUs of different sockets, interleaved in any way, do not interfere, and on
    the quiet workload refine the specification. What the steps of a thread alone preserve they preserve
    in the pool (locale \<open>site_threads\<close>).
  \<^item> \<open>Cache_Callbacks\<close>, \<open>Cache_Tolerant\<close>, \<open>Cache_Reclaim\<close>: the freeing of queued entries between any two steps
    of the threads, on each CPU while it holds no lock (\<open>rstep\<close>). \<open>safe\<close> says that a program withstands
    this; lookups and stores do, also while a store is between its two insertions, so the threads
    still refine the specification.
  \<^item> \<open>KCR_Lifecycle\<close>: load, unload, parameter writes and cache operations as a transition system.
  \<^item> \<open>KCR_Statistics\<close>: what the statistics file shows after a load and any use of the cache. The file is
    read back by a reader of \<open>KCR_Debugfs\<close> (\<open>field\<close>, \<open>number\<close>, \<open>cpu_rows\<close>) that does not refer to the printer.

  \<^bold>\<open>Bounds.\<close> A list walk has fuel one above the number of allocated entries: a walk that ends after
  any number of turns ends within it (\<open>walk_fuel\<close>), so the value \<open>EndlessLoop\<close> means that
  the loop of the source never ends. The flush loop of \<open>invalidate_range\<close>, which changes the list it
  walks, has the square of that; on well-formed buckets it is proved to end (\<open>flush_bucket_filters\<close>), on
  corrupted ones \<open>EndlessLoop\<close> only means that this bound was not enough.

  \<^bold>\<open>Not modelled.\<close> Where a theorem speaks of a run of requests (\<open>perform_all\<close>), the operations
  follow each other completely, on any CPUs; the list walk of a reader is interleaved with writers in
  \<open>Cache_Readers\<close>, and all operations with each other in \<open>Cache_Interleaved\<close>. There a list walk, the loop
  that flushes one bucket and the filling of an external slot under its lock are each one step, the memory is sequentially consistent, a grace period is
  one step that can come at any time, and a thread stays on its CPU. The threads of \<open>Cache_Nodes\<close> run
  between two grace periods; in \<open>Cache_Reclaim\<close> the entries are freed one by one while the threads run, but the
  requests are lookups and stores, no address is allocated twice, and a CPU frees what it has queued itself,
  while its thread holds no lock; the kernel may also run the callbacks of a CPU elsewhere. In
  \<open>Cache_Readers\<close> nothing at all is freed during a read section, although RCU lets it be that what was
  queued before the section began is freed in it. \<open>pr_debug\<close>, \<open>pr_info\<close> and \<open>pr_warn\<close> have no effect. The
  hash \<open>xxh64\<close>, the allocators, the possible CPUs and nodes and the debugfs core are arguments.
  The source applies \<open>this_cpu_inc\<close> to an address that is already that of the CPU's copy, so on a
  multiprocessor build the word incremented lies outside the cache; these words (\<open>stray\<close>) are taken to be
  mapped, to belong to no object of the module and to differ between CPUs, and nothing reads them.
  \<open>kcr_types.h\<close> contains no code; the build files, the documents and the script \<open>search.py\<close> are not
  part of the module.
\<close>

section \<open>From module start to the cache\<close>

text \<open>
  C1. The module and the cache together: load the module on zeroed memory with all allocations
  succeeding, then run any sequence of stores, lookups, invalidations and grace periods on one CPU
  with a valid node, for fingerprints of which two share an L2 bucket only if they share the L3
  bucket, invalidating a memory space only while none of its entries is the newest of an L2 bucket.
  Nothing faults, from the start on, and every reply is one the specification of the cache allows.
\<close>

theorem loaded_cache_refines_spec:
  assumes "kcr_enable s" and "region_fresh (region_env e) (memory s)" and "allocations_succeed e"
    and "zeroed_memory e" and "entries (cache s) = []" and "bufs (cache s) = []"
    and "rcu_pending (cache s) = []" and "0 < num_possible_nodes e" and "0 \<le> node v" and "alias_free F"
    and "\<And>t. kcr_init e s = Inr (0, t) \<Longrightarrow> quiet v F rs (cache t)"
  shows "\<exists>t ys c b. kcr_init e s = Inr (0, t) \<and> kcr_is_enabled t
    \<and> perform_all rs (cache t) = Inr (ys, c) \<and> spec_run (\<lambda>_. []) rs ys b"
proof -
  from kcr_init_fresh [OF assms(1-7)] obtain t where
    t: "kcr_init e s = Inr (0, t)" "kcr_is_enabled t"
    "cache t = (fresh_cache (alloc_percpu_ret e) (kcalloc_ret e) (int (num_possible_nodes e)))
      \<lparr>stray := stray (cache s)\<rparr>" by blast
  have "alloc_percpu_ret e \<noteq> NULL" "kcalloc_ret e \<noteq> NULL" "0 < int (num_possible_nodes e)"
    using assms(3,8) by (simp_all add: allocations_succeed_def)
  from fresh_simulates [OF this assms(9), of F] have "simulates v F (cache t) (\<lambda>_. [])"
    by (simp only: t(3) simulates_stray)
  from simulates_run [OF this assms(10) assms(11) [OF t(1)]] t(1,2) show ?thesis by blast
qed

theorem loaded_cache_refines_spec_witness:
  "\<exists>t ys c b. kcr_init demo_env boot_state = Inr (0, t)
     \<and> perform_all demo_invalidate (cache t) = Inr (ys, c) \<and> spec_run (\<lambda>_. []) demo_invalidate ys b"
proof -
  obtain t where t: "kcr_init demo_env boot_state = Inr (0, t)" "cache t = fresh_cache 16 32 1"
    using demo_loaded by metis
  have "quiet (ctx 0 0 0 0) {5} demo_invalidate (cache u)"
    if "kcr_init demo_env boot_state = Inr (0, u)" for u
    using that t demo_invalidate_quiet(2) by simp
  moreover have "entries (cache boot_state) = []" "bufs (cache boot_state) = []"
    "rcu_pending (cache boot_state) = []" "0 < num_possible_nodes demo_env" "0 \<le> node (ctx 0 0 0 0)"
    by (simp_all add: boot_state_def fresh_cache_def demo_env_def ctx_def)
  ultimately show ?thesis
    using loaded_cache_refines_spec [OF demo_facts(1-4) _ _ _ _ _ demo_invalidate_quiet(1)] by blast
qed

end
